(* ===== verification/LichenPrelude.thy ===== *)
theory LichenPrelude
  imports Main "HOL-Library.Word" "HOL-Library.AList" "HOL-Library.Multiset"
begin

text \<open>
  Shared vocabulary of the development: machine integers, byte strings, Rust's
  saturating and checked arithmetic, slices and in-place buffer writes, hash maps as
  association lists, the error payloads of \<open>lichen-ipv6\<close> that every crate re-exports,
  and the two contracts that most components instantiate (a wire codec and a state
  machine with an invariant).
\<close>

unbundle bit_operations_syntax

named_theorems codec_simps \<open>equations that evaluate writes into and reads from wire buffers\<close>
named_theorems arith_u \<open>unsigned readings of Rust's saturating and checked operations\<close>

section \<open>Machine integers\<close>

type_synonym u8 = "8 word"
type_synonym u16 = "16 word"
type_synonym u32 = "32 word"
type_synonym u64 = "64 word"
type_synonym bytes = "u8 list"

definition sat_add :: "'a::len word \<Rightarrow> 'a word \<Rightarrow> 'a word" where
  "sat_add a b = (if unat a + unat b < 2 ^ LENGTH('a) then a + b else - 1)"

definition sat_sub :: "'a::len word \<Rightarrow> 'a word \<Rightarrow> 'a word" where
  "sat_sub a b = (if a < b then 0 else a - b)"

definition sat_mul :: "'a::len word \<Rightarrow> 'a word \<Rightarrow> 'a word" where
  "sat_mul a b = (if unat a * unat b < 2 ^ LENGTH('a) then a * b else - 1)"

definition checked_add :: "'a::len word \<Rightarrow> 'a word \<Rightarrow> 'a word option" where
  "checked_add a b = (if unat a + unat b < 2 ^ LENGTH('a) then Some (a + b) else None)"

definition checked_sub :: "'a::len word \<Rightarrow> 'a word \<Rightarrow> 'a word option" where
  "checked_sub a b = (if b \<le> a then Some (a - b) else None)"

definition checked_mul :: "'a::len word \<Rightarrow> 'a word \<Rightarrow> 'a word option" where
  "checked_mul a b = (if unat a * unat b < 2 ^ LENGTH('a) then Some (a * b) else None)"

text \<open>A 64-bit \<open>usize\<close>: lengths are naturals, and \<open>checked_add\<close> on them fails at \<open>2 ^ 64\<close>.\<close>

definition usize_checked_add :: "nat \<Rightarrow> nat \<Rightarrow> nat option" where
  "usize_checked_add a b = (if a + b < 2 ^ 64 then Some (a + b) else None)"

text \<open>The same bounds on integers, whose binary arithmetic evaluates.\<close>

lemma nat_less_power_code: "m < 2 ^ n \<longleftrightarrow> int m < 2 ^ n"
  by (metis of_nat_less_iff of_nat_numeral of_nat_power)

lemma checked_code [code]:
  fixes a b :: "'a::len word"
  shows "sat_add a b = (if uint a + uint b < 2 ^ LENGTH('a) then a + b else - 1)"
    and "sat_mul a b = (if uint a * uint b < 2 ^ LENGTH('a) then a * b else - 1)"
    and "checked_add a b = (if uint a + uint b < 2 ^ LENGTH('a) then Some (a + b) else None)"
    and "checked_mul a b = (if uint a * uint b < 2 ^ LENGTH('a) then Some (a * b) else None)"
    and "usize_checked_add m n = (if int m + int n < 2 ^ 64 then Some (m + n) else None)"
  by (simp_all add: sat_add_def sat_mul_def checked_add_def checked_mul_def usize_checked_add_def
    nat_less_power_code)

lemma unat_max_word: "unat (- 1 :: 'a::len word) = 2 ^ LENGTH('a) - 1"
  by (simp add: unsigned_minus_1_eq_mask mask_eq_exp_minus_1)

lemma unat_bound: "unat (w :: 'a::len word) < 2 ^ LENGTH('a)"
  by (rule unsigned_less)

lemma unat_ucast: "unat (ucast w :: 'b::len word) = unat (w :: 'a::len word) mod 2 ^ LENGTH('b)"
  by (simp add: unsigned_ucast_eq take_bit_eq_mod)

lemma unat_ucast_up:
  "LENGTH('a) \<le> LENGTH('b) \<Longrightarrow> unat (ucast (w :: 'a::len word) :: 'b::len word) = unat w"
proof -
  assume "LENGTH('a) \<le> LENGTH('b)"
  then have "(2 :: nat) ^ LENGTH('a) \<le> 2 ^ LENGTH('b)"
    by (rule power_increasing) simp
  then have "unat w < 2 ^ LENGTH('b)"
    using unat_bound [of w] by (rule less_le_trans [rotated])
  then show ?thesis by (simp add: unat_ucast)
qed

lemma unat_of_nat_small: "n < 2 ^ LENGTH('a) \<Longrightarrow> unat (word_of_nat n :: 'a::len word) = n"
  by (simp add: unsigned_of_nat take_bit_eq_mod)

text \<open>A property of every byte, checked by evaluation on all 256 of them.\<close>

lemma all_u8: "list_all (\<lambda>n. P (word_of_nat n)) [0..<256] \<Longrightarrow> P (b :: u8)"
proof -
  assume "list_all (\<lambda>n. P (word_of_nat n)) [0..<256]"
  moreover have "unat b \<in> set [0..<256]" using unat_bound [of b] by simp
  ultimately have "P (word_of_nat (unat b))" by (simp only: list_all_iff)
  then show "P b" by simp
qed

lemma and_push_bit_1: "w AND push_bit n 1 \<noteq> 0 \<longleftrightarrow> bit (w :: 'a::len word) n"
  by (simp add: and_exp_eq_0_iff_not_bit push_bit_of_1)

lemma bit_one_word_iff: "bit (1 :: 'a::len word) n \<longleftrightarrow> n = 0"
  by (simp add: bit_1_iff)

lemma unat_sat_add [arith_u]:
  "unat (sat_add a b) = min (2 ^ LENGTH('a) - 1) (unat a + unat (b :: 'a::len word))"
  by (auto simp: sat_add_def unat_word_ariths unat_max_word)

lemma unat_sat_sub [arith_u]: "unat (sat_sub a b) = unat a - unat (b :: 'a::len word)"
  by (auto simp: sat_sub_def word_less_nat_alt unat_sub word_le_nat_alt not_less)

lemma unat_sat_mul [arith_u]:
  "unat (sat_mul a b) = min (2 ^ LENGTH('a) - 1) (unat a * unat (b :: 'a::len word))"
  by (auto simp: sat_mul_def unat_word_ariths unat_max_word)

lemma checked_add_Some_iff [arith_u]:
  "checked_add a b = Some c \<longleftrightarrow> unat a + unat b < 2 ^ LENGTH('a) \<and> c = a + (b :: 'a::len word)"
  by (auto simp: checked_add_def)

lemma checked_add_None_iff [arith_u]:
  "checked_add a b = None \<longleftrightarrow> 2 ^ LENGTH('a) \<le> unat a + unat (b :: 'a::len word)"
  by (auto simp: checked_add_def)

lemma unat_add_no_overflow:
  "unat a + unat b < 2 ^ LENGTH('a) \<Longrightarrow> unat (a + b) = unat a + unat (b :: 'a::len word)"
  by (simp add: unat_word_ariths)

lemma sat_add_ge: "a \<le> sat_add a (b :: 'a::len word)"
proof -
  have "unat a \<le> 2 ^ LENGTH('a) - 1"
    using unat_bound [of a] by linarith
  then show ?thesis
    by (simp add: word_le_nat_alt unat_sat_add)
qed

text \<open>The two's-complement reading \<open>as i32\<close>, \<open>as i16\<close> in terms of the unsigned one.\<close>

lemma sint_unat:
  "sint (w :: 'a::len word) =
     (if unat w < 2 ^ (LENGTH('a) - 1) then int (unat w) else int (unat w) - 2 ^ LENGTH('a))"
proof -
  define h :: int where "h = 2 ^ (LENGTH('a) - 1)"
  have h2: "2 ^ LENGTH('a) = 2 * h"
    unfolding h_def by (metis One_nat_def Suc_pred len_gt_0 power_Suc)
  have w: "0 \<le> uint w" "uint w < 2 * h"
    using uint_lt2p [of w] h2 by simp_all
  have s: "sint w = (uint w + h) mod (2 * h) - h"
    using int_word_sint [of "uint w", where 'a = 'a] h2 by (simp add: h_def)
  have "sint w = (if uint w < h then uint w else uint w - 2 * h)"
  proof (cases "uint w < h")
    case True
    then show ?thesis using s w by simp
  next
    case False
    then have "(uint w + h) mod (2 * h) = (uint w + h - 2 * h) mod (2 * h)"
      by (simp only: minus_mod_self2)
    also have "\<dots> = uint w - h"
      using False w by (simp add: mod_pos_pos_trivial)
    finally show ?thesis using s False by simp
  qed
  moreover have "unat w < 2 ^ (LENGTH('a) - 1) \<longleftrightarrow> uint w < h"
    unfolding h_def
    using of_nat_less_iff [of "unat w" "2 ^ (LENGTH('a) - 1)", where 'a = int]
    by (simp only: of_nat_unat of_nat_power of_nat_numeral)
  ultimately show ?thesis by (simp add: h2)
qed

section \<open>Big-endian and little-endian byte strings\<close>

definition be_bytes :: "nat \<Rightarrow> 'a::len word \<Rightarrow> bytes" where
  "be_bytes n w = map (\<lambda>i. ucast (drop_bit (8 * i) w)) (rev [0..<n])"

definition of_be :: "bytes \<Rightarrow> 'a::len word" where
  "of_be bs = foldl (\<lambda>acc b. push_bit 8 acc OR ucast b) 0 bs"

definition le_bytes :: "nat \<Rightarrow> 'a::len word \<Rightarrow> bytes" where
  "le_bytes n w = rev (be_bytes n w)"

lemma length_be_bytes [simp]: "length (be_bytes n w) = n"
  by (simp add: be_bytes_def)

lemma length_le_bytes [simp]: "length (le_bytes n w) = n"
  by (simp add: le_bytes_def)

lemma of_be_snoc: "of_be (bs @ [b]) = (push_bit 8 (of_be bs) OR ucast b :: 'a::len word)"
  by (simp add: of_be_def)

lemma bit_of_be:
  "bit (of_be bs :: 'a::len word) k \<longleftrightarrow>
     k < LENGTH('a) \<and> k < 8 * length bs \<and> bit (rev bs ! (k div 8)) (k mod 8)"
proof (induction bs arbitrary: k rule: rev_induct)
  case Nil
  then show ?case by (simp add: of_be_def)
next
  case (snoc b bs)
  show ?case
  proof (cases "k < 8")
    case True
    then show ?thesis
      by (auto simp: of_be_snoc bit_simps)
  next
    case False
    then obtain j where j: "k = j + 8"
      using le_Suc_ex [of 8 k] by (auto simp: not_less add.commute)
    have nb: "\<not> bit b k" for b :: u8
      using j by (auto simp: bit_simps dest!: bit_imp_le_length)
    have "bit (of_be (bs @ [b]) :: 'a word) k \<longleftrightarrow> k < LENGTH('a) \<and> bit (of_be bs :: 'a word) j"
      using nb j by (auto simp: of_be_snoc bit_simps)
    also have "\<dots> \<longleftrightarrow> k < LENGTH('a) \<and> j < 8 * length bs \<and> bit (rev bs ! (j div 8)) (j mod 8)"
      using j by (auto simp: snoc.IH)
    finally show ?thesis
      using j by (simp add: div_add1_eq [of j 8 8])
  qed
qed

lemma of_be_be_bytes [simp, codec_simps]:
  assumes "LENGTH('a) = 8 * n"
  shows "of_be (be_bytes n w) = (w :: 'a::len word)"
proof (rule bit_word_eqI)
  fix k
  assume k: "k < LENGTH('a)"
  then have "k div 8 < n"
    using assms by (simp add: less_mult_imp_div_less mult.commute)
  then show "bit (of_be (be_bytes n w) :: 'a word) k \<longleftrightarrow> bit w k"
    using k assms by (simp add: bit_of_be be_bytes_def rev_map bit_simps)
qed

lemma be_bytes_of_be [simp, codec_simps]:
  assumes "LENGTH('a) = 8 * n" and "length bs = n"
  shows "be_bytes n (of_be bs :: 'a::len word) = bs"
proof (rule nth_equalityI)
  show "length (be_bytes n (of_be bs :: 'a word)) = length bs"
    using assms by simp
next
  fix i
  assume "i < length (be_bytes n (of_be bs :: 'a word))"
  then have i: "i < n" by simp
  show "be_bytes n (of_be bs :: 'a word) ! i = bs ! i"
  proof (rule bit_word_eqI)
    fix k
    assume k: "k < LENGTH(8)"
    have "8 * (n - Suc i) + k < 8 * n"
      using i k by simp
    moreover have "rev bs ! (n - Suc i) = bs ! i"
      using i assms(2) by (simp add: rev_nth)
    ultimately show "bit (be_bytes n (of_be bs :: 'a word) ! i) k \<longleftrightarrow> bit (bs ! i) k"
      using i k assms by (simp add: be_bytes_def rev_nth bit_simps bit_of_be)
  qed
qed

lemma be_bytes_inject:
  "LENGTH('a) = 8 * n \<Longrightarrow> be_bytes n v = be_bytes n (w :: 'a::len word) \<longleftrightarrow> v = w"
  by (metis of_be_be_bytes)

lemma be_bytes_2: "\<exists>a b. be_bytes 2 w = [a, b]"
  by (simp add: be_bytes_def numeral_2_eq_2)

section \<open>Slices and in-place writes\<close>

text \<open>
  \<open>slice i j xs\<close> is \<open>&xs[i..j]\<close> and \<open>splice buf off bs\<close> is
  \<open>buf[off..off + bs.len()].copy_from_slice(bs)\<close>. Both panic in Rust outside the buffer;
  every use in the model stands behind the bounds check the source makes first.
\<close>

definition slice :: "nat \<Rightarrow> nat \<Rightarrow> 'a list \<Rightarrow> 'a list" where
  "slice i j xs = take (j - i) (drop i xs)"

definition splice :: "'a list \<Rightarrow> nat \<Rightarrow> 'a list \<Rightarrow> 'a list" where
  "splice buf off bs = take off buf @ bs @ drop (off + length bs) buf"

lemma length_splice [simp]:
  "off + length bs \<le> length buf \<Longrightarrow> length (splice buf off bs) = length buf"
  by (simp add: splice_def)

lemma length_slice [simp]: "j \<le> length xs \<Longrightarrow> length (slice i j xs) = j - i"
  by (simp add: slice_def)

lemma take_splice_0: "take (length bs) (splice buf 0 bs) = bs"
  by (simp add: splice_def)

lemma splice_Nil [simp]: "splice buf off [] = buf"
  by (simp add: splice_def)

text \<open>Adjacent writes from the front of a buffer fuse into one.\<close>

lemma splice_splice [codec_simps]:
  "off = length as \<Longrightarrow> splice (splice buf 0 as) off bs = splice buf 0 (as @ bs)"
  by (simp add: splice_def add.commute)

lemma update_0_splice [codec_simps]: "buf \<noteq> [] \<Longrightarrow> buf[0 := x] = splice buf 0 [x]"
  by (cases buf) (simp_all add: splice_def)

lemma update_splice [codec_simps]:
  "off = length as \<Longrightarrow> off < length buf \<Longrightarrow>
     (splice buf 0 as)[off := x] = splice buf 0 (as @ [x])"
  by (simp add: splice_def list_update_append Cons_nth_drop_Suc [symmetric])

lemma slice_append_left: "j \<le> length xs \<Longrightarrow> slice i j (xs @ ys) = slice i j xs"
  by (simp add: slice_def)

lemma slice_append_right:
  "length xs \<le> i \<Longrightarrow> slice i j (xs @ ys) = slice (i - length xs) (j - length xs) ys"
  by (simp add: slice_def)

lemma slice_mid: "i = length as \<Longrightarrow> j = i + length bs \<Longrightarrow> slice i j (as @ bs @ cs) = bs"
  by (simp add: slice_def)

lemma slice_full: "j = length xs \<Longrightarrow> slice 0 j xs = xs"
  by (simp add: slice_def)

lemma slice_join: "i \<le> j \<Longrightarrow> j \<le> k \<Longrightarrow> slice i j xs @ slice j k xs = slice i k xs"
  using take_add [of "j - i" "k - j" "drop i xs"] by (simp add: slice_def add.commute)

lemma slice_drop_join: "i \<le> j \<Longrightarrow> slice i j xs @ drop j xs = drop i xs"
  by (metis append_take_drop_id drop_drop le_add_diff_inverse2 slice_def)

lemma slice_to_end: "length xs \<le> j \<Longrightarrow> slice i j xs = drop i xs"
  by (simp add: slice_def)

lemma nth_update_True: "a < length xs \<Longrightarrow> xs[b := True] ! a \<longleftrightarrow> a = b \<or> xs ! a"
  by (cases "a = b") auto

section \<open>Results and errors\<close>

text \<open>
  \<open>Result<T, E>\<close> is \<open>'e + 't\<close> with \<open>Inl\<close> the error; \<open>?\<close> is \<open>res_bind\<close>. The two
  structured errors below are \<open>lichen_ipv6::TooShort\<close> and \<open>lichen_ipv6::BufferTooSmall\<close>.
\<close>

record too_short =
  expected :: nat
  actual :: nat

record buffer_too_small =
  required :: nat
  provided :: nat

definition mk_too_short :: "nat \<Rightarrow> nat \<Rightarrow> too_short" where
  "mk_too_short e a = \<lparr>expected = e, actual = a\<rparr>"

definition mk_buffer_too_small :: "nat \<Rightarrow> nat \<Rightarrow> buffer_too_small" where
  "mk_buffer_too_small r p = \<lparr>required = r, provided = p\<rparr>"

fun res_bind :: "'e + 'a \<Rightarrow> ('a \<Rightarrow> 'e + 'b) \<Rightarrow> 'e + 'b" where
  "res_bind (Inl e) f = Inl e"
| "res_bind (Inr x) f = f x"

lemma res_bind_Inr_iff: "res_bind r f = Inr y \<longleftrightarrow> (\<exists>x. r = Inr x \<and> f x = Inr y)"
  by (cases r) auto

datatype rordering = OLess | OEqual | OGreater

section \<open>Vectors\<close>

text \<open>\<open>iter().position(p)\<close> and \<open>Vec::remove(i)\<close>, which every caller uses within bounds.\<close>

primrec position :: "('a \<Rightarrow> bool) \<Rightarrow> 'a list \<Rightarrow> nat option" where
  "position p [] = None"
| "position p (x # xs) = (if p x then Some 0 else map_option Suc (position p xs))"

definition vec_remove :: "nat \<Rightarrow> 'a list \<Rightarrow> 'a list" where
  "vec_remove i xs = take i xs @ drop (Suc i) xs"

lemma position_None_iff: "position p xs = None \<longleftrightarrow> (\<forall>x\<in>set xs. \<not> p x)"
  by (induction xs) auto

lemma position_SomeD:
  "position p xs = Some i \<Longrightarrow> i < length xs \<and> p (xs ! i) \<and> (\<forall>j<i. \<not> p (xs ! j))"
  by (induction xs arbitrary: i) (auto simp: less_Suc_eq_0_disj split: if_splits)

lemma position_split:
  assumes "position p xs = Some i"
  obtains ys x zs where "xs = ys @ x # zs" and "length ys = i" and "p x" and "\<forall>y\<in>set ys. \<not> p y"
proof -
  note i = position_SomeD [OF assms]
  have "xs = take i xs @ xs ! i # drop (Suc i) xs"
    using i id_take_nth_drop by blast
  moreover have "\<forall>y\<in>set (take i xs). \<not> p y"
    using i by (auto simp: in_set_conv_nth)
  ultimately show thesis
    using i by (intro that) auto
qed

lemma vec_remove_append [simp]: "vec_remove (length ys) (ys @ x # zs) = ys @ zs"
  by (simp add: vec_remove_def)

lemma vec_remove_0 [simp]: "vec_remove 0 (x # xs) = xs"
  by (simp add: vec_remove_def)

lemma length_vec_remove: "i < length xs \<Longrightarrow> length (vec_remove i xs) = length xs - 1"
  by (simp add: vec_remove_def)

section \<open>Hash maps\<close>

text \<open>
  A \<open>HashMap\<close> is an association list with distinct keys; the order of the list is the order
  in which \<open>iter()\<close> visits the entries, which Rust leaves unspecified, so no result may
  depend on it.
\<close>

type_synonym ('k, 'v) hmap = "('k \<times> 'v) list"

definition hm_wf :: "('k, 'v) hmap \<Rightarrow> bool" where
  "hm_wf m \<longleftrightarrow> distinct (map fst m)"

definition hm_get :: "('k, 'v) hmap \<Rightarrow> 'k \<Rightarrow> 'v option" where
  "hm_get m k = map_of m k"

definition hm_insert :: "'k \<Rightarrow> 'v \<Rightarrow> ('k, 'v) hmap \<Rightarrow> ('k, 'v) hmap" where
  "hm_insert k v m = AList.update k v m"

definition hm_remove :: "'k \<Rightarrow> ('k, 'v) hmap \<Rightarrow> ('k, 'v) hmap" where
  "hm_remove k m = AList.delete k m"

lemma hm_get_Nil [simp]: "hm_get [] k = None"
  by (simp add: hm_get_def)

lemma hm_wf_Nil [simp]: "hm_wf []"
  by (simp add: hm_wf_def)

lemma hm_get_insert: "hm_get (hm_insert k v m) k' = (if k' = k then Some v else hm_get m k')"
  by (simp add: hm_get_def hm_insert_def update_conv')

lemma hm_get_insert_same [simp]: "hm_get (hm_insert k v m) k = Some v"
  by (simp add: hm_get_insert)

lemma hm_get_insert_other [simp]: "k' \<noteq> k \<Longrightarrow> hm_get (hm_insert k v m) k' = hm_get m k'"
  by (simp add: hm_get_insert)

lemma hm_get_remove: "hm_get (hm_remove k m) k' = (if k' = k then None else hm_get m k')"
  by (simp add: hm_get_def hm_remove_def delete_conv')

lemma hm_get_remove_same [simp]: "hm_get (hm_remove k m) k = None"
  by (simp add: hm_get_remove)

lemma hm_get_remove_other [simp]: "k' \<noteq> k \<Longrightarrow> hm_get (hm_remove k m) k' = hm_get m k'"
  by (simp add: hm_get_remove)

lemma hm_wf_insert [simp]: "hm_wf m \<Longrightarrow> hm_wf (hm_insert k v m)"
  by (simp add: hm_wf_def hm_insert_def distinct_update)

lemma hm_wf_remove [simp]: "hm_wf m \<Longrightarrow> hm_wf (hm_remove k m)"
  by (simp add: hm_wf_def hm_remove_def distinct_delete)

lemma hm_keys: "fst ` set m = dom (hm_get m)"
proof -
  have "hm_get m = map_of m"
    by (simp add: fun_eq_iff hm_get_def)
  then show ?thesis
    by (simp add: dom_map_of_conv_image_fst)
qed

lemma hm_length_dom: "hm_wf m \<Longrightarrow> length m = card (dom (hm_get m))"
  by (metis distinct_card hm_keys hm_wf_def length_map list.set_map)

lemma hm_get_SomeD: "hm_get m k = Some v \<Longrightarrow> (k, v) \<in> set m"
  by (simp add: hm_get_def map_of_SomeD)

lemma hm_get_mem: "hm_wf m \<Longrightarrow> (k, v) \<in> set m \<Longrightarrow> hm_get m k = Some v"
  by (simp add: hm_get_def hm_wf_def)

lemma set_hm_insert: "set (hm_insert k v m) \<subseteq> insert (k, v) (set m)"
  unfolding hm_insert_def by (induction m) auto

lemma list_all_hm_insert:
  "list_all P m \<Longrightarrow> P (k, v) \<Longrightarrow> list_all P (hm_insert k v m)"
  using set_hm_insert [of k v m] by (auto simp: list_all_iff)

lemma length_hm_insert:
  "length (hm_insert k v m) = (if hm_get m k = None then Suc (length m) else length m)"
  unfolding hm_insert_def hm_get_def by (induction m) auto

lemma hm_remove_shorter: "(k, v) \<in> set m \<Longrightarrow> length (hm_remove k m) < length m"
proof -
  assume "(k, v) \<in> set m"
  then have "length (filter (\<lambda>(k', _). k \<noteq> k') m) < length m"
    by (intro length_filter_less) auto
  then show ?thesis by (simp add: hm_remove_def AList.delete_eq)
qed

lemma set_hm_remove: "set (hm_remove k m) \<subseteq> set m"
  by (simp add: hm_remove_def AList.delete_eq)

lemma hm_remove_absent: "hm_get m k = None \<Longrightarrow> hm_remove k m = m"
  by (induction m) (auto simp: hm_get_def hm_remove_def split: if_splits)

lemma length_hm_remove_le: "length (hm_remove k m) \<le> length m"
  by (simp add: hm_remove_def AList.delete_eq)

text \<open>\<open>iter().min_by_key(f)\<close>: the first entry with a least key.\<close>

fun min_by_key :: "('a \<Rightarrow> 'b::linorder) \<Rightarrow> 'a list \<Rightarrow> 'a option" where
  "min_by_key f [] = None"
| "min_by_key f (x # xs) =
     (case min_by_key f xs of
        None \<Rightarrow> Some x
      | Some y \<Rightarrow> Some (if f x \<le> f y then x else y))"

lemma min_by_key_None_iff [simp]: "min_by_key f xs = None \<longleftrightarrow> xs = []"
  by (cases xs) (auto split: option.splits)

lemma min_by_key_mem: "min_by_key f xs = Some x \<Longrightarrow> x \<in> set xs"
  by (induction xs arbitrary: x) (auto split: option.splits if_splits)

lemma min_by_key_le: "min_by_key f xs = Some x \<Longrightarrow> y \<in> set xs \<Longrightarrow> f x \<le> f y"
  by (induction xs arbitrary: x) (fastforce split: option.splits if_splits)+

section \<open>Contracts shared by the components\<close>

text \<open>
  A wire codec writes a valid value at the front of a caller-supplied buffer (or refuses a
  buffer that is too short) and parses it back. \<open>wire\<close> is the specification: the exact
  bytes of the value. Every fixed-layout message of the stack instantiates this contract.
\<close>

locale wire_codec =
  fixes enc :: "'a \<Rightarrow> bytes \<Rightarrow> 'e + (bytes \<times> nat)"
    and dec :: "bytes \<Rightarrow> 'e + 'a"
    and wire :: "'a \<Rightarrow> bytes"
    and valid :: "'a \<Rightarrow> bool"
  assumes enc_wire:
      "valid x \<Longrightarrow> length (wire x) \<le> length buf \<Longrightarrow>
         enc x buf = Inr (splice buf 0 (wire x), length (wire x))"
    and enc_small: "valid x \<Longrightarrow> length buf < length (wire x) \<Longrightarrow> \<exists>e. enc x buf = Inl e"
    and dec_wire: "valid x \<Longrightarrow> dec (wire x) = Inr x"
begin

lemma enc_Inr_iff:
  assumes "valid x"
  shows "enc x buf = Inr (buf', n) \<longleftrightarrow>
    length (wire x) \<le> length buf \<and> buf' = splice buf 0 (wire x) \<and> n = length (wire x)"
proof (cases "length (wire x) \<le> length buf")
  case True
  then show ?thesis using assms by (auto simp: enc_wire)
next
  case False
  then obtain e where "enc x buf = Inl e"
    using assms enc_small by (meson not_le)
  with False show ?thesis by simp
qed

lemma dec_enc: "valid x \<Longrightarrow> enc x buf = Inr (buf', n) \<Longrightarrow> dec (take n buf') = Inr x"
  by (auto simp: enc_Inr_iff take_splice_0 dec_wire)

lemma enc_keeps_tail:
  "valid x \<Longrightarrow> enc x buf = Inr (buf', n) \<Longrightarrow> length buf' = length buf \<and> drop n buf' = drop n buf"
  by (auto simp: enc_Inr_iff splice_def)

lemma wire_inject: "valid x \<Longrightarrow> valid y \<Longrightarrow> wire x = wire y \<Longrightarrow> x = y"
  by (metis dec_wire sum.inject(2))

lemma enc_total: "valid x \<Longrightarrow> \<exists>buf buf' n. enc x buf = Inr (buf', n)"
  by (meson enc_Inr_iff order_refl)

end

text \<open>
  A machine whose every step succeeds and keeps an invariant: then every history of calls
  succeeds and keeps it. \<open>None\<close> is a panic.
\<close>

primrec orun :: "('s \<Rightarrow> 'e \<Rightarrow> 's option) \<Rightarrow> 'e list \<Rightarrow> 's \<Rightarrow> 's option" where
  "orun step [] s = Some s"
| "orun step (e # es) s = (case step s e of None \<Rightarrow> None | Some s' \<Rightarrow> orun step es s')"

lemma orun_snoc:
  "orun step (es @ [e]) s = (case orun step es s of None \<Rightarrow> None | Some s' \<Rightarrow> step s' e)"
  by (induction es arbitrary: s) (simp_all split: option.split)

locale safe_machine =
  fixes step :: "'s \<Rightarrow> 'e \<Rightarrow> 's option"
    and inv :: "'s \<Rightarrow> bool"
  assumes progress: "inv s \<Longrightarrow> \<exists>s'. step s e = Some s' \<and> inv s'"
begin

lemma run_safe: "inv s \<Longrightarrow> \<exists>s'. orun step es s = Some s' \<and> inv s'"
proof (induction es arbitrary: s)
  case (Cons e es)
  obtain s1 where "step s e = Some s1" "inv s1" using progress [OF Cons.prems] by blast
  then show ?case using Cons.IH by simp
qed simp

end

text \<open>
  A machine some of whose calls have a precondition: within it a call succeeds and keeps the
  invariant, outside it the call panics. A history fails exactly at the first call outside its
  precondition.
\<close>

locale guarded_machine =
  fixes step :: "'s \<Rightarrow> 'e \<Rightarrow> 's option"
    and inv :: "'s \<Rightarrow> bool"
    and pre :: "'s \<Rightarrow> 'e \<Rightarrow> bool"
  assumes step_pre: "inv s \<Longrightarrow> pre s e \<Longrightarrow> \<exists>s'. step s e = Some s' \<and> inv s'"
    and step_stuck: "inv s \<Longrightarrow> \<not> pre s e \<Longrightarrow> step s e = None"
begin

lemma run_inv: "inv s \<Longrightarrow> orun step es s = Some s' \<Longrightarrow> inv s'"
proof (induction es arbitrary: s)
  case (Cons e es)
  then have "pre s e" using step_stuck [of s e] by (cases "pre s e") auto
  then obtain s1 where "step s e = Some s1" "inv s1" using step_pre [OF Cons.prems(1)] by blast
  then show ?case using Cons by simp
qed simp

lemma run_fails_iff:
  "inv s \<Longrightarrow> orun step es s = None \<longleftrightarrow>
     (\<exists>es1 e es2 s'. es = es1 @ e # es2 \<and> orun step es1 s = Some s' \<and> \<not> pre s' e)"
proof (induction es arbitrary: s)
  case (Cons e es)
  show ?case
  proof (cases "pre s e")
    case True
    then obtain s1 where s1: "step s e = Some s1" "inv s1" using step_pre [OF Cons.prems] by blast
    then have "orun step (e # es) s = None \<longleftrightarrow>
        (\<exists>es1 x es2 s'. es = es1 @ x # es2 \<and> orun step es1 s1 = Some s' \<and> \<not> pre s' x)"
      using Cons.IH by simp
    also have "\<dots> \<longleftrightarrow> (\<exists>es1 x es2 s'. e # es = (e # es1) @ x # es2 \<and> orun step (e # es1) s = Some s' \<and> \<not> pre s' x)"
      using s1(1) by simp
    also have "\<dots> \<longleftrightarrow> (\<exists>es1 x es2 s'. e # es = es1 @ x # es2 \<and> orun step es1 s = Some s' \<and> \<not> pre s' x)"
      using True by (auto simp: Cons_eq_append_conv) (metis orun.simps(2))+
    finally show ?thesis .
  next
    case False
    then show ?thesis using step_stuck [OF Cons.prems] by (auto intro!: exI [of _ "[]"])
  qed
qed simp

end

sublocale safe_machine \<subseteq> always: guarded_machine step inv "\<lambda>_ _. True"
  using progress by unfold_locales auto

text \<open>
  A forward simulation: every call on related states gives the same answer and related states
  again. Then whole histories of calls give the same answers.
\<close>

primrec srun :: "('s \<Rightarrow> 'e \<Rightarrow> 's \<times> 'o) \<Rightarrow> 'e list \<Rightarrow> 's \<Rightarrow> 's \<times> 'o list" where
  "srun step [] s = (s, [])"
| "srun step (e # es) s = (let (s, r) = step s e; (s, rs) = srun step es s in (s, r # rs))"

lemma srun_append:
  "srun step (as @ bs) s = (let (s1, r1) = srun step as s; (s2, r2) = srun step bs s1 in (s2, r1 @ r2))"
  by (induction as arbitrary: s) (auto split: prod.splits simp: Let_def)

locale forward_simulation =
  fixes cstep :: "'s \<Rightarrow> 'e \<Rightarrow> 's \<times> 'o"
    and astep :: "'a \<Rightarrow> 'e \<Rightarrow> 'a \<times> 'o"
    and rel :: "'s \<Rightarrow> 'a \<Rightarrow> bool"
  assumes sim: "rel s a \<Longrightarrow> rel (fst (cstep s e)) (fst (astep a e)) \<and> snd (cstep s e) = snd (astep a e)"
begin

lemma run_sim:
  "rel s a \<Longrightarrow> rel (fst (srun cstep es s)) (fst (srun astep es a)) \<and> snd (srun cstep es s) = snd (srun astep es a)"
proof (induction es arbitrary: s a)
  case (Cons e es)
  then show ?case using sim [OF Cons.prems, of e] Cons.IH by (simp add: case_prod_beta Let_def)
qed simp

end

end
