(* ===== verification/Serial_Numbers.thy ===== *)
theory Serial_Numbers
  imports LichenPrelude
begin

text \<open>
  Serial-number arithmetic. The stack has four independent comparators over wrapping
  counters: \<open>SeqNum\<close> of \<open>lichen-core/src/seqnum.rs\<close> (RFC 1982), \<open>seq_is_fresher\<close> of
  \<open>loadng.rs\<close>, \<open>GradientEntry::seq_cmp\<close> and \<open>is_expired\<close> of \<open>lichen-node/src/gradient.rs\<close>,
  and \<open>LinkSeqNum\<close> of \<open>lichen-link/src/seqnum.rs\<close>. They are modelled side by side and
  related to the distance between the counters.
\<close>

section \<open>lichen-core/src/seqnum.rs\<close>

definition SEQ_HALF :: u16 where
  "SEQ_HALF = push_bit 15 1"

type_synonym seq_num = u16

definition seq_increment :: "seq_num \<Rightarrow> seq_num" where
  "seq_increment s = s + 1"

definition seq_wrapping_add :: "seq_num \<Rightarrow> u16 \<Rightarrow> seq_num" where
  "seq_wrapping_add s n = s + n"

definition rfc1982_cmp :: "seq_num \<Rightarrow> seq_num \<Rightarrow> rordering option" where
  "rfc1982_cmp self other =
     (let diff = other - self in
      if diff = 0 then Some OEqual
      else if diff < SEQ_HALF then Some OLess
      else if diff > SEQ_HALF then Some OGreater
      else None)"

definition seq_try_from_usize :: "nat \<Rightarrow> seq_num option" where
  "seq_try_from_usize v = (if v < 2 ^ 16 then Some (of_nat v) else None)"

section \<open>lichen-core/src/loadng.rs, lichen-node/src/gradient.rs\<close>

definition seq_is_fresher :: "u16 \<Rightarrow> u16 \<Rightarrow> bool" where
  "seq_is_fresher existing incoming =
     (if existing = incoming then False else incoming - existing < SEQ_HALF)"

definition seq_cmp :: "u16 \<Rightarrow> u16 \<Rightarrow> rordering" where
  "seq_cmp a b =
     (if a = b then OEqual
      else (let diff = a - b in if diff < SEQ_HALF then OGreater else OLess))"

definition is_expired :: "u32 \<Rightarrow> u32 \<Rightarrow> bool" where
  "is_expired expires_ms now_ms =
     (let diff = now_ms - expires_ms in diff \<noteq> 0 \<and> diff < 0x80000000)"

section \<open>lichen-link/src/seqnum.rs\<close>

type_synonym link_seqnum = u16

definition wrapping_next :: "link_seqnum \<Rightarrow> link_seqnum" where
  "wrapping_next s = s + 1"

text \<open>\<open>fetch_increment\<close> returns the old value and leaves the successor behind.\<close>

definition fetch_increment :: "link_seqnum \<Rightarrow> link_seqnum \<times> link_seqnum" where
  "fetch_increment s = (s, s + 1)"

definition logical_counter :: "u8 \<Rightarrow> u16 \<Rightarrow> u32" where
  "logical_counter epoch seqnum = push_bit 16 (ucast epoch) OR ucast seqnum"

definition with_epoch :: "link_seqnum \<Rightarrow> u8 \<Rightarrow> u32" where
  "with_epoch s epoch = logical_counter epoch s"

definition signed_diff :: "link_seqnum \<Rightarrow> link_seqnum \<Rightarrow> int" where
  "signed_diff self other =
     (let diff = uint self - uint other in
      if diff > 32767 then diff - 65536
      else if diff < -32768 then diff + 65536
      else diff)"

section \<open>The distance between two counters\<close>

lemma unat_diff_u16:
  "unat (b - a :: u16) = (if unat a \<le> unat b then unat b - unat a else 65536 + unat b - unat a)"
proof (cases "a \<le> b")
  case True
  then show ?thesis by (simp add: unat_sub word_le_nat_alt)
next
  case False
  then have "unat b < unat a" by (simp add: word_le_nat_alt)
  moreover have "unat a < 65536" using unat_bound [of a] by simp
  ultimately show ?thesis
    by (simp add: unat_sub_if_size word_size)
qed

lemma SEQ_HALF_unat [simp]: "unat SEQ_HALF = 32768"
  by (simp add: SEQ_HALF_def)

lemma seq_dist_flip: "a \<noteq> b \<Longrightarrow> unat (b - a :: u16) = 65536 - unat (a - b)"
  using unat_bound [of a] unat_bound [of b] by (auto simp: unat_diff_u16 word_unat_eq_iff)

lemma diff_eq_iff_shift: "(b - a :: u16) = n \<longleftrightarrow> b = a + n"
  by (auto simp: algebra_simps)

lemma rfc1982_Less_iff:
  "rfc1982_cmp a b = Some OLess \<longleftrightarrow> 0 < unat (b - a) \<and> unat (b - a) < 32768"
  by (auto simp: rfc1982_cmp_def Let_def word_less_nat_alt unat_gt_0)

lemma rfc1982_Greater_iff: "rfc1982_cmp a b = Some OGreater \<longleftrightarrow> 32768 < unat (b - a)"
  by (auto simp: rfc1982_cmp_def Let_def word_less_nat_alt unat_gt_0)

lemma rfc1982_Equal_iff: "rfc1982_cmp a b = Some OEqual \<longleftrightarrow> a = b"
  by (auto simp: rfc1982_cmp_def Let_def)

lemma rfc1982_None_iff: "rfc1982_cmp a b = None \<longleftrightarrow> unat (b - a) = 32768"
proof -
  have "b - a = SEQ_HALF \<longleftrightarrow> unat (b - a) = 32768"
    by (metis SEQ_HALF_unat word_unat_eq_iff)
  then show ?thesis
    by (auto simp: rfc1982_cmp_def Let_def SEQ_HALF_def)
qed

lemmas rfc1982_iffs = rfc1982_Less_iff rfc1982_Greater_iff rfc1982_Equal_iff rfc1982_None_iff

lemma unat_shift_iff:
  "n < 65536 \<Longrightarrow> unat (b - a :: u16) = n \<longleftrightarrow> unat b = (unat a + n) mod 65536"
proof -
  assume n: "n < 65536"
  have a: "unat a < 65536" and b: "unat b < 65536"
    using unat_bound [of a] unat_bound [of b] by simp_all
  have "(unat a + n) mod 65536 = (if unat a + n < 65536 then unat a + n else unat a + n - 65536)"
    using a n by (simp add: mod_if)
  then show ?thesis
    using a b n by (simp add: unat_diff_u16) linarith
qed

lemma rfc1982_flip: "rfc1982_cmp a b = Some OGreater \<longleftrightarrow> rfc1982_cmp b a = Some OLess"
proof (cases "a = b")
  case True
  then show ?thesis by (simp add: rfc1982_cmp_def)
next
  case False
  then have "unat (a - b) > 0" "unat (b - a) = 65536 - unat (a - b)" "unat (a - b) < 65536"
    using seq_dist_flip [OF False] unat_bound [of "a - b"] by (auto simp: unat_gt_0)
  then show ?thesis by (auto simp: rfc1982_iffs)
qed

lemma is_expired_iff: "is_expired e n \<longleftrightarrow> 0 < unat (n - e) \<and> unat (n - e) < 2 ^ 31"
  by (auto simp: is_expired_def Let_def word_less_nat_alt unat_gt_0)

text \<open>
  \<open>SeqNum\<close> implements RFC 1982 section 3.2 over 16 bits: \<open>a < b\<close> exactly when \<open>b\<close> is
  reached from \<open>a\<close> by fewer than \<open>2 ^ 15\<close> wrapping increments, \<open>>\<close> is the converse of
  \<open><\<close>, equality is identity, and the pair is unordered exactly at distance \<open>2 ^ 15\<close>.
\<close>

theorem rfc1982_cmp_spec:
  "(rfc1982_cmp a b = Some OLess \<longleftrightarrow> (\<exists>n. 0 < n \<and> n < 2 ^ 15 \<and> unat b = (unat a + n) mod 2 ^ 16))
   \<and> (rfc1982_cmp a b = Some OGreater \<longleftrightarrow> rfc1982_cmp b a = Some OLess)
   \<and> (rfc1982_cmp a b = Some OEqual \<longleftrightarrow> a = b)
   \<and> (rfc1982_cmp a b = None \<longleftrightarrow> unat b = (unat a + 2 ^ 15) mod 2 ^ 16)"
proof -
  have "rfc1982_cmp a b = Some OLess \<longleftrightarrow> (\<exists>n. 0 < n \<and> n < 32768 \<and> unat (b - a) = n)"
    by (auto simp: rfc1982_iffs)
  also have "\<dots> \<longleftrightarrow> (\<exists>n. 0 < n \<and> n < 32768 \<and> unat b = (unat a + n) mod 65536)"
  proof (rule ex_cong1)
    fix n :: nat
    show "0 < n \<and> n < 32768 \<and> unat (b - a) = n \<longleftrightarrow> 0 < n \<and> n < 32768 \<and> unat b = (unat a + n) mod 65536"
      using unat_shift_iff [of n b a] by (cases "n < 32768") simp_all
  qed
  finally show ?thesis
    using unat_shift_iff [of 32768 b a] by (auto simp: rfc1982_flip rfc1982_iffs)
qed

lemma seq_is_fresher_iff: "seq_is_fresher a b \<longleftrightarrow> rfc1982_cmp a b = Some OLess"
  by (auto simp: seq_is_fresher_def rfc1982_Less_iff word_less_nat_alt unat_gt_0)

lemma seq_cmp_eq: "seq_cmp a b = (case rfc1982_cmp a b of Some c \<Rightarrow> c | None \<Rightarrow> OLess)"
proof (cases "a = b")
  case True
  then show ?thesis by (simp add: seq_cmp_def rfc1982_cmp_def)
next
  case False
  have flip: "unat (b - a) = 65536 - unat (a - b)" and pos: "0 < unat (a - b)" "unat (a - b) < 65536"
    using seq_dist_flip [OF False] False unat_bound [of "a - b"] by (auto simp: unat_gt_0)
  have "seq_cmp a b = (if unat (a - b) < 32768 then OGreater else OLess)"
    using False by (simp add: seq_cmp_def Let_def word_less_nat_alt)
  moreover have "rfc1982_cmp a b =
      (if unat (a - b) < 32768 then Some OGreater else if unat (a - b) = 32768 then None else Some OLess)"
    using flip pos False by (auto simp: rfc1982_iffs)
  ultimately show ?thesis by simp
qed

lemma signed_diff_eq_sint: "signed_diff a b = sint (a - b)"
proof -
  define x y where "x = unat a" and "y = unat b"
  have xy: "x < 65536" "y < 65536"
    using unat_bound [of a] unat_bound [of b] by (simp_all add: x_def y_def)
  have "uint a = int x" "uint b = int y"
    by (simp_all add: x_def y_def)
  then have "signed_diff a b = (if int x - int y > 32767 then int x - int y - 65536
      else if int x - int y < - 32768 then int x - int y + 65536 else int x - int y)"
    by (simp add: signed_diff_def Let_def)
  moreover have d: "unat (a - b) = (if y \<le> x then x - y else 65536 + x - y)"
    by (simp add: unat_diff_u16 x_def y_def)
  have "sint (a - b) = (if unat (a - b) < 32768 then int (unat (a - b)) else int (unat (a - b)) - 65536)"
    by (simp add: sint_unat)
  ultimately show ?thesis
    unfolding d using xy by (auto simp: of_nat_diff)
qed

text \<open>
  C11. The comparators of the stack agree on every pair of counters: LOADng's freshness test is
  the RFC 1982 strict order, the gradient table's comparison is the RFC 1982 order with the
  undefined half-window case resolved as \<open>Less\<close> in both directions, and the link layer's
  signed distance is the two's-complement reading of the wrapping difference.
\<close>

theorem comparators_agree:
  "(seq_is_fresher a b \<longleftrightarrow> rfc1982_cmp a b = Some OLess)
   \<and> seq_cmp a b = (case rfc1982_cmp a b of Some c \<Rightarrow> c | None \<Rightarrow> OLess)
   \<and> signed_diff a b = sint (a - b)"
  by (simp add: seq_is_fresher_iff seq_cmp_eq signed_diff_eq_sint)

lemma unat_logical_counter: "unat (logical_counter e s) = 65536 * unat e + unat s"
proof -
  have b: "unat e < 256" "unat s < 65536"
    using unat_bound [of e] unat_bound [of s] by simp_all
  have "logical_counter e s = push_bit 16 (ucast e) + ucast s"
    unfolding logical_counter_def
    by (rule disjunctive_add_eq_or [symmetric]) (auto simp: bit_eq_iff bit_simps dest: bit_imp_le_length)
  moreover have "unat (push_bit 16 (ucast e :: u32)) = 65536 * unat e"
    using b by (simp add: push_bit_eq_mult unat_word_ariths unat_ucast_up)
  moreover have "unat (ucast s :: u32) = unat s"
    by (simp add: unat_ucast_up)
  ultimately show ?thesis
    using b by (simp add: unat_word_ariths)
qed

text \<open>
  The 24-bit replay counter orders frames lexicographically by epoch and then sequence
  number, is injective, and never exceeds \<open>0xFFFFFF\<close>.
\<close>

theorem logical_counter_lex:
  "(logical_counter e s < logical_counter e' s' \<longleftrightarrow> e < e' \<or> (e = e' \<and> s < s'))
   \<and> (logical_counter e s = logical_counter e' s' \<longleftrightarrow> e = e' \<and> s = s')
   \<and> logical_counter e s \<le> 0xFFFFFF"
proof -
  have b: "unat e < 256" "unat s < 65536" "unat s' < 65536"
    using unat_bound [of e] unat_bound [of s] unat_bound [of s'] by simp_all
  have lt: "65536 * m + k < 65536 * m' + k' \<longleftrightarrow> m < m' \<or> m = m' \<and> k < k'"
    if "k < 65536" "k' < 65536" for m k m' k' :: nat
    by (cases m m' rule: linorder_cases) (use that in linarith)+
  have eq: "65536 * m + k = 65536 * m' + k' \<longleftrightarrow> m = m' \<and> k = k'"
    if "k < 65536" "k' < 65536" for m k m' k' :: nat
    by (cases m m' rule: linorder_cases) (use that in linarith)+
  show ?thesis
    using b
    by (simp add: word_less_nat_alt word_le_nat_alt word_unat_eq_iff unat_logical_counter eq lt)
qed

end
