(* ===== verification/Link_Frame.thy ===== *)
theory Link_Frame
  imports Serial_Numbers
begin

text \<open>
  The LICHEN link frame (\<open>lichen-link/src/frame.rs\<close>): addressing modes, the LLSec flags
  byte, the serialiser and the parser, and the transcript that the link signature covers
  (\<open>lichen-link/src/schnorr.rs\<close>). The Schnorr primitive itself lives in the external crate
  \<open>schnorr48\<close> and is the argument \<open>sign\<close> / \<open>verify\<close> of the definitions that call it.
\<close>

section \<open>Data\<close>

datatype addr_mode = AddrNone | AddrShort | AddrExtended | AddrElided

fun addr_mode_u8 :: "addr_mode \<Rightarrow> u8" where
  "addr_mode_u8 AddrNone = 0"
| "addr_mode_u8 AddrShort = 1"
| "addr_mode_u8 AddrExtended = 2"
| "addr_mode_u8 AddrElided = 3"

definition addr_mode_from_u8 :: "u8 \<Rightarrow> addr_mode option" where
  "addr_mode_from_u8 v =
     (if v = 0 then Some AddrNone
      else if v = 1 then Some AddrShort
      else if v = 2 then Some AddrExtended
      else if v = 3 then Some AddrElided
      else None)"

fun addr_len :: "addr_mode \<Rightarrow> nat" where
  "addr_len AddrNone = 0"
| "addr_len AddrElided = 0"
| "addr_len AddrShort = 2"
| "addr_len AddrExtended = 8"

definition from_addr_len :: "nat \<Rightarrow> addr_mode option" where
  "from_addr_len len =
     (if len = 0 then Some AddrNone
      else if len = 2 then Some AddrShort
      else if len = 8 then Some AddrExtended
      else None)"

datatype mic_length = Bits32 | Bits64

fun mic_length_u8 :: "mic_length \<Rightarrow> u8" where
  "mic_length_u8 Bits32 = 0"
| "mic_length_u8 Bits64 = 1"

definition mic_length_from_u8 :: "u8 \<Rightarrow> mic_length option" where
  "mic_length_from_u8 v = (if v = 0 then Some Bits32 else if v = 1 then Some Bits64 else None)"

datatype signature = SigAbsent | SigPresent

definition is_present :: "signature \<Rightarrow> bool" where
  "is_present s \<longleftrightarrow> s = SigPresent"

datatype encryption = Plaintext | Encrypted

definition is_encrypted :: "encryption \<Rightarrow> bool" where
  "is_encrypted e \<longleftrightarrow> e = Encrypted"

definition ADDR_MODE_MASK :: u8 where "ADDR_MODE_MASK = 3"
definition MIC_LEN_SHIFT :: nat where "MIC_LEN_SHIFT = 2"
definition MIC_LEN_MASK :: u8 where "MIC_LEN_MASK = 7"
definition SIGNATURE_BIT :: u8 where "SIGNATURE_BIT = push_bit 5 1"
definition ENCRYPTED_BIT :: u8 where "ENCRYPTED_BIT = push_bit 6 1"
definition SIGNER_EUI64_BIT :: u8 where "SIGNER_EUI64_BIT = push_bit 7 1"
definition MAX_FRAME_LEN :: nat where "MAX_FRAME_LEN = 255"
definition MAX_FRAME_BODY :: nat where "MAX_FRAME_BODY = MAX_FRAME_LEN - 1"

lemmas frame_consts = ADDR_MODE_MASK_def MIC_LEN_SHIFT_def MIC_LEN_MASK_def SIGNATURE_BIT_def
  ENCRYPTED_BIT_def SIGNER_EUI64_BIT_def MAX_FRAME_LEN_def MAX_FRAME_BODY_def

datatype frame_error =
    FEmpty
  | FTooShort too_short
  | FBufferTooSmall buffer_too_small
  | FReservedBitSet
  | FReservedMicLength u8
  | FAddrLenMismatch
  | FMicLenMismatch
  | FSignatureMicMismatch
  | FSignatureSignerMismatch
  | FEncryptedUnsupported
  | FTrailingBytes
  | FFrameTooLarge

record lichen_frame =
  f_epoch :: u8
  f_seqnum :: link_seqnum
  f_dst_addr :: bytes
  f_signer_eui64 :: bytes
  f_payload :: bytes
  f_mic :: bytes
  f_addr_mode :: addr_mode
  f_mic_length :: mic_length
  f_signature :: signature
  f_encryption :: encryption

section \<open>Serialiser and parser\<close>

definition llsec_byte :: "lichen_frame \<Rightarrow> u8" where
  "llsec_byte f =
     (let v = addr_mode_u8 (f_addr_mode f) AND ADDR_MODE_MASK;
          v = v OR push_bit MIC_LEN_SHIFT (mic_length_u8 (f_mic_length f) AND MIC_LEN_MASK);
          v = (if is_present (f_signature f) then (v OR SIGNATURE_BIT) OR SIGNER_EUI64_BIT else v)
      in if is_encrypted (f_encryption f) then v OR ENCRYPTED_BIT else v)"

definition frame_write_to :: "lichen_frame \<Rightarrow> bytes \<Rightarrow> frame_error + (bytes \<times> nat)" where
  "frame_write_to f buf =
     (if is_encrypted (f_encryption f) then Inl FEncryptedUnsupported
      else if addr_len (f_addr_mode f) \<noteq> length (f_dst_addr f) then Inl FAddrLenMismatch
      else let expected_mic_len = (if is_present (f_signature f) then 48 else 0) in
      if length (f_mic f) \<noteq> expected_mic_len then
        Inl (if is_present (f_signature f) then FSignatureMicMismatch else FMicLenMismatch)
      else let signer_len_ok =
        (if is_present (f_signature f) then length (f_signer_eui64 f) = 8
         else f_signer_eui64 f = []) in
      if \<not> signer_len_ok then Inl FSignatureSignerMismatch
      else let body_len = 4 + length (f_dst_addr f) + length (f_signer_eui64 f)
                            + length (f_payload f) + length (f_mic f) in
      if body_len > MAX_FRAME_BODY then Inl FFrameTooLarge
      else let total = 1 + body_len in
      if length buf < total then Inl (FBufferTooSmall (mk_buffer_too_small total (length buf)))
      else
        let buf = buf[0 := of_nat body_len];
            buf = buf[1 := llsec_byte f];
            buf = buf[2 := f_epoch f];
            seqnum_bytes = be_bytes 2 (f_seqnum f);
            buf = buf[3 := seqnum_bytes ! 0];
            buf = buf[4 := seqnum_bytes ! 1];
            off = 5;
            buf = splice buf off (f_dst_addr f);
            off = off + length (f_dst_addr f);
            buf = splice buf off (f_signer_eui64 f);
            off = off + length (f_signer_eui64 f);
            buf = splice buf off (f_payload f);
            off = off + length (f_payload f);
            buf = splice buf off (f_mic f);
            off = off + length (f_mic f)
        in Inr (buf, off))"

definition addr_mode_of_llsec :: "u8 \<Rightarrow> addr_mode" where
  "addr_mode_of_llsec llsec =
     (let m = llsec AND ADDR_MODE_MASK in
      if m = 0 then AddrNone else if m = 1 then AddrShort
      else if m = 2 then AddrExtended else AddrElided)"

definition frame_from_body :: "bytes \<Rightarrow> frame_error + lichen_frame" where
  "frame_from_body body =
     (let llsec = body ! 0 in
      if llsec AND ENCRYPTED_BIT \<noteq> 0 then Inl FEncryptedUnsupported
      else let addr_mode = addr_mode_of_llsec llsec;
               mic_field = drop_bit MIC_LEN_SHIFT llsec AND MIC_LEN_MASK in
      case mic_length_from_u8 mic_field of
        None \<Rightarrow> Inl (FReservedMicLength mic_field)
      | Some mic_length \<Rightarrow>
          let epoch = body ! 1;
              seqnum = of_be [body ! 2, body ! 3];
              addr_len = addr_len addr_mode;
              signature = (llsec AND SIGNATURE_BIT \<noteq> 0);
              signer_present = (llsec AND SIGNER_EUI64_BIT \<noteq> 0) in
          if signature \<noteq> signer_present then Inl FSignatureSignerMismatch
          else let signer_len = (if signer_present then 8 else 0);
                   mic_len = (if signature then 48 else 0);
                   min_body = 4 + addr_len + signer_len + mic_len in
          if length body < min_body then Inl (FTooShort (mk_too_short min_body (length body)))
          else let payload_end = length body - mic_len;
                   signer_start = 4 + addr_len in
            Inr \<lparr> f_epoch = epoch, f_seqnum = seqnum,
                  f_dst_addr = slice 4 (4 + addr_len) body,
                  f_signer_eui64 = slice signer_start (signer_start + signer_len) body,
                  f_payload = slice (signer_start + signer_len) payload_end body,
                  f_mic = drop payload_end body,
                  f_addr_mode = addr_mode, f_mic_length = mic_length,
                  f_signature = (if signature then SigPresent else SigAbsent),
                  f_encryption = Plaintext \<rparr>)"

definition frame_from_bytes :: "bytes \<Rightarrow> frame_error + lichen_frame" where
  "frame_from_bytes data =
     (if data = [] then Inl FEmpty
      else if length data > MAX_FRAME_LEN then Inl FFrameTooLarge
      else let len = unat (data ! 0) in
      if len > MAX_FRAME_BODY then Inl FFrameTooLarge
      else let expected_total = 1 + len in
      if length data > expected_total then Inl FTrailingBytes
      else if length data < expected_total then
        Inl (FTooShort (mk_too_short expected_total (length data)))
      else if len < 4 then Inl (FTooShort (mk_too_short 4 len))
      else frame_from_body (slice 1 expected_total data))"

section \<open>Signature transcript (lichen-link/src/schnorr.rs)\<close>

definition SIGNATURE_LENGTH :: nat where "SIGNATURE_LENGTH = 48"

text \<open>The ASCII bytes of \<open>LICHEN-LINK-v1\<close> and a terminating NUL.\<close>

definition LINK_SIGNATURE_DOMAIN :: bytes where
  "LINK_SIGNATURE_DOMAIN = [76, 73, 67, 72, 69, 78, 45, 76, 73, 78, 75, 45, 118, 49, 0]"

definition LLSEC_SI_BIT :: u8 where "LLSEC_SI_BIT = push_bit 7 1"

text \<open>
  The length byte is \<open>u8::try_from(len).expect(..)\<close>; both callers refuse destinations longer
  than 255 bytes before they get here, so the conversion never truncates.
\<close>

definition build_signable ::
  "u8 \<Rightarrow> u8 \<Rightarrow> u8 \<Rightarrow> link_seqnum \<Rightarrow> bytes \<Rightarrow> bytes \<Rightarrow> bytes \<Rightarrow> bytes" where
  "build_signable len llsec epoch seqnum dst_addr signer_eui64 inner_payload =
     (let signer_eui64_len = (if llsec AND LLSEC_SI_BIT \<noteq> 0 then 8 else 0 :: nat);
          buf = LINK_SIGNATURE_DOMAIN;
          buf = buf @ [len];
          buf = buf @ [llsec];
          buf = buf @ [epoch];
          buf = buf @ be_bytes 2 seqnum;
          buf = buf @ [of_nat (length dst_addr)];
          buf = buf @ dst_addr;
          buf = (if signer_eui64_len > 0 then buf @ signer_eui64 else buf)
      in buf @ inner_payload)"

type_synonym sign_fn = "bytes \<Rightarrow> bytes \<Rightarrow> bytes \<Rightarrow> bytes"
type_synonym verify_fn = "bytes \<Rightarrow> bytes \<Rightarrow> bytes \<Rightarrow> bool"

text \<open>\<open>None\<close> is a failed \<open>assert!\<close>.\<close>

definition sign_frame ::
  "sign_fn \<Rightarrow> u8 \<Rightarrow> u8 \<Rightarrow> u8 \<Rightarrow> link_seqnum \<Rightarrow> bytes \<Rightarrow> bytes \<Rightarrow> bytes \<Rightarrow> bytes \<Rightarrow> bytes \<Rightarrow>
   bytes option" where
  "sign_frame sign len llsec epoch seqnum dst_addr signer_eui64 inner_payload privkey pubkey =
     (if \<not> length dst_addr \<le> 255 then None
      else if \<not> (llsec AND LLSEC_SI_BIT = 0 \<or> length signer_eui64 = 8) then None
      else Some (sign privkey pubkey
             (build_signable len llsec epoch seqnum dst_addr signer_eui64 inner_payload)))"

definition verify_frame ::
  "verify_fn \<Rightarrow> u8 \<Rightarrow> u8 \<Rightarrow> u8 \<Rightarrow> link_seqnum \<Rightarrow> bytes \<Rightarrow> bytes \<Rightarrow> bytes \<Rightarrow> bytes \<Rightarrow> bytes \<Rightarrow>
   bool" where
  "verify_frame verify len llsec epoch seqnum dst_addr signer_eui64 payload signature
       sender_pubkey =
     (if length signature \<noteq> SIGNATURE_LENGTH \<or> length dst_addr > 255 \<or>
         (llsec AND LLSEC_SI_BIT \<noteq> 0 \<and> length signer_eui64 \<noteq> 8)
      then False
      else verify sender_pubkey
             (build_signable len llsec epoch seqnum dst_addr signer_eui64 payload) signature)"

definition verify_profile_message :: "verify_fn \<Rightarrow> bytes \<Rightarrow> bytes \<Rightarrow> bytes \<Rightarrow> bool" where
  "verify_profile_message verify public_key message signature =
     (if length signature \<noteq> SIGNATURE_LENGTH then False else verify public_key message signature)"

section \<open>Specification of the wire format\<close>

definition frame_valid :: "lichen_frame \<Rightarrow> bool" where
  "frame_valid f \<longleftrightarrow>
     f_encryption f = Plaintext \<and>
     length (f_dst_addr f) = addr_len (f_addr_mode f) \<and>
     length (f_mic f) = (if f_signature f = SigPresent then 48 else 0) \<and>
     length (f_signer_eui64 f) = (if f_signature f = SigPresent then 8 else 0) \<and>
     4 + length (f_dst_addr f) + length (f_signer_eui64 f) + length (f_payload f)
       + length (f_mic f) \<le> 254"

definition frame_body :: "lichen_frame \<Rightarrow> bytes" where
  "frame_body f = [llsec_byte f, f_epoch f] @ be_bytes 2 (f_seqnum f) @ f_dst_addr f
     @ f_signer_eui64 f @ f_payload f @ f_mic f"

definition frame_wire :: "lichen_frame \<Rightarrow> bytes" where
  "frame_wire f = of_nat (length (frame_body f)) # frame_body f"

definition llsec_of :: "addr_mode \<Rightarrow> mic_length \<Rightarrow> bool \<Rightarrow> u8" where
  "llsec_of am ml sig = addr_mode_u8 am OR push_bit 2 (mic_length_u8 ml) OR (if sig then 0xA0 else 0)"

section \<open>The serialiser and the parser meet the specification\<close>

lemma llsec_byte_fields:
  assumes "f_encryption f = Plaintext"
  shows "llsec_byte f AND ENCRYPTED_BIT = 0"
    and "addr_mode_of_llsec (llsec_byte f) = f_addr_mode f"
    and "mic_length_from_u8 (drop_bit MIC_LEN_SHIFT (llsec_byte f) AND MIC_LEN_MASK)
           = Some (f_mic_length f)"
    and "llsec_byte f AND SIGNATURE_BIT \<noteq> 0 \<longleftrightarrow> f_signature f = SigPresent"
    and "llsec_byte f AND SIGNER_EUI64_BIT \<noteq> 0 \<longleftrightarrow> f_signature f = SigPresent"
  by (cases "f_addr_mode f"; cases "f_mic_length f"; cases "f_signature f";
      simp add: assms llsec_byte_def is_present_def is_encrypted_def addr_mode_of_llsec_def
        mic_length_from_u8_def frame_consts)+

lemma frame_body_slices:
  assumes "frame_valid f"
  defines "n \<equiv> addr_len (f_addr_mode f)"
    and "s \<equiv> if f_signature f = SigPresent then 8 else 0"
    and "m \<equiv> if f_signature f = SigPresent then 48 else 0"
  shows "slice 4 (4 + n) (frame_body f) = f_dst_addr f"
    and "slice (4 + n) (4 + n + s) (frame_body f) = f_signer_eui64 f"
    and "slice (4 + n + s) (4 + n + s + length (f_payload f)) (frame_body f) = f_payload f"
    and "drop (4 + n + s + length (f_payload f)) (frame_body f) = f_mic f"
    and "length (frame_body f) = 4 + n + s + length (f_payload f) + m"
proof -
  define hdr where "hdr = [llsec_byte f, f_epoch f] @ be_bytes 2 (f_seqnum f)"
  have l: "length (f_dst_addr f) = n" "length (f_signer_eui64 f) = s" "length (f_mic f) = m"
    "length hdr = 4"
    using assms by (simp_all add: frame_valid_def hdr_def)
  have b: "frame_body f = hdr @ f_dst_addr f @ f_signer_eui64 f @ f_payload f @ f_mic f"
    by (simp add: frame_body_def hdr_def)
  show "slice 4 (4 + n) (frame_body f) = f_dst_addr f"
    unfolding b by (rule slice_mid) (simp_all add: l)
  show "slice (4 + n) (4 + n + s) (frame_body f) = f_signer_eui64 f"
    using slice_mid [of "4 + n" "hdr @ f_dst_addr f" "4 + n + s" "f_signer_eui64 f"] by (simp add: b l)
  show "slice (4 + n + s) (4 + n + s + length (f_payload f)) (frame_body f) = f_payload f"
    using slice_mid [of "4 + n + s" "hdr @ f_dst_addr f @ f_signer_eui64 f"] by (simp add: b l)
  show "drop (4 + n + s + length (f_payload f)) (frame_body f) = f_mic f"
    and "length (frame_body f) = 4 + n + s + length (f_payload f) + m"
    by (simp_all add: b l)
qed

lemma frame_from_body_wire:
  assumes "frame_valid f"
  shows "frame_from_body (frame_body f) = Inr f"
proof -
  have enc: "f_encryption f = Plaintext" using assms by (simp add: frame_valid_def)
  obtain a b where ab: "be_bytes 2 (f_seqnum f) = [a, b]"
    using be_bytes_2 by blast
  then have seq: "of_be [a, b] = f_seqnum f"
    using of_be_be_bytes [of 2 "f_seqnum f"] by simp
  have nth: "frame_body f ! 0 = llsec_byte f" "frame_body f ! 1 = f_epoch f"
    "frame_body f ! 2 = a" "frame_body f ! 3 = b"
    by (simp_all add: frame_body_def ab)
  show ?thesis
    unfolding frame_from_body_def Let_def nth llsec_byte_fields [OF enc] option.case seq
    using frame_body_slices [OF assms] enc
    by (cases "f_signature f") (simp_all add: add.assoc)
qed

lemma llsec_of_parts:
  "b AND ENCRYPTED_BIT = 0 \<longrightarrow>
   (b AND SIGNATURE_BIT \<noteq> 0) = (b AND SIGNER_EUI64_BIT \<noteq> 0) \<longrightarrow>
   (case mic_length_from_u8 (drop_bit MIC_LEN_SHIFT b AND MIC_LEN_MASK) of None \<Rightarrow> True
    | Some ml \<Rightarrow> llsec_of (addr_mode_of_llsec b) ml (b AND SIGNATURE_BIT \<noteq> 0) = b)"
  by (rule all_u8) code_simp

lemma llsec_byte_eq_llsec_of:
  "f_encryption f = Plaintext \<Longrightarrow>
   llsec_byte f = llsec_of (f_addr_mode f) (f_mic_length f) (f_signature f = SigPresent)"
  by (cases "f_addr_mode f"; cases "f_mic_length f"; cases "f_signature f")
    (simp_all add: llsec_of_def llsec_byte_def is_present_def is_encrypted_def frame_consts)

lemma frame_write_to_eq:
  "frame_write_to f buf =
    (if is_encrypted (f_encryption f) then Inl FEncryptedUnsupported
     else if addr_len (f_addr_mode f) \<noteq> length (f_dst_addr f) then Inl FAddrLenMismatch
     else if length (f_mic f) \<noteq> (if is_present (f_signature f) then 48 else 0)
       then Inl (if is_present (f_signature f) then FSignatureMicMismatch else FMicLenMismatch)
     else if length (f_signer_eui64 f) \<noteq> (if is_present (f_signature f) then 8 else 0)
       then Inl FSignatureSignerMismatch
     else if length (frame_body f) > 254 then Inl FFrameTooLarge
     else if length buf < length (frame_wire f)
       then Inl (FBufferTooSmall (mk_buffer_too_small (length (frame_wire f)) (length buf)))
     else Inr (splice buf 0 (frame_wire f), length (frame_wire f)))"
proof -
  obtain a b where ab: "be_bytes 2 (f_seqnum f) = [a, b]"
    using be_bytes_2 by blast
  have len: "length (frame_body f) = 4 + length (f_dst_addr f) + length (f_signer_eui64 f)
      + length (f_payload f) + length (f_mic f)"
    by (simp add: frame_body_def)
  have len1: "length (frame_wire f) = 1 + length (frame_body f)"
    by (simp add: frame_wire_def)
  have five: "buf[0 := x0, 1 := x1, 2 := x2, 3 := a, 4 := b] = splice buf 0 [x0, x1, x2, a, b]"
    if "5 \<le> length buf" for x0 x1 x2
    using that by (subst update_0_splice) (auto simp: update_splice)
  have "splice (splice (splice (splice (buf[0 := word_of_nat (length (frame_body f)),
      1 := llsec_byte f, 2 := f_epoch f, 3 := a, 4 := b]) 5 (f_dst_addr f))
      (5 + length (f_dst_addr f)) (f_signer_eui64 f))
      (5 + length (f_dst_addr f) + length (f_signer_eui64 f)) (f_payload f))
      (5 + length (f_dst_addr f) + length (f_signer_eui64 f) + length (f_payload f)) (f_mic f)
    = splice buf 0 (frame_wire f)" if "length (frame_wire f) \<le> length buf"
    using that len len1 five by (simp add: splice_splice frame_wire_def frame_body_def ab)
  then show ?thesis
    unfolding frame_write_to_def Let_def len [symmetric] len1 [symmetric] ab
    by (auto simp: frame_consts len len1)
qed

lemma frame_valid_body_len: "frame_valid f \<Longrightarrow> 4 \<le> length (frame_body f) \<and> length (frame_body f) \<le> 254"
  by (auto simp: frame_valid_def frame_body_def)

lemma frame_from_bytes_wire: "frame_valid f \<Longrightarrow> frame_from_bytes (frame_wire f) = Inr f"
  using frame_valid_body_len [of f] frame_from_body_wire [of f]
  by (auto simp: frame_from_bytes_def frame_wire_def frame_consts Let_def unat_of_nat_small slice_def)

lemma frame_write_to_Inr_iff:
  "frame_write_to f buf = Inr r \<longleftrightarrow>
     frame_valid f \<and> length (frame_wire f) \<le> length buf
     \<and> r = (splice buf 0 (frame_wire f), length (frame_wire f))"
  by (cases "f_encryption f"; cases "f_signature f")
    (auto simp: frame_write_to_eq frame_valid_def is_present_def is_encrypted_def frame_body_def)

interpretation link_frame_codec: wire_codec frame_write_to frame_from_bytes frame_wire frame_valid
proof
  fix f :: lichen_frame and buf :: bytes
  assume v: "frame_valid f"
  show "length (frame_wire f) \<le> length buf \<Longrightarrow>
      frame_write_to f buf = Inr (splice buf 0 (frame_wire f), length (frame_wire f))"
    using v by (simp add: frame_write_to_Inr_iff)
  show "length buf < length (frame_wire f) \<Longrightarrow> \<exists>e. frame_write_to f buf = Inl e"
    using frame_write_to_Inr_iff [of f buf] by (cases "frame_write_to f buf") auto
  show "frame_from_bytes (frame_wire f) = Inr f"
    using v by (rule frame_from_bytes_wire)
qed

lemma frame_from_body_InrD:
  assumes "frame_from_body body = Inr f" and "4 \<le> length body" and "length body \<le> 254"
  shows "frame_valid f \<and> frame_body f = body"
proof -
  define b where "b = body ! 0"
  define n where "n = addr_len (addr_mode_of_llsec b)"
  define sg where "sg = (b AND SIGNATURE_BIT \<noteq> 0)"
  define s where "s = (if sg then 8 else 0 :: nat)"
  define m where "m = (if sg then 48 else 0 :: nat)"
  obtain ml where enc: "b AND ENCRYPTED_BIT = 0"
    and ml: "mic_length_from_u8 (drop_bit MIC_LEN_SHIFT b AND MIC_LEN_MASK) = Some ml"
    and si: "sg = (b AND SIGNER_EUI64_BIT \<noteq> 0)"
    and len: "4 + n + s + m \<le> length body"
    and f: "f = \<lparr> f_epoch = body ! 1, f_seqnum = of_be [body ! 2, body ! 3],
      f_dst_addr = slice 4 (4 + n) body, f_signer_eui64 = slice (4 + n) (4 + n + s) body,
      f_payload = slice (4 + n + s) (length body - m) body, f_mic = drop (length body - m) body,
      f_addr_mode = addr_mode_of_llsec b, f_mic_length = ml,
      f_signature = (if sg then SigPresent else SigAbsent), f_encryption = Plaintext \<rparr>"
    using assms(1) by (auto simp: frame_from_body_def Let_def b_def n_def sg_def s_def m_def
      split: option.splits if_splits)
  have "llsec_byte f = b"
    using llsec_of_parts [of b] enc ml si by (auto simp: llsec_byte_eq_llsec_of f sg_def)
  moreover have "be_bytes 2 (f_seqnum f) = [body ! 2, body ! 3]"
    by (simp add: f)
  moreover have "body = [body ! 0, body ! 1] @ [body ! 2, body ! 3] @ drop 4 body"
    using assms(2) by (auto simp: numeral_eq_Suc Suc_le_length_iff)
  moreover have "drop 4 body = f_dst_addr f @ f_signer_eui64 f @ f_payload f @ f_mic f"
    using len by (simp add: f slice_join slice_drop_join flip: append_assoc)
  ultimately have "frame_body f = body"
    by (simp add: frame_body_def b_def f)
  moreover have "frame_valid f"
    using len assms(3) by (simp add: frame_valid_def f n_def s_def m_def)
  ultimately show ?thesis by simp
qed

lemma frame_from_bytes_InrD:
  assumes "frame_from_bytes data = Inr f"
  shows "frame_valid f \<and> frame_wire f = data"
proof -
  define len where "len = unat (data ! 0)"
  have ne: "data \<noteq> []" and len: "length data = 1 + len" "4 \<le> len" "len \<le> 254"
    and body: "frame_from_body (slice 1 (1 + len) data) = Inr f"
    using assms by (auto simp: frame_from_bytes_def frame_consts Let_def len_def split: if_splits)
  have tl: "slice 1 (1 + len) data = tl data"
    using len by (simp add: slice_def drop_Suc)
  have *: "frame_valid f \<and> frame_body f = tl data"
    using frame_from_body_InrD [OF body [unfolded tl]] len by simp
  have "word_of_nat (length (tl data)) = data ! 0"
    using len by (simp add: len_def)
  with * ne show ?thesis
    by (simp add: frame_wire_def hd_conv_nth [symmetric])
qed

text \<open>
  C7. The parser accepts exactly the canonical encodings of well-formed frames: parsing \<open>data\<close>
  yields \<open>f\<close> if and only if \<open>f\<close> is well formed (address, signer and MIC lengths agree with
  the flags, body at most 254 bytes) and \<open>data\<close> is its one encoding.
\<close>

theorem frame_from_bytes_iff:
  "frame_from_bytes data = Inr f \<longleftrightarrow> frame_valid f \<and> data = frame_wire f"
  using frame_from_bytes_InrD frame_from_bytes_wire by blast

text \<open>
  C8. Whatever the serialiser writes parses back to the same frame, occupies at most 255
  bytes, and leaves the rest of the caller's buffer untouched.
\<close>

theorem frame_write_read:
  assumes "frame_write_to f buf = Inr (buf', n)"
  shows "frame_from_bytes (take n buf') = Inr f \<and> n \<le> MAX_FRAME_LEN
    \<and> length buf' = length buf \<and> drop n buf' = drop n buf"
proof -
  have v: "frame_valid f" and n: "n = length (frame_wire f)"
    using assms by (simp_all add: frame_write_to_Inr_iff)
  have "n \<le> MAX_FRAME_LEN"
    using frame_valid_body_len [OF v] by (simp add: n frame_wire_def frame_consts)
  then show ?thesis
    using link_frame_codec.dec_enc [OF v assms] link_frame_codec.enc_keeps_tail [OF v assms] by simp
qed

definition sample_frame :: lichen_frame where
  "sample_frame = \<lparr> f_epoch = 16, f_seqnum = 0x2030, f_dst_addr = [0xab, 0xcd],
     f_signer_eui64 = [], f_payload = [0x68, 0x69], f_mic = [], f_addr_mode = AddrShort,
     f_mic_length = Bits32, f_signature = SigAbsent, f_encryption = Plaintext \<rparr>"

theorem frame_write_read_witness:
  "frame_from_bytes [8, 1, 0x10, 0x20, 0x30, 0xab, 0xcd, 0x68, 0x69] = Inr sample_frame"
proof -
  have "frame_write_to sample_frame (replicate 9 0)
      = Inr ([8, 1, 0x10, 0x20, 0x30, 0xab, 0xcd, 0x68, 0x69], 9)"
    by code_simp
  from frame_write_read [OF this] show ?thesis by simp
qed

section \<open>The signed transcript\<close>

lemma LLSEC_SI_llsec: "f_encryption f = Plaintext \<Longrightarrow> llsec_byte f AND LLSEC_SI_BIT \<noteq> 0 \<longleftrightarrow> f_signature f = SigPresent"
  using llsec_byte_fields(5) [of f] by (simp add: LLSEC_SI_BIT_def SIGNER_EUI64_BIT_def)

lemma build_signable_eq:
  "build_signable len llsec epoch seqnum dst signer payload =
     LINK_SIGNATURE_DOMAIN @ [len, llsec, epoch] @ be_bytes 2 seqnum @ [of_nat (length dst)] @ dst
       @ (if llsec AND LLSEC_SI_BIT \<noteq> 0 then signer else []) @ payload"
  by (simp add: build_signable_def Let_def)

text \<open>
  C9. The signed transcript is unambiguous: two frames with the same transcript agree on the
  length, the flags, the epoch, the sequence number, the destination and the payload, and on
  the signer EUI-64 whenever the flags say that it is covered. A signature therefore cannot be
  moved between two different frames.
\<close>

theorem build_signable_inject:
  assumes "build_signable len llsec epoch seqnum dst signer payload
      = build_signable len' llsec' epoch' seqnum' dst' signer' payload'"
    and "length dst \<le> 255" "length dst' \<le> 255"
    and "length signer = 8" "length signer' = 8"
  shows "len = len' \<and> llsec = llsec' \<and> epoch = epoch' \<and> seqnum = seqnum' \<and> dst = dst'
    \<and> payload = payload' \<and> (llsec AND LLSEC_SI_BIT \<noteq> 0 \<longrightarrow> signer = signer')"
proof -
  obtain a b where ab: "be_bytes 2 seqnum = [a, b]" using be_bytes_2 by blast
  obtain a' b' where ab': "be_bytes 2 seqnum' = [a', b']" using be_bytes_2 by blast
  define w :: "nat \<Rightarrow> u8" where "w = word_of_nat"
  define t where "t = (if llsec AND LLSEC_SI_BIT \<noteq> 0 then signer else []) @ payload"
  define t' where "t' = (if llsec' AND LLSEC_SI_BIT \<noteq> 0 then signer' else []) @ payload'"
  have lw: "w (length dst) = w (length dst')" and tail: "dst @ t = dst' @ t'"
    and head: "len = len'" "llsec = llsec'" "epoch = epoch'" "a = a'" "b = b'"
    using assms(1) unfolding build_signable_eq ab ab' w_def [symmetric] t_def [symmetric]
      t'_def [symmetric] by simp_all
  have u: "unat (w n) = n" if "n \<le> 255" for n
    unfolding w_def by (rule unat_of_nat_small) (use that in simp)
  have ld: "length dst = length dst'"
    using arg_cong [OF lw, of unat] u [OF assms(2)] u [OF assms(3)] by argo
  have seq: "seqnum = seqnum'"
    using head ab ab' be_bytes_inject [of 2 seqnum seqnum'] by simp
  have "dst = dst'" and "t = t'"
    using tail ld by simp_all
  moreover have "payload = payload' \<and> (llsec AND LLSEC_SI_BIT \<noteq> 0 \<longrightarrow> signer = signer')"
    using \<open>t = t'\<close> assms(4,5) head(2) unfolding t_def t'_def
    by (cases "llsec AND LLSEC_SI_BIT = 0") simp_all
  ultimately show ?thesis
    using head seq by simp
qed

theorem build_signable_inject_witness:
  "build_signable 60 0x20 1 2 [] [1, 2, 3, 4, 5, 6, 7, 8] [7]
     = build_signable 60 0x20 1 2 [] [8, 7, 6, 5, 4, 3, 2, 1] [7] \<and> 0x20 AND LLSEC_SI_BIT = 0"
proof -
  have eq: "build_signable 60 0x20 1 2 [] [1, 2, 3, 4, 5, 6, 7, 8] [7]
      = build_signable 60 0x20 1 2 [] [8, 7, 6, 5, 4, 3, 2, 1] [7]"
    by code_simp
  then show ?thesis
    using build_signable_inject [OF eq] by auto
qed

end
