(* ===== verification/Replay_Window.thy ===== *)
theory Replay_Window
  imports Serial_Numbers "HOL-Library.Monad_Syntax"
begin

text \<open>
  Replay protection: the 32-slot window of \<open>lichen-link/src/replay.rs\<close> and the per-peer
  tracker \<open>ReplayProtector\<close> of \<open>lichen-link/src/link_layer.rs\<close>, with epochs and LRU
  eviction. Operations that contain an \<open>expect\<close> return an option, \<open>None\<close> being the panic.
\<close>

section \<open>lichen-link/src/replay.rs\<close>

datatype replay_window_state = RwEmpty | RwTracking

fun rw_can_transition_to :: "replay_window_state \<Rightarrow> replay_window_state \<Rightarrow> bool" where
  "rw_can_transition_to RwEmpty RwTracking = True"
| "rw_can_transition_to RwTracking RwTracking = True"
| "rw_can_transition_to _ _ = False"

record replay_window =
  last_seq :: link_seqnum
  window :: u32
  initialised :: bool
  rw_state :: replay_window_state

definition replay_window_new :: replay_window where
  "replay_window_new = \<lparr>last_seq = 0, window = 0, initialised = False, rw_state = RwEmpty\<rparr>"

definition persistent_parts :: "replay_window \<Rightarrow> (u16 \<times> u32) option" where
  "persistent_parts w = (if initialised w then Some (last_seq w, window w) else None)"

definition from_persistent_parts :: "u16 \<Rightarrow> u32 \<Rightarrow> replay_window option" where
  "from_persistent_parts s win =
     (if win = 0 \<or> win AND 1 = 0 then None
      else Some \<lparr>last_seq = s, window = win, initialised = True, rw_state = RwTracking\<rparr>)"

definition rw_transition_to ::
  "replay_window \<Rightarrow> replay_window_state \<Rightarrow>
   (replay_window_state \<times> replay_window_state) + replay_window" where
  "rw_transition_to w next =
     (if rw_can_transition_to (rw_state w) next then Inr (w\<lparr>rw_state := next\<rparr>)
      else Inl (rw_state w, next))"

text \<open>\<open>transition_to(Tracking).expect(..)\<close> followed by \<open>true\<close>.\<close>

definition rw_track :: "replay_window \<Rightarrow> (replay_window \<times> bool) option" where
  "rw_track w = (case rw_transition_to w RwTracking of Inl _ \<Rightarrow> None | Inr w' \<Rightarrow> Some (w', True))"

definition rw_accept :: "replay_window \<Rightarrow> link_seqnum \<Rightarrow> (replay_window \<times> bool) option" where
  "rw_accept w seq =
     (if \<not> initialised w then
        rw_track (w\<lparr>last_seq := seq, window := 1, initialised := True\<rparr>)
      else
        let diff = uint seq - uint (last_seq w) in
        if diff > 0 then
          let shift = nat diff in
          rw_track (w\<lparr>window := (if shift \<ge> 32 then 1 else push_bit shift (window w) OR 1),
                      last_seq := seq\<rparr>)
        else if diff = 0 then Some (w, False)
        else
          let offset = nat (- diff) in
          if offset \<ge> 32 then Some (w, False)
          else let b = push_bit offset 1 in
               if window w AND b \<noteq> 0 then Some (w, False)
               else rw_track (w\<lparr>window := window w OR b\<rparr>))"

section \<open>ReplayProtector (lichen-link/src/link_layer.rs)\<close>

record peer_replay_state =
  last_epoch :: u8
  prs_window :: replay_window
  prs_last_access :: u64

definition peer_replay_state_new :: "u8 \<Rightarrow> u64 \<Rightarrow> peer_replay_state" where
  "peer_replay_state_new epoch access =
     \<lparr>last_epoch = epoch, prs_window = replay_window_new, prs_last_access = access\<rparr>"

record replay_protector =
  rp_peers :: "(bytes, peer_replay_state) hmap"
  rp_access_counter :: u64
  rp_max_peers :: nat

definition replay_protector_new :: replay_protector where
  "replay_protector_new = \<lparr>rp_peers = [], rp_access_counter = 0, rp_max_peers = 64\<rparr>"

text \<open>The \<open>while\<close> loop of \<open>evict_if_needed\<close>: each turn removes the least recently used peer.\<close>

function rp_evict :: "nat \<Rightarrow> (bytes, peer_replay_state) hmap \<Rightarrow> (bytes, peer_replay_state) hmap" where
  "rp_evict max_peers peers =
     (if length peers > max_peers then
        (case min_by_key (\<lambda>(_, e). prs_last_access e) peers of
           Some (k, _) \<Rightarrow> rp_evict max_peers (hm_remove k peers)
         | None \<Rightarrow> peers)
      else peers)"
  by pat_completeness auto

termination rp_evict
  by (relation "measure (\<lambda>(_, m). length m)") (auto dest!: min_by_key_mem hm_remove_shorter)

declare rp_evict.simps [simp del]

definition check_and_update ::
  "replay_protector \<Rightarrow> bytes \<Rightarrow> u8 \<Rightarrow> link_seqnum \<Rightarrow> (replay_protector \<times> bool) option" where
  "check_and_update rp pubkey epoch seqnum =
     (let access = sat_add (rp_access_counter rp) 1;
          rp = rp\<lparr>rp_access_counter := access\<rparr> in
      case hm_get (rp_peers rp) pubkey of
        None \<Rightarrow>
          (let state = peer_replay_state_new epoch access in
           do { (w, accepted) \<leftarrow> rw_accept (prs_window state) seqnum;
                let peers = hm_insert pubkey (state\<lparr>prs_window := w\<rparr>) (rp_peers rp);
                Some (rp\<lparr>rp_peers := rp_evict (rp_max_peers rp) peers\<rparr>, accepted) })
      | Some state \<Rightarrow>
          (let state = state\<lparr>prs_last_access := access\<rparr> in
           if epoch > last_epoch state then
             do { (w, accepted) \<leftarrow> rw_accept replay_window_new seqnum;
                  Some (rp\<lparr>rp_peers := hm_insert pubkey
                     (state\<lparr>last_epoch := epoch, prs_window := w\<rparr>) (rp_peers rp)\<rparr>, accepted) }
           else if epoch < last_epoch state then
             Some (rp\<lparr>rp_peers := hm_insert pubkey state (rp_peers rp)\<rparr>, False)
           else
             do { (w, accepted) \<leftarrow> rw_accept (prs_window state) seqnum;
                  Some (rp\<lparr>rp_peers := hm_insert pubkey (state\<lparr>prs_window := w\<rparr>) (rp_peers rp)\<rparr>,
                        accepted) }))"

definition reset_peer :: "bytes \<Rightarrow> replay_protector \<Rightarrow> replay_protector" where
  "reset_peer pubkey rp = rp\<lparr>rp_peers := hm_remove pubkey (rp_peers rp)\<rparr>"

section \<open>What the window blocks\<close>

text \<open>
  \<open>rw_blocks w s\<close>: the window refuses \<open>s\<close>, because it was accepted before or lies 32 or more
  slots behind the highest accepted number. \<open>rw_wf\<close> is the invariant of the bit mask.
\<close>

definition rw_wf :: "replay_window \<Rightarrow> bool" where
  "rw_wf w \<longleftrightarrow> (initialised w \<longrightarrow> bit (window w) 0 \<and> rw_state w = RwTracking)"

definition rw_blocks :: "replay_window \<Rightarrow> link_seqnum \<Rightarrow> bool" where
  "rw_blocks w s \<longleftrightarrow> initialised w \<and> s \<le> last_seq w \<and>
     (unat (last_seq w) - unat s < 32 \<longrightarrow> bit (window w) (unat (last_seq w) - unat s))"

lemma rw_track_Some: "rw_track w = Some (w\<lparr>rw_state := RwTracking\<rparr>, True)"
  by (cases "rw_state w") (simp_all add: rw_track_def rw_transition_to_def)

lemma uint_diff_unat:
  "nat (uint a - uint b) = unat a - unat (b :: u16)"
  using nat_diff_distrib' [of "uint a" "uint b"] by (simp add: nat_uint_eq)

lemma rw_accept_eq:
  "rw_accept w s =
    (if \<not> initialised w then
       Some (\<lparr>last_seq = s, window = 1, initialised = True, rw_state = RwTracking\<rparr>, True)
     else if last_seq w < s then
       Some (\<lparr>last_seq = s,
              window = (if unat s - unat (last_seq w) \<ge> 32 then 1
                        else push_bit (unat s - unat (last_seq w)) (window w) OR 1),
              initialised = True, rw_state = RwTracking\<rparr>, True)
     else if s = last_seq w \<or> unat (last_seq w) - unat s \<ge> 32
       \<or> bit (window w) (unat (last_seq w) - unat s) then Some (w, False)
     else Some (w\<lparr>window := window w OR push_bit (unat (last_seq w) - unat s) 1,
                  rw_state := RwTracking\<rparr>, True))"
proof (cases "initialised w")
  case True
  show ?thesis
  proof (cases s "last_seq w" rule: linorder_cases)
    case less
    then have d: "\<not> uint s - uint (last_seq w) > 0" "uint s - uint (last_seq w) \<noteq> 0"
      "nat (- (uint s - uint (last_seq w))) = unat (last_seq w) - unat s"
      using uint_diff_unat [of "last_seq w" s] by (simp_all add: word_less_def)
    show ?thesis
      unfolding rw_accept_def Let_def d and_push_bit_1 using True less d(1,2)
      by (simp add: rw_track_Some less_imp_neq not_less_iff_gr_or_eq)
  next
    case equal
    then show ?thesis using True by (simp add: rw_accept_def)
  next
    case greater
    then have "uint s - uint (last_seq w) > 0" by (simp add: word_less_def)
    then show ?thesis
      unfolding rw_accept_def Let_def uint_diff_unat using True greater
      by (cases w) (simp add: rw_track_Some)
  qed
qed (cases w, simp add: rw_accept_def rw_track_Some)

lemma rw_accept_total: "rw_wf w \<Longrightarrow> \<exists>w'. rw_accept w s = Some (w', \<not> rw_blocks w s)"
  by (auto simp: rw_accept_eq rw_blocks_def rw_wf_def not_less not_le)

lemma rw_wf_new [simp]: "rw_wf replay_window_new"
  by (simp add: rw_wf_def replay_window_new_def)

lemma rw_blocks_new [simp]: "\<not> rw_blocks replay_window_new s"
  by (simp add: rw_blocks_def replay_window_new_def)

lemma rw_accept_wf: "rw_wf w \<Longrightarrow> rw_accept w s = Some (w', ok) \<Longrightarrow> rw_wf w'"
  by (auto simp: rw_accept_eq rw_wf_def bit_simps split: if_splits)

lemma rw_accept_blocks_iff:
  assumes "rw_wf w" and "rw_accept w s = Some (w', ok)"
  shows "rw_blocks w' t \<longleftrightarrow> rw_blocks w t \<or> t = s \<or> (ok \<and> unat t + 32 \<le> unat s)"
proof (cases "initialised w")
  case False
  then have "ok" "w' = \<lparr>last_seq = s, window = 1, initialised = True, rw_state = RwTracking\<rparr>"
    using assms(2) by (simp_all add: rw_accept_eq)
  with False show ?thesis
    by (auto simp: rw_blocks_def bit_one_word_iff word_le_nat_alt word_unat_eq_iff)
next
  case True
  let ?d = "unat (last_seq w) - unat s"
  have b0: "bit (window w) 0" using assms(1) True by (simp add: rw_wf_def)
  consider (advance) "last_seq w < s"
    | (reject) "\<not> last_seq w < s" "s = last_seq w \<or> ?d \<ge> 32 \<or> bit (window w) ?d"
    | (fill) "\<not> last_seq w < s" "s \<noteq> last_seq w" "?d < 32" "\<not> bit (window w) ?d"
    by (metis not_le)
  then show ?thesis
  proof cases
    case advance
    then have "ok" and w': "w' = \<lparr>last_seq = s,
        window = (if unat s - unat (last_seq w) \<ge> 32 then 1
                  else push_bit (unat s - unat (last_seq w)) (window w) OR 1),
        initialised = True, rw_state = RwTracking\<rparr>"
      using assms(2) True by (simp_all add: rw_accept_eq)
    show ?thesis
      using advance True b0 \<open>ok\<close> unfolding w'
      by (auto simp: rw_blocks_def bit_simps word_le_nat_alt word_less_nat_alt word_unat_eq_iff
        bit_one_word_iff)
  next
    case reject
    then have "\<not> ok" "w' = w"
      using assms(2) True by (simp_all add: rw_accept_eq)
    moreover have "rw_blocks w s"
      using reject b0 True by (auto simp: rw_blocks_def)
    ultimately show ?thesis by auto
  next
    case fill
    then have "ok" and w': "w' = w\<lparr>window := window w OR push_bit ?d 1, rw_state := RwTracking\<rparr>"
      using assms(2) True by (simp_all add: rw_accept_eq)
    show ?thesis
      using fill True unfolding w'
      by (auto simp: rw_blocks_def bit_simps word_le_nat_alt word_less_nat_alt word_unat_eq_iff)
  qed
qed

section \<open>Refinement of the history specification\<close>

text \<open>
  The abstract receiver remembers every number it accepted; the concrete one has 33 words.
\<close>

definition seq_fresh :: "link_seqnum list \<Rightarrow> link_seqnum \<Rightarrow> bool" where
  "seq_fresh hist s \<longleftrightarrow> s \<notin> set hist \<and> list_all (\<lambda>h. unat h < unat s + 32) hist"

primrec spec_accepts :: "link_seqnum list \<Rightarrow> link_seqnum list \<Rightarrow> bool list" where
  "spec_accepts hist [] = []"
| "spec_accepts hist (s # ss) =
     (if seq_fresh hist s then True # spec_accepts (s # hist) ss
      else False # spec_accepts hist ss)"

primrec rw_run :: "replay_window \<Rightarrow> link_seqnum list \<Rightarrow> bool list option" where
  "rw_run w [] = Some []"
| "rw_run w (s # ss) =
     do { (w', ok) \<leftarrow> rw_accept w s; oks \<leftarrow> rw_run w' ss; Some (ok # oks) }"

lemma rw_run_spec:
  assumes "rw_wf w" and "\<And>s. rw_blocks w s \<longleftrightarrow> \<not> seq_fresh hist s"
  shows "rw_run w ss = Some (spec_accepts hist ss)"
  using assms
proof (induction ss arbitrary: w hist)
  case (Cons s ss)
  obtain w' where acc: "rw_accept w s = Some (w', seq_fresh hist s)"
    using rw_accept_total [of w s] Cons.prems by auto
  define hist' where "hist' = (if seq_fresh hist s then s # hist else hist)"
  have "rw_blocks w' t \<longleftrightarrow> \<not> seq_fresh hist' t" for t
    using rw_accept_blocks_iff [OF Cons.prems(1) acc, of t] Cons.prems(2) 
    by (auto simp: hist'_def seq_fresh_def not_less)
  moreover have "rw_wf w'"
    using rw_accept_wf Cons.prems(1) acc by blast
  ultimately have "rw_run w' ss = Some (spec_accepts hist' ss)"
    by (intro Cons.IH)
  then show ?case
    using acc by (simp add: hist'_def)
qed simp

text \<open>
  C6. The bit-mask window implements the history specification on every sequence of
  arrivals, and never panics: a number is accepted exactly when it was never accepted before
  and is less than 32 behind every accepted number. In particular no number is accepted twice.
\<close>

theorem replay_window_refines_history:
  "rw_run replay_window_new ss = Some (spec_accepts [] ss)"
  by (rule rw_run_spec) (simp_all add: seq_fresh_def)

section \<open>The per-peer tracker\<close>

definition rp_wf :: "replay_protector \<Rightarrow> bool" where
  "rp_wf rp \<longleftrightarrow> hm_wf (rp_peers rp) \<and> 0 < rp_max_peers rp \<and>
     length (rp_peers rp) \<le> rp_max_peers rp \<and>
     list_all (\<lambda>(_, st). rw_wf (prs_window st)) (rp_peers rp)"

definition rp_blocks :: "replay_protector \<Rightarrow> bytes \<Rightarrow> u8 \<Rightarrow> link_seqnum \<Rightarrow> bool" where
  "rp_blocks rp pk e s \<longleftrightarrow>
     (case hm_get (rp_peers rp) pk of
        None \<Rightarrow> False
      | Some st \<Rightarrow> e < last_epoch st \<or> (e = last_epoch st \<and> rw_blocks (prs_window st) s))"

lemma rp_evict_noop: "length m \<le> n \<Longrightarrow> rp_evict n m = m"
  by (simp add: rp_evict.simps)

lemma rp_evict_props:
  "hm_wf m \<Longrightarrow> hm_wf (rp_evict n m) \<and> length (rp_evict n m) \<le> n \<and> set (rp_evict n m) \<subseteq> set m"
proof (induction n m rule: rp_evict.induct)
  case (1 n m)
  show ?case
  proof (cases "n < length m")
    case True
    then obtain k v where kv: "min_by_key (\<lambda>(_, e). prs_last_access e) m = Some (k, v)"
      by (cases "min_by_key (\<lambda>(_, e). prs_last_access e) m") auto
    note set_hm_remove [of k m]
    moreover have "rp_evict n m = rp_evict n (hm_remove k m)"
      using True kv by (simp add: rp_evict.simps [of n m])
    ultimately show ?thesis
      using "1.IH" [OF True kv] "1.prems" by auto
  qed (use 1 in \<open>simp add: rp_evict_noop\<close>)
qed


lemma rp_wf_get: "rp_wf rp \<Longrightarrow> hm_get (rp_peers rp) pk = Some st \<Longrightarrow> rw_wf (prs_window st)"
  by (auto simp: rp_wf_def list_all_iff dest: hm_get_SomeD)

definition rp_room :: "replay_protector \<Rightarrow> bytes \<Rightarrow> bool" where
  "rp_room rp pk \<longleftrightarrow> hm_get (rp_peers rp) pk \<noteq> None \<or> length (rp_peers rp) < rp_max_peers rp"

text \<open>The state that an accepted or rejected frame leaves behind for its peer.\<close>

lemma check_and_update_cases:
  assumes "rp_wf rp"
  obtains st where
    "check_and_update rp pk e s =
       Some (rp\<lparr>rp_access_counter := sat_add (rp_access_counter rp) 1,
               rp_peers := rp_evict (rp_max_peers rp) (hm_insert pk st (rp_peers rp))\<rparr>,
             \<not> rp_blocks rp pk e s)"
    and "rw_wf (prs_window st)"
    and "\<And>e' s'. e' < last_epoch st \<or> (e' = last_epoch st \<and> rw_blocks (prs_window st) s') \<longleftrightarrow>
          rp_blocks rp pk e' s' \<or> (e' = e \<and> s' = s) \<or>
          (\<not> rp_blocks rp pk e s \<and> (e' < e \<or> e' = e \<and> unat s' + 32 \<le> unat s))"
proof -
  obtain w0 where acc0: "rw_accept replay_window_new s = Some (w0, True)"
    using rw_accept_total [OF rw_wf_new, of s] by auto
  note wf0 = rw_accept_wf [OF rw_wf_new acc0]
  have bl0: "rw_blocks w0 t \<longleftrightarrow> t = s \<or> unat t + 32 \<le> unat s" for t
    using rw_accept_blocks_iff [OF rw_wf_new acc0] by simp
  note defs = check_and_update_def peer_replay_state_new_def Let_def
  show ?thesis
  proof (cases "hm_get (rp_peers rp) pk")
    case None
    have nb: "\<not> rp_blocks rp pk e' s'" for e' s'
      using None by (simp add: rp_blocks_def)
    show ?thesis
      by (rule that [of "\<lparr>last_epoch = e, prs_window = w0, prs_last_access = sat_add (rp_access_counter rp) 1\<rparr>"])
        (simp_all add: nb None acc0 wf0 bl0 defs, blast)
  next
    case (Some st)
    note wf = rp_wf_get [OF assms Some]
    have len: "rp_evict (rp_max_peers rp) (hm_insert pk x (rp_peers rp)) = hm_insert pk x (rp_peers rp)" for x
      using Some assms by (intro rp_evict_noop) (simp add: length_hm_insert rp_wf_def)
    have bl: "rp_blocks rp pk e' s' \<longleftrightarrow>
        e' < last_epoch st \<or> (e' = last_epoch st \<and> rw_blocks (prs_window st) s')" for e' s'
      using Some by (simp add: rp_blocks_def)
    let ?st = "st\<lparr>prs_last_access := sat_add (rp_access_counter rp) 1\<rparr>"
    show ?thesis
    proof (cases e "last_epoch st" rule: linorder_cases)
      case less
      then have nl: "\<not> last_epoch st < e" by simp
      show ?thesis
        by (rule that [of ?st]) (use less nl in \<open>auto simp: len Some wf bl defs\<close>)
    next
      case equal
      obtain w where acc: "rw_accept (prs_window st) s = Some (w, \<not> rw_blocks (prs_window st) s)"
        using rw_accept_total [OF wf] by auto
      note w = rw_accept_wf [OF wf acc] rw_accept_blocks_iff [OF wf acc]
      show ?thesis
        by (rule that [of "?st\<lparr>prs_window := w\<rparr>"])
          (simp_all add: equal len Some acc w bl defs, blast)
    next
      case greater
      then have nl: "\<not> e < last_epoch st" "e \<noteq> last_epoch st" by auto
      show ?thesis
        by (rule that [of "?st\<lparr>last_epoch := e, prs_window := w0\<rparr>"])
          (use greater nl in \<open>auto simp: len Some acc0 wf0 bl0 bl defs\<close>)
    qed
  qed
qed

lemma rp_evict_lru:
  "hm_wf m \<Longrightarrow> x \<in> set m \<Longrightarrow> x \<notin> set (rp_evict n m) \<Longrightarrow> y \<in> set (rp_evict n m) \<Longrightarrow>
     prs_last_access (snd x) \<le> prs_last_access (snd y)"
proof (induction n m rule: rp_evict.induct)
  case (1 n m)
  show ?case
  proof (cases "n < length m")
    case True
    then obtain k v where kv: "min_by_key (\<lambda>(_, e). prs_last_access e) m = Some (k, v)"
      by (cases "min_by_key (\<lambda>(_, e). prs_last_access e) m") auto
    have ev: "rp_evict n m = rp_evict n (hm_remove k m)"
      using True kv by (simp add: rp_evict.simps [of n m])
    have y: "y \<in> set m"
      using "1.prems" rp_evict_props [of m n] by blast
    show ?thesis
    proof (cases "x \<in> set (hm_remove k m)")
      case True
      then show ?thesis
        using "1.IH" [OF \<open>n < length m\<close> kv] "1.prems" ev by (auto simp del: case_prod_beta)
    next
      case False
      then have "fst x = k"
        using "1.prems"(2) by (auto simp: hm_remove_def AList.delete_eq)
      then have "x = (k, v)"
        using min_by_key_mem [OF kv] "1.prems"(1,2) by (cases x) (metis fst_conv hm_get_mem option.inject)
      then show ?thesis
        using min_by_key_le [OF kv y] by (cases y) simp
    qed
  qed (use 1 in \<open>simp add: rp_evict_noop\<close>)
qed

lemma check_and_update_spec:
  assumes "rp_wf rp"
  shows "\<exists>rp'. check_and_update rp pk e s = Some (rp', \<not> rp_blocks rp pk e s) \<and> rp_wf rp'
    \<and> rp_max_peers rp' = rp_max_peers rp
    \<and> (rp_room rp pk \<longrightarrow> dom (hm_get (rp_peers rp')) = insert pk (dom (hm_get (rp_peers rp)))
        \<and> (\<forall>pk' e' s'. rp_blocks rp' pk' e' s' \<longleftrightarrow> rp_blocks rp pk' e' s' \<or>
             (pk' = pk \<and> (e' = e \<and> s' = s \<or>
                \<not> rp_blocks rp pk e s \<and> (e' < e \<or> e' = e \<and> unat s' + 32 \<le> unat s)))))"
proof -
  let ?ev = "\<lambda>st. rp_evict (rp_max_peers rp) (hm_insert pk st (rp_peers rp))"
  obtain st where cu: "check_and_update rp pk e s =
       Some (rp\<lparr>rp_access_counter := sat_add (rp_access_counter rp) 1, rp_peers := ?ev st\<rparr>,
             \<not> rp_blocks rp pk e s)" (is "_ = Some (?rp', _)")
    and wf: "rw_wf (prs_window st)"
    and bl: "\<And>e' s'. e' < last_epoch st \<or> (e' = last_epoch st \<and> rw_blocks (prs_window st) s') \<longleftrightarrow>
          rp_blocks rp pk e' s' \<or> (e' = e \<and> s' = s) \<or>
          (\<not> rp_blocks rp pk e s \<and> (e' < e \<or> e' = e \<and> unat s' + 32 \<le> unat s))"
    by (rule check_and_update_cases [OF assms, of pk e s]) (rule that)
  have "list_all (\<lambda>(_, st). rw_wf (prs_window st)) (hm_insert pk st (rp_peers rp))"
    using assms wf by (intro list_all_hm_insert) (auto simp: rp_wf_def)
  then have "rp_wf ?rp'"
    using assms rp_evict_props [of "hm_insert pk st (rp_peers rp)" "rp_max_peers rp"]
    by (auto simp: rp_wf_def list_all_iff)
  moreover have "dom (hm_get (rp_peers ?rp')) = insert pk (dom (hm_get (rp_peers rp)))
      \<and> (\<forall>pk' e' s'. rp_blocks ?rp' pk' e' s' \<longleftrightarrow> rp_blocks rp pk' e' s' \<or>
             (pk' = pk \<and> (e' = e \<and> s' = s \<or>
                \<not> rp_blocks rp pk e s \<and> (e' < e \<or> e' = e \<and> unat s' + 32 \<le> unat s))))"
    if "rp_room rp pk"
  proof -
    have ev: "?ev st = hm_insert pk st (rp_peers rp)"
      using that assms by (intro rp_evict_noop) (auto simp: length_hm_insert rp_room_def rp_wf_def)
    have "rp_blocks ?rp' pk' e' s' \<longleftrightarrow> (if pk' = pk then
        e' < last_epoch st \<or> (e' = last_epoch st \<and> rw_blocks (prs_window st) s')
        else rp_blocks rp pk' e' s')" for pk' e' s'
      by (simp add: rp_blocks_def ev hm_get_insert)
    then have "rp_blocks ?rp' pk' e' s' \<longleftrightarrow> rp_blocks rp pk' e' s' \<or>
        (pk' = pk \<and> (e' = e \<and> s' = s \<or>
                \<not> rp_blocks rp pk e s \<and> (e' < e \<or> e' = e \<and> unat s' + 32 \<le> unat s)))"
      for pk' e' s'
      unfolding bl by auto
    moreover have "dom (hm_get (rp_peers ?rp')) = insert pk (dom (hm_get (rp_peers rp)))"
      by (auto simp: ev hm_get_insert split: if_splits)
    ultimately show ?thesis by blast
  qed
  ultimately show ?thesis
    using cu by auto
qed

end
