(* ===== verification/Addressing.thy ===== *)
theory Addressing
  imports LichenPrelude
begin

text \<open>
  Addresses: the IPv6 address predicates of \<open>lichen-ipv6/src/lib.rs\<close>, node identifiers and
  key-derived addresses of \<open>lichen-core/src/addr.rs\<close>, and the 16-bit short addresses of
  \<open>lichen-core/src/short_addr.rs\<close>. SHA-512 (crate \<open>sha2\<close>) is the argument \<open>sha512\<close>.
\<close>

section \<open>IPv6 addresses (lichen-ipv6/src/lib.rs)\<close>

type_synonym ipv6_addr = bytes

definition addr_unspecified :: ipv6_addr where
  "addr_unspecified = replicate 16 0"

definition addr_loopback :: ipv6_addr where
  "addr_loopback = replicate 15 0 @ [1]"

definition all_nodes :: ipv6_addr where
  "all_nodes = [0xff, 0x02] @ replicate 13 0 @ [1]"

definition all_routers :: ipv6_addr where
  "all_routers = [0xff, 0x02] @ replicate 13 0 @ [2]"

definition link_local_from_eui64 :: "bytes \<Rightarrow> ipv6_addr" where
  "link_local_from_eui64 e =
     (replicate 16 0)[0 := 0xfe, 1 := 0x80, 8 := e ! 0 XOR 2, 9 := e ! 1, 10 := e ! 2,
        11 := e ! 3, 12 := e ! 4, 13 := e ! 5, 14 := e ! 6, 15 := e ! 7]"

definition link_local_from_mac :: "bytes \<Rightarrow> ipv6_addr" where
  "link_local_from_mac m =
     link_local_from_eui64 [m ! 0, m ! 1, m ! 2, 0xff, 0xfe, m ! 3, m ! 4, m ! 5]"

definition solicited_node :: "ipv6_addr \<Rightarrow> ipv6_addr" where
  "solicited_node a =
     (replicate 16 0)[0 := 0xff, 1 := 0x02, 11 := 0x01, 12 := 0xff, 13 := a ! 13, 14 := a ! 14,
        15 := a ! 15]"

definition is_link_local :: "ipv6_addr \<Rightarrow> bool" where
  "is_link_local a \<longleftrightarrow> a ! 0 = 0xfe \<and> (a ! 1 AND 0xc0) = 0x80"

definition is_multicast :: "ipv6_addr \<Rightarrow> bool" where
  "is_multicast a \<longleftrightarrow> a ! 0 = 0xff"

definition is_ula :: "ipv6_addr \<Rightarrow> bool" where
  "is_ula a \<longleftrightarrow> (a ! 0 AND 0xfe) = 0xfc"

definition is_gua :: "ipv6_addr \<Rightarrow> bool" where
  "is_gua a \<longleftrightarrow> (a ! 0 AND 0xe0) = 0x20"

definition is_loopback :: "ipv6_addr \<Rightarrow> bool" where
  "is_loopback a \<longleftrightarrow> a = [0, 0, 0, 0, 0, 0, 0, 0, 0, 0, 0, 0, 0, 0, 0, 1]"

definition addr_iid :: "ipv6_addr \<Rightarrow> bytes" where
  "addr_iid a = slice 8 16 a"

section \<open>Node identifiers (lichen-core/src/addr.rs)\<close>

type_synonym node_id = bytes

definition addr_with_prefix :: "node_id \<Rightarrow> bytes \<Rightarrow> ipv6_addr" where
  "addr_with_prefix e prefix =
     [prefix ! 0, prefix ! 1, prefix ! 2, prefix ! 3, prefix ! 4, prefix ! 5, prefix ! 6,
      prefix ! 7, e ! 0 XOR 2, e ! 1, e ! 2, e ! 3, e ! 4, e ! 5, e ! 6, e ! 7]"

definition link_local_addr :: "node_id \<Rightarrow> ipv6_addr" where
  "link_local_addr e = addr_with_prefix e [0xfe, 0x80, 0, 0, 0, 0, 0, 0]"

definition ula_addr :: "node_id \<Rightarrow> bytes \<Rightarrow> ipv6_addr" where
  "ula_addr e prefix = addr_with_prefix e prefix"

definition node_id_from_ipv6 :: "ipv6_addr \<Rightarrow> node_id option" where
  "node_id_from_ipv6 addr =
     (if is_multicast addr \<or> is_loopback addr then None
      else let iid = addr_iid addr in Some (iid[0 := iid ! 0 XOR 2]))"

definition iid_from_pubkey_bytes :: "(bytes \<Rightarrow> bytes) \<Rightarrow> bytes \<Rightarrow> bytes" where
  "iid_from_pubkey_bytes sha512 pubkey =
     (let iid = slice 0 8 (sha512 pubkey) in iid[0 := iid ! 0 AND 0xFD])"

text \<open>
  \<open>ygg_addr_from_pubkey\<close>: the two nested loops that count leading zero bits, flattened to one
  pass over (byte, shift) pairs with the labelled \<open>break\<close>, and the packing loop over bit
  positions with its state (acc, n_bits, out, addr).
\<close>

fun ygg_count :: "nat \<Rightarrow> (u8 \<times> nat) list \<Rightarrow> nat" where
  "ygg_count leading_ones [] = leading_ones"
| "ygg_count leading_ones ((byte, shift) # rest) =
     (if byte AND push_bit shift 1 \<noteq> 0 then leading_ones else ygg_count (leading_ones + 1) rest)"

definition ygg_pairs :: "bytes \<Rightarrow> (u8 \<times> nat) list" where
  "ygg_pairs pubkey = concat (map (\<lambda>byte. map (\<lambda>shift. (byte, shift)) (rev [0..<8])) pubkey)"

fun ygg_pack_step :: "u8 \<Rightarrow> u8 \<times> nat \<times> nat \<times> bytes \<Rightarrow> u8 \<times> nat \<times> nat \<times> bytes" where
  "ygg_pack_step raw_bit (acc, n_bits, out, addr) =
     (let acc = push_bit 1 acc OR (raw_bit XOR 1);
          n_bits = n_bits + 1 in
      if n_bits = 8 then
        (if out < 16 then (0, 0, out + 1, addr[out := acc]) else (0, 0, out, addr))
      else (acc, n_bits, out, addr))"

definition ygg_raw_bit :: "bytes \<Rightarrow> nat \<Rightarrow> u8" where
  "ygg_raw_bit pubkey i = drop_bit (7 - i mod 8) (pubkey ! (i div 8)) AND 1"

definition ygg_addr_from_pubkey :: "bytes \<Rightarrow> ipv6_addr" where
  "ygg_addr_from_pubkey pubkey =
     (let addr = (replicate 16 0)[0 := 0x02];
          leading_ones = ygg_count 0 (ygg_pairs pubkey);
          addr = addr[1 := of_nat leading_ones];
          (_, _, _, addr) = fold (\<lambda>i. ygg_pack_step (ygg_raw_bit pubkey i))
             [leading_ones + 1..<256] (0, 0, 2, addr)
      in addr)"

definition subnet_for_key :: "bytes \<Rightarrow> bytes" where
  "subnet_for_key pubkey =
     (let subnet = take 8 (ygg_addr_from_pubkey pubkey) in subnet[0 := subnet ! 0 OR 1])"

section \<open>Short addresses (lichen-core/src/short_addr.rs)\<close>

definition SHORT_ADDR_IID_PREFIX :: bytes where
  "SHORT_ADDR_IID_PREFIX = [0x00, 0x00, 0x00, 0xff, 0xfe, 0x00]"

definition LICHEN_CRC32_INITIAL :: u32 where
  "LICHEN_CRC32_INITIAL = 0x4348454e"

definition is_reserved_short_addr :: "u16 \<Rightarrow> bool" where
  "is_reserved_short_addr a \<longleftrightarrow> a = 0x0000 \<or> a = 0xfffe \<or> a = 0xffff"

definition short_addr_to_iid :: "u16 \<Rightarrow> bytes" where
  "short_addr_to_iid short_addr =
     (let b = be_bytes 2 short_addr in [0x00, 0x00, 0x00, 0xff, 0xfe, 0x00, b ! 0, b ! 1])"

definition short_addr_from_iid :: "bytes \<Rightarrow> u16 option" where
  "short_addr_from_iid iid =
     (if length iid \<noteq> 8 \<or> take 6 iid \<noteq> SHORT_ADDR_IID_PREFIX then None
      else Some (of_be [iid ! 6, iid ! 7]))"

definition crc32_bit :: "u32 \<Rightarrow> u32" where
  "crc32_bit crc = (let mask = 0 - (crc AND 1) in drop_bit 1 crc XOR (0xedb88320 AND mask))"

definition crc32_byte :: "u32 \<Rightarrow> u8 \<Rightarrow> u32" where
  "crc32_byte crc byte = (crc32_bit ^^ 8) (crc XOR ucast byte)"

definition crc32_ieee :: "bytes \<Rightarrow> u32 \<Rightarrow> u32" where
  "crc32_ieee data initial = foldl crc32_byte (initial XOR (- 1)) data XOR (- 1)"

definition derive_short_addr :: "bytes \<Rightarrow> u16" where
  "derive_short_addr eui64 = ucast (crc32_ieee eui64 LICHEN_CRC32_INITIAL)"

definition derive_short_addr_with_seed :: "bytes \<Rightarrow> u32 \<Rightarrow> u16" where
  "derive_short_addr_with_seed eui64 seed =
     derive_short_addr (take 4 eui64 @ map2 (\<lambda>byte s. byte XOR s) (drop 4 eui64) (le_bytes 4 seed))"

section \<open>Reference derivation of the routable address\<close>

text \<open>
  The derivation as its documentation states it, over the list of inverted key bits: skip the
  leading ones and the first zero, pack the rest into whole bytes, keep fourteen.
\<close>

definition key_inv_bits :: "bytes \<Rightarrow> bool list" where
  "key_inv_bits pubkey = map (\<lambda>i. \<not> bit (pubkey ! (i div 8)) (7 - i mod 8)) [0..<8 * length pubkey]"

definition byte_of_bits :: "bool list \<Rightarrow> u8" where
  "byte_of_bits bs = foldl (\<lambda>acc b. push_bit 1 acc OR of_bool b) 0 bs"

fun pack_bits :: "bool list \<Rightarrow> bytes" where
  "pack_bits bs = (if length bs < 8 then [] else byte_of_bits (take 8 bs) # pack_bits (drop 8 bs))"

declare pack_bits.simps [simp del]

definition ygg_addr_spec :: "bytes \<Rightarrow> ipv6_addr" where
  "ygg_addr_spec pubkey =
     (let bits = key_inv_bits pubkey; ones = length (takeWhile id bits)
      in [0x02, of_nat ones] @ take 14 (pack_bits (drop (ones + 1) bits) @ replicate 14 0))"

lemma drop_bit_and_1: "drop_bit n w AND 1 = (of_bool (bit w n) :: 'a::len word)"
  by (simp add: and_one_eq odd_iff_mod_2_eq_one bit_iff_odd_drop_bit)

lemma ygg_count_eq:
  "ygg_count n ps = n + length (takeWhile (\<lambda>(b, s). \<not> bit b s) ps)"
  by (induction n ps rule: ygg_count.induct) (auto simp: and_exp_eq_0_iff_not_bit)

lemma ygg_pairs_eq:
  "ygg_pairs key = map (\<lambda>i. (key ! (i div 8), 7 - i mod 8)) [0..<8 * length key]"
proof (induction key)
  case (Cons b key)
  have "[0..<8 * length (b # key)] = [0..<8] @ map (\<lambda>i. i + 8) [0..<8 * length key]"
    by (simp add: map_add_upt upt_add_eq_append [of 0 8, simplified] add.commute)
  moreover have "[0..<8] = [0, 1, 2, 3, 4, 5, 6, 7 :: nat]"
    by (simp add: upt_rec)
  ultimately show ?case
    using Cons by (simp add: ygg_pairs_def div_add_self2)
qed (simp add: ygg_pairs_def)

lemma length_takeWhile_map: "length (takeWhile P (map f xs)) = length (takeWhile (P \<circ> f) xs)"
  by (simp add: takeWhile_map)

lemma ygg_leading_eq: "ygg_count 0 (ygg_pairs key) = length (takeWhile id (key_inv_bits key))"
  by (simp add: ygg_count_eq ygg_pairs_eq key_inv_bits_def length_takeWhile_map comp_def)

lemma byte_of_bits_snoc: "byte_of_bits (bs @ [b]) = push_bit 1 (byte_of_bits bs) OR of_bool b"
  by (simp add: byte_of_bits_def)

lemma pack_bits_8: "length bs = 8 \<Longrightarrow> pack_bits (bs @ cs) = byte_of_bits bs # pack_bits cs"
  by (simp add: pack_bits.simps [of "bs @ cs"])

lemma ygg_pack_fold:
  assumes "length pre < 8" and "out \<le> 16" and "length addr = 16"
    and "\<And>i. i \<in> set is \<Longrightarrow> f i = of_bool (\<not> g i)"
  shows "snd (snd (snd (fold (\<lambda>i. ygg_pack_step (f i)) is (byte_of_bits pre, length pre, out, addr))))
    = splice addr out (take (16 - out) (pack_bits (pre @ map g is)))"
  using assms
proof (induction "is" arbitrary: pre out addr)
  case Nil
  then show ?case by (simp add: pack_bits.simps [of pre])
next
  case (Cons i "is")
  define acc where "acc = byte_of_bits (pre @ [g i])"
  have acc: "push_bit 1 (byte_of_bits pre) OR (f i XOR 1) = acc"
    using Cons.prems(4) [of i] by (cases "g i") (simp_all add: acc_def byte_of_bits_snoc)
  have f: "\<And>j. j \<in> set is \<Longrightarrow> f j = of_bool (\<not> g j)"
    using Cons.prems(4) by simp
  show ?case
  proof (cases "length pre = 7")
    case False
    then show ?thesis
      using Cons.IH [of "pre @ [g i]" out addr] Cons.prems f acc by (simp add: acc_def)
  next
    case True
    then have p: "pack_bits (pre @ g i # map g is) = acc # pack_bits (map g is)"
      using pack_bits_8 [of "pre @ [g i]"] by (simp add: acc_def)
    have z: "byte_of_bits [] = 0" by (simp add: byte_of_bits_def)
    show ?thesis
    proof (cases "out < 16")
      case True
      have "snd (snd (snd (fold (\<lambda>i. ygg_pack_step (f i)) is (0, 0, out + 1, addr[out := acc]))))
          = splice (addr[out := acc]) (out + 1) (take (16 - (out + 1)) (pack_bits (map g is)))"
        using Cons.IH [of "[]" "out + 1" "addr[out := acc]"] Cons.prems f True by (simp add: z)
      also have "\<dots> = splice addr out (take (16 - out) (acc # pack_bits (map g is)))"
        using True Cons.prems by (simp add: splice_def Suc_diff_Suc take_Cons' take_Suc_conv_app_nth)
      finally show ?thesis
        using \<open>length pre = 7\<close> True by (simp add: acc [simplified] p)
    next
      case False
      then show ?thesis
        using Cons.IH [of "[]" out addr] Cons.prems f \<open>length pre = 7\<close> by (simp add: acc [simplified] p z)
    qed
  qed
qed


lemma length_key_inv_bits [simp]: "length (key_inv_bits key) = 8 * length key"
  by (simp add: key_inv_bits_def)

lemma splice_2_pad: "splice (a # b # replicate k z) 2 (take k p) = [a, b] @ take k (p @ replicate k z)"
  by (simp add: splice_def min_def)

text \<open>
  C10. The loops of \<open>ygg_addr_from_pubkey\<close> compute the documented \<open>AddrForKey\<close> derivation
  for every 32-byte key, the all-zero key (256 leading ones, stored as 0) included.
\<close>

theorem ygg_addr_from_pubkey_eq:
  assumes "length pubkey = 32"
  shows "ygg_addr_from_pubkey pubkey = ygg_addr_spec pubkey"
proof -
  define n where "n = ygg_count 0 (ygg_pairs pubkey)"
  let ?g = "\<lambda>i. \<not> bit (pubkey ! (i div 8)) (7 - i mod 8)"
  let ?addr = "(replicate 16 0)[0 := 0x02, 1 := word_of_nat n] :: u8 list"
  have addr: "?addr = 2 # word_of_nat n # replicate 14 0"
    by (simp add: numeral_eq_Suc)
  have raw: "ygg_raw_bit pubkey i = of_bool (\<not> ?g i)" for i
    by (simp add: ygg_raw_bit_def drop_bit_and_1)
  have "ygg_addr_from_pubkey pubkey = snd (snd (snd
      (fold (\<lambda>i. ygg_pack_step (ygg_raw_bit pubkey i)) [n + 1..<256] (0, 0, 2, ?addr))))"
    by (simp add: ygg_addr_from_pubkey_def Let_def n_def split: prod.split)
  also have "\<dots> = splice ?addr 2 (take 14 (pack_bits (map ?g [n + 1..<256])))"
    using ygg_pack_fold [of "[]" 2 ?addr "[n + 1..<256]" "ygg_raw_bit pubkey" ?g] raw
    by (simp add: byte_of_bits_def)
  also have "map ?g [n + 1..<256] = drop (n + 1) (key_inv_bits pubkey)"
    using assms by (simp add: key_inv_bits_def drop_map)
  finally show ?thesis
    unfolding addr ygg_addr_spec_def Let_def ygg_leading_eq [symmetric] n_def [symmetric]
    by (simp add: splice_2_pad)
qed

lemma ygg_addr_spec_zero_key:
  "ygg_addr_spec (replicate n 0) = [2, of_nat (8 * n)] @ replicate 14 0"
proof -
  have "key_inv_bits (replicate n 0) = replicate (8 * n) True"
    unfolding key_inv_bits_def by (rule replicate_eqI) auto
  then show ?thesis
    by (simp add: ygg_addr_spec_def Let_def takeWhile_replicate pack_bits.simps [of "[]"])
qed

theorem ygg_addr_from_pubkey_eq_witness:
  "ygg_addr_from_pubkey (replicate 32 0) = [2, 0] @ replicate 14 0"
proof -
  have "(of_nat (8 * 32) :: u8) = 0"
    by code_simp
  then show ?thesis
    using ygg_addr_from_pubkey_eq [of "replicate 32 0", OF length_replicate]
      ygg_addr_spec_zero_key [of 32] by argo
qed

section \<open>Round trips\<close>

text \<open>
  A short-address interface identifier is recognised exactly when it is the mapping of a
  short address, and yields that address.
\<close>

theorem short_addr_iid_iff: "short_addr_from_iid iid = Some a \<longleftrightarrow> iid = short_addr_to_iid a"
proof -
  obtain x y where xy: "be_bytes 2 a = [x, y]" using be_bytes_2 by blast
  have "of_be [u, v] = a \<longleftrightarrow> u = x \<and> v = y" for u v
  proof
    assume "of_be [u, v] = a"
    then show "u = x \<and> v = y"
      using be_bytes_of_be [of 2 "[u, v]", where 'a = 16] xy by simp
  qed (use of_be_be_bytes [of 2 a] xy in simp)
  moreover have "length iid = 8 \<longleftrightarrow> (\<exists>a0 a1 a2 a3 a4 a5 a6 a7. iid = [a0, a1, a2, a3, a4, a5, a6, a7])"
    by (auto simp: numeral_eq_Suc length_Suc_conv)
  ultimately show ?thesis
    by (auto simp: short_addr_from_iid_def short_addr_to_iid_def SHORT_ADDR_IID_PREFIX_def xy)
qed

text \<open>
  A node identifier survives the trip through an address with any prefix, except when
  the resulting address is multicast or the loopback address, and always through the
  link-local address, which is recognised as link-local.
\<close>

theorem node_id_round_trip:
  assumes "length e = 8"
  shows "node_id_from_ipv6 (ula_addr e prefix) =
      (if prefix ! 0 = 0xff \<or> ula_addr e prefix = addr_loopback then None else Some e)
    \<and> node_id_from_ipv6 (link_local_addr e) = Some e \<and> is_link_local (link_local_addr e)"
proof -
  obtain a0 a1 a2 a3 a4 a5 a6 a7 where e: "e = [a0, a1, a2, a3, a4, a5, a6, a7]"
    using assms by (auto simp: numeral_eq_Suc length_Suc_conv)
  have lo: "addr_loopback = [0, 0, 0, 0, 0, 0, 0, 0, 0, 0, 0, 0, 0, 0, 0, 1]"
    by (simp add: addr_loopback_def numeral_eq_Suc)
  have iid: "node_id_from_ipv6 (addr_with_prefix e p) =
      (if p ! 0 = 0xff \<or> addr_with_prefix e p = addr_loopback then None else Some e)" for p
    by (simp add: node_id_from_ipv6_def is_multicast_def is_loopback_def lo addr_iid_def
      addr_with_prefix_def slice_def e Let_def xor.assoc)
  show ?thesis
    unfolding ula_addr_def link_local_addr_def iid
    by (simp add: addr_with_prefix_def lo is_link_local_def)
qed

theorem node_id_round_trip_witness:
  "node_id_from_ipv6 (link_local_addr [2, 0, 0, 0, 0, 0, 0, 1]) = Some [2, 0, 0, 0, 0, 0, 0, 1]"
  using node_id_round_trip [of "[2, 0, 0, 0, 0, 0, 0, 1]"] by simp

text \<open>The check value of the CRC catalogue and two published short addresses.\<close>

lemma crc32_byte_eval:
  "crc32_byte crc b = (let f = crc32_bit in f (f (f (f (f (f (f (f (crc XOR ucast b)))))))))"
  by (simp add: crc32_byte_def eval_nat_numeral)

lemmas crc32_eval = crc32_ieee_def crc32_byte_eval crc32_bit_def Let_def

lemma crc32_check_value: "crc32_ieee [49, 50, 51, 52, 53, 54, 55, 56, 57] 0 = 0xcbf43926"
  by (simp add: crc32_eval)

lemma derive_short_addr_vectors:
  "derive_short_addr [0x00, 0x11, 0x22, 0x33, 0x44, 0x55, 0x66, 0x77] = 0x056e"
  "derive_short_addr_with_seed [0x00, 0x11, 0x22, 0x33, 0x44, 0x55, 0x66, 0x77] 1 = 0x620b"
  by (simp_all add: derive_short_addr_def derive_short_addr_with_seed_def le_bytes_def be_bytes_def
    LICHEN_CRC32_INITIAL_def crc32_eval upt_rec)

end
