(* ===== verification/Receipt_Evidence.thy ===== *)
theory Receipt_Evidence
  imports Link_Frame Replay_Window Addressing
begin

text \<open>
  Reception evidence (\<open>lichen-link/src/evidence.rs\<close>) and node identities
  (\<open>lichen-link/src/identity.rs\<close>). The two process-wide counters and every
  \<open>Arc<AtomicBool>\<close> of the process live in the record \<open>process\<close>: an \<open>Arc\<close> is the index of
  its cell, \<open>Arc::clone\<close> copies the index, and \<open>Arc::ptr_eq\<close> compares indices. Cells are never
  reused, as a dropped cell is not observable.
\<close>

section \<open>Process-wide state\<close>

record process =
  arcs :: "bool list"
  next_clock_domain_cell :: u32
  next_peer_key_generation :: u64

definition process_start :: process where
  "process_start = \<lparr>arcs = [], next_clock_domain_cell = 1, next_peer_key_generation = 1\<rparr>"

definition arc_new :: "process \<Rightarrow> process \<times> nat" where
  "arc_new p = (p\<lparr>arcs := arcs p @ [False]\<rparr>, length (arcs p))"

definition arc_store_true :: "nat \<Rightarrow> process \<Rightarrow> process" where
  "arc_store_true a p = p\<lparr>arcs := (arcs p)[a := True]\<rparr>"

definition arc_load :: "process \<Rightarrow> nat \<Rightarrow> bool" where
  "arc_load p a = (arcs p ! a)"

section \<open>Generations and the receipt clock\<close>

definition next_clock_domain :: "u32 \<Rightarrow> u32 option" where
  "next_clock_domain current =
     (case checked_add current 1 of None \<Rightarrow> None | Some n \<Rightarrow> if n \<noteq> 0 then Some n else None)"

type_synonym peer_key_generation = u64
type_synonym durable_generation = bytes

definition durable_from_owner_bytes :: "bytes \<Rightarrow> durable_generation option" where
  "durable_from_owner_bytes b = (if b = replicate 16 0 then None else Some b)"

text \<open>\<open>fetch_update\<close> stores the successor and returns the previous value.\<close>

definition allocate_key_generation :: "process \<Rightarrow> (process \<times> peer_key_generation) option" where
  "allocate_key_generation p =
     (case checked_add (next_peer_key_generation p) 1 of
        None \<Rightarrow> None
      | Some n \<Rightarrow> if n \<noteq> 0 then Some (p\<lparr>next_peer_key_generation := n\<rparr>, next_peer_key_generation p)
                  else None)"

datatype receipt_clock_error = DomainExhausted | ClockRegression | ClockModeMismatch

datatype receipt_clock_mode = ModeUnset | ModeOpaqueTicks | ModeMillis | ModeLogical

record receipt_evidence =
  re_clock_domain :: u64
  re_monotonic_ticks :: u64
  re_duration_millis :: "u64 option"

definition elapsed_since :: "receipt_evidence \<Rightarrow> receipt_evidence \<Rightarrow> u64 option" where
  "elapsed_since self earlier =
     (if re_clock_domain self \<noteq> re_clock_domain earlier then None
      else checked_sub (re_monotonic_ticks self) (re_monotonic_ticks earlier))"

record receipt_clock =
  rc_domain :: u64
  rc_last_ticks :: u64
  rc_mode :: receipt_clock_mode

definition receipt_clock_new :: "process \<Rightarrow> receipt_clock_error + (process \<times> receipt_clock)" where
  "receipt_clock_new p =
     (case next_clock_domain (next_clock_domain_cell p) of
        None \<Rightarrow> Inl DomainExhausted
      | Some n \<Rightarrow> Inr (p\<lparr>next_clock_domain_cell := n\<rparr>,
          \<lparr>rc_domain = ucast (next_clock_domain_cell p), rc_last_ticks = 0, rc_mode = ModeUnset\<rparr>))"

definition select_mode ::
  "receipt_clock \<Rightarrow> receipt_clock_mode \<Rightarrow> receipt_clock \<times> (receipt_clock_error + unit)" where
  "select_mode c requested =
     (if rc_mode c = ModeUnset then (c\<lparr>rc_mode := requested\<rparr>, Inr ())
      else if rc_mode c = requested then (c, Inr ())
      else (c, Inl ClockModeMismatch))"

definition observe ::
  "receipt_clock \<Rightarrow> u64 \<Rightarrow> receipt_clock \<times> (receipt_clock_error + receipt_evidence)" where
  "observe c ticks =
     (case select_mode c ModeOpaqueTicks of
        (c, Inl e) \<Rightarrow> (c, Inl e)
      | (c, Inr _) \<Rightarrow>
          if ticks < rc_last_ticks c then (c, Inl ClockRegression)
          else (c\<lparr>rc_last_ticks := ticks\<rparr>,
                Inr \<lparr>re_clock_domain = rc_domain c, re_monotonic_ticks = ticks,
                     re_duration_millis = None\<rparr>))"

definition observe_millis ::
  "receipt_clock \<Rightarrow> u64 \<Rightarrow> receipt_clock \<times> (receipt_clock_error + receipt_evidence)" where
  "observe_millis c millis =
     (case select_mode c ModeMillis of
        (c, Inl e) \<Rightarrow> (c, Inl e)
      | (c, Inr _) \<Rightarrow>
          if millis < rc_last_ticks c then (c, Inl ClockRegression)
          else (c\<lparr>rc_last_ticks := millis\<rparr>,
                Inr \<lparr>re_clock_domain = rc_domain c, re_monotonic_ticks = millis,
                     re_duration_millis = Some millis\<rparr>))"

definition next_logical ::
  "receipt_clock \<Rightarrow> receipt_clock \<times> (receipt_clock_error + receipt_evidence)" where
  "next_logical c =
     (case select_mode c ModeLogical of
        (c, Inl e) \<Rightarrow> (c, Inl e)
      | (c, Inr _) \<Rightarrow>
          (case checked_add (rc_last_ticks c) 1 of
             None \<Rightarrow> (c, Inl ClockRegression)
           | Some next \<Rightarrow>
               (c\<lparr>rc_last_ticks := next\<rparr>,
                Inr \<lparr>re_clock_domain = rc_domain c, re_monotonic_ticks = next,
                     re_duration_millis = None\<rparr>)))"

section \<open>Cryptographic primitives and identities\<close>

text \<open>
  The primitives of the crates \<open>sha2\<close> and \<open>schnorr48\<close>, as one record of functions that the
  link layer takes as its first argument.
\<close>

record crypto =
  c_sha512 :: "bytes \<Rightarrow> bytes"
  c_sha256 :: "bytes \<Rightarrow> bytes"
  c_derive_keypair :: "bytes \<Rightarrow> bytes \<times> bytes"
  c_sign :: sign_fn
  c_verify :: verify_fn

definition iid_from_pubkey :: "crypto \<Rightarrow> bytes \<Rightarrow> bytes" where
  "iid_from_pubkey c pubkey = iid_from_pubkey_bytes (c_sha512 c) pubkey"

record identity =
  id_seed :: bytes
  id_privkey :: bytes
  id_pubkey :: bytes
  id_iid :: bytes
  id_ygg_addr :: bytes

definition identity_from_seed :: "crypto \<Rightarrow> bytes \<Rightarrow> identity" where
  "identity_from_seed c seed =
     (let (privkey, pubkey) = c_derive_keypair c seed;
          iid = iid_from_pubkey c pubkey;
          ygg_addr = ygg_addr_from_pubkey pubkey
      in \<lparr>id_seed = seed, id_privkey = privkey, id_pubkey = pubkey, id_iid = iid,
          id_ygg_addr = ygg_addr\<rparr>)"

record peer_identity =
  pi_pubkey :: bytes
  pi_iid :: bytes

definition peer_from_pubkey :: "crypto \<Rightarrow> bytes \<Rightarrow> peer_identity" where
  "peer_from_pubkey c pubkey = \<lparr>pi_pubkey = pubkey, pi_iid = iid_from_pubkey c pubkey\<rparr>"

text \<open>The Crockford base-32 rendering of an IID, most significant digit first.\<close>

definition crockford_alphabet :: bytes where
  "crockford_alphabet = [48, 49, 50, 51, 52, 53, 54, 55, 56, 57, 65, 66, 67, 68, 69, 70, 71, 72,
     74, 75, 77, 78, 80, 81, 82, 83, 84, 86, 87, 88, 89, 90]"

fun base32_digits :: "nat \<Rightarrow> u64 \<Rightarrow> bytes \<Rightarrow> bytes" where
  "base32_digits 0 n buf = buf"
| "base32_digits (Suc k) n buf =
     base32_digits k (n div 32) (crockford_alphabet ! unat (n mod 32) # buf)"

definition human_address_from_iid :: "bytes \<Rightarrow> bytes" where
  "human_address_from_iid iid =
     (let buf = base32_digits 13 (of_be iid) [] in
      slice 0 4 buf @ [45] @ slice 4 8 buf @ [45] @ slice 8 13 buf)"

definition human_address_from_pubkey :: "crypto \<Rightarrow> bytes \<Rightarrow> bytes" where
  "human_address_from_pubkey c pubkey = human_address_from_iid (iid_from_pubkey c pubkey)"

end
