(* ===== verification/Link_Layer.thy ===== *)
theory Link_Layer
  imports Receipt_Evidence
begin

text \<open>
  The link layer of \<open>lichen-link/src/link_layer.rs\<close>: the table of configured peers with LRU
  eviction, the pins, replay protection, the revocable evidence handed out with each
  authenticated frame, signed frame construction, reception, and the sealed trust state that
  survives a restart. Every operation threads the link layer and, where it allocates or
  retires a token, the process state; \<open>None\<close> is a failed \<open>expect\<close>.
\<close>

section \<open>Data\<close>

text \<open>The ASCII bytes of \<open>LICHEN-LINK-TRUST-v1\<close> with a NUL, and of the generation domain.\<close>

definition TRUST_STATE_DOMAIN :: bytes where
  "TRUST_STATE_DOMAIN = [76, 73, 67, 72, 69, 78, 45, 76, 73, 78, 75, 45, 84, 82, 85, 83, 84, 45,
     118, 49, 0]"

definition TRUST_STATE_SIGNATURE_LEN :: nat where "TRUST_STATE_SIGNATURE_LEN = 48"

definition PEER_GENERATION_DOMAIN :: bytes where
  "PEER_GENERATION_DOMAIN = [76, 73, 67, 72, 69, 78, 45, 80, 69, 69, 82, 45, 71, 69, 78, 69, 82, 65,
     84, 73, 79, 78, 45, 118, 49, 0]"

datatype link_rx_error =
    RxFrame frame_error
  | RxUnsigned
  | RxUnknownSender
  | RxReplay
  | RxTooShort too_short
  | RxKeyChange
  | RxClockRegression
  | RxClockModeMismatch
  | RxNotForUs

datatype link_persistent_state_error =
    PsMissing | PsMalformed | PsIntegrity | PsRollback | PsConflict | PsBufferTooSmall

fun rx_error_of_clock :: "receipt_clock_error \<Rightarrow> link_rx_error" where
  "rx_error_of_clock ClockRegression = RxClockRegression"
| "rx_error_of_clock DomainExhausted = RxClockRegression"
| "rx_error_of_clock ClockModeMismatch = RxClockModeMismatch"

datatype peer_auth_state = PeerUnknown | PeerAuthenticating | PeerAuthenticated

fun peer_auth_can_transition_to :: "peer_auth_state \<Rightarrow> peer_auth_state \<Rightarrow> bool" where
  "peer_auth_can_transition_to PeerUnknown PeerUnknown = True"
| "peer_auth_can_transition_to PeerUnknown PeerAuthenticating = True"
| "peer_auth_can_transition_to PeerAuthenticating PeerAuthenticating = True"
| "peer_auth_can_transition_to PeerAuthenticating PeerAuthenticated = True"
| "peer_auth_can_transition_to PeerAuthenticated PeerAuthenticated = True"
| "peer_auth_can_transition_to PeerAuthenticated PeerAuthenticating = True"
| "peer_auth_can_transition_to _ _ = False"

record authenticated_frame =
  af_payload :: bytes
  af_destination :: bytes
  af_destination_mode :: addr_mode
  af_sender :: peer_identity
  af_signer_eui64 :: bytes
  af_epoch :: u8
  af_seqnum :: link_seqnum
  af_receiving_link_identity :: nat
  af_peer_key_generation :: nat
  af_peer_key_generation_id :: peer_key_generation
  af_durable_peer_key_generation :: durable_generation
  af_receipt :: receipt_evidence
  af_receiving_eui64 :: bytes

record tracked_peer =
  tp_identity :: peer_identity
  tp_last_access :: u64
  tp_key_generation :: nat
  tp_key_generation_id :: peer_key_generation
  tp_durable_key_generation :: durable_generation
  tp_durable_generation_serial :: u64
  tp_required_schc_floor_commitment :: "bytes option"

record link_layer =
  ll_identity :: identity
  ll_peers :: "(bytes, tracked_peer) hmap"
  ll_replay :: replay_protector
  ll_pinned :: "(bytes, bytes) hmap"
  ll_access_counter :: u64
  ll_max_peers :: nat
  ll_receiving_link_identity :: nat
  ll_receipt_clock :: receipt_clock
  ll_next_durable_generation :: u64

section \<open>Construction and queries\<close>

definition link_layer_new :: "identity \<Rightarrow> process \<Rightarrow> (process \<times> link_layer) option" where
  "link_layer_new ident p =
     (let (p, token) = arc_new p in
      case receipt_clock_new p of
        Inl _ \<Rightarrow> None
      | Inr (p, clock) \<Rightarrow>
          Some (p, \<lparr>ll_identity = ident, ll_peers = [], ll_replay = replay_protector_new,
                    ll_pinned = [], ll_access_counter = 0, ll_max_peers = 64,
                    ll_receiving_link_identity = token, ll_receipt_clock = clock,
                    ll_next_durable_generation = 1\<rparr>))"

definition toggle_ul :: "bytes \<Rightarrow> bytes" where
  "toggle_ul iid = iid[0 := iid ! 0 XOR 2]"

definition local_eui64 :: "link_layer \<Rightarrow> bytes" where
  "local_eui64 ll = toggle_ul (id_iid (ll_identity ll))"

definition wire_is_for_local :: "link_layer \<Rightarrow> lichen_frame \<Rightarrow> bool" where
  "wire_is_for_local ll f =
     (case f_addr_mode f of
        AddrNone \<Rightarrow> True
      | AddrShort \<Rightarrow> False
      | AddrExtended \<Rightarrow> f_dst_addr f = local_eui64 ll
      | AddrElided \<Rightarrow> True)"

definition pinned_pubkey_for :: "link_layer \<Rightarrow> bytes \<Rightarrow> bytes option" where
  "pinned_pubkey_for ll iid = hm_get (ll_pinned ll) iid"

definition sign_digest :: "crypto \<Rightarrow> link_layer \<Rightarrow> bytes \<Rightarrow> bytes" where
  "sign_digest c ll digest =
     c_sign c (id_privkey (ll_identity ll)) (id_pubkey (ll_identity ll)) digest"

definition peer_auth_state_of :: "link_layer \<Rightarrow> bytes \<Rightarrow> peer_auth_state" where
  "peer_auth_state_of ll iid =
     (case (hm_get (ll_peers ll) iid, hm_get (ll_pinned ll) iid) of
        (Some peer, Some pinned) \<Rightarrow>
          if pinned = pi_pubkey (tp_identity peer) then PeerAuthenticated else PeerAuthenticating
      | (Some _, None) \<Rightarrow> PeerAuthenticating
      | (None, _) \<Rightarrow> PeerUnknown)"

definition peer_iid_for_routable_addr :: "link_layer \<Rightarrow> bytes \<Rightarrow> bytes option" where
  "peer_iid_for_routable_addr ll addr =
     (case find (\<lambda>(_, peer). ygg_addr_from_pubkey (pi_pubkey (tp_identity peer)) = addr)
             (ll_peers ll) of
        Some (_, peer) \<Rightarrow> Some (pi_iid (tp_identity peer))
      | None \<Rightarrow>
          map_option fst (find (\<lambda>(_, pinned). ygg_addr_from_pubkey pinned = addr) (ll_pinned ll)))"

definition peer_count :: "link_layer \<Rightarrow> nat" where
  "peer_count ll = length (ll_peers ll)"

definition af_is_current :: "process \<Rightarrow> authenticated_frame \<Rightarrow> bool" where
  "af_is_current p f \<longleftrightarrow>
     \<not> arc_load p (af_receiving_link_identity f) \<and> \<not> arc_load p (af_peer_key_generation f)"

definition is_unicast_for :: "authenticated_frame \<Rightarrow> link_layer \<Rightarrow> bool" where
  "is_unicast_for f ll \<longleftrightarrow>
     af_destination_mode f = AddrExtended \<and> af_destination f = local_eui64 ll"

definition is_same_receiver :: "process \<Rightarrow> nat \<Rightarrow> nat \<Rightarrow> bool" where
  "is_same_receiver p self other \<longleftrightarrow> \<not> arc_load p self \<and> \<not> arc_load p other \<and> self = other"

definition accepts_authenticated_frame ::
  "process \<Rightarrow> link_layer \<Rightarrow> authenticated_frame \<Rightarrow> bool" where
  "accepts_authenticated_frame p ll f \<longleftrightarrow>
     ll_receiving_link_identity ll = af_receiving_link_identity f \<and>
     af_is_current p f \<and>
     (case hm_get (ll_peers ll) (pi_iid (af_sender f)) of
        None \<Rightarrow> False
      | Some peer \<Rightarrow>
          pi_pubkey (tp_identity peer) = pi_pubkey (af_sender f) \<and>
          tp_key_generation peer = af_peer_key_generation f \<and>
          tp_durable_key_generation peer = af_durable_peer_key_generation f) \<and>
     (case hm_get (ll_pinned ll) (pi_iid (af_sender f)) of
        None \<Rightarrow> False
      | Some pin \<Rightarrow> pin = pi_pubkey (af_sender f))"

section \<open>Peer management\<close>

definition durable_generation_for ::
  "crypto \<Rightarrow> bytes \<Rightarrow> bytes \<Rightarrow> u64 \<Rightarrow> durable_generation option" where
  "durable_generation_for c local peer serial =
     (let hash = c_sha256 c (PEER_GENERATION_DOMAIN @ local @ peer @ be_bytes 8 serial)
      in durable_from_owner_bytes (take 16 hash))"

text \<open>Both the \<open>?\<close> on the serial and a zero digest yield \<open>None\<close>; the callers \<open>expect\<close> a value.\<close>

definition allocate_durable_generation ::
  "crypto \<Rightarrow> bytes \<Rightarrow> link_layer \<Rightarrow> (link_layer \<times> durable_generation \<times> u64) option" where
  "allocate_durable_generation c peer ll =
     (let serial = ll_next_durable_generation ll in
      do { next \<leftarrow> checked_add serial 1;
           generation \<leftarrow> durable_generation_for c (id_pubkey (ll_identity ll)) peer serial;
           Some (ll\<lparr>ll_next_durable_generation := next\<rparr>, generation, serial) })"

definition unpin_peer ::
  "crypto \<Rightarrow> bytes \<Rightarrow> process \<times> link_layer \<Rightarrow> (process \<times> link_layer) option" where
  "unpin_peer c iid = (\<lambda>(p, ll).
     let ll = ll\<lparr>ll_pinned := hm_remove iid (ll_pinned ll)\<rparr> in
     case hm_get (ll_peers ll) iid of
       None \<Rightarrow> Some (p, ll)
     | Some peer \<Rightarrow>
         do { (ll, durable, serial) \<leftarrow>
                allocate_durable_generation c (pi_pubkey (tp_identity peer)) ll;
              let p = arc_store_true (tp_key_generation peer) p;
              let (p, token) = arc_new p;
              (p, gen_id) \<leftarrow> allocate_key_generation p;
              let peer = peer\<lparr>tp_key_generation := token, tp_key_generation_id := gen_id,
                    tp_durable_key_generation := durable,
                    tp_durable_generation_serial := serial,
                    tp_required_schc_floor_commitment := None\<rparr>;
              Some (p, ll\<lparr>ll_peers := hm_insert iid peer (ll_peers ll)\<rparr>) })"

text \<open>One turn of the eviction loop for the least recently used peer, then the loop.\<close>

definition retire_peer :: "bytes \<Rightarrow> tracked_peer \<Rightarrow> process \<times> link_layer \<Rightarrow> process \<times> link_layer" where
  "retire_peer iid tracked = (\<lambda>(p, ll).
     (arc_store_true (tp_key_generation tracked) p,
      ll\<lparr>ll_peers := hm_remove iid (ll_peers ll),
         ll_replay := reset_peer (pi_pubkey (tp_identity tracked)) (ll_replay ll),
         ll_pinned := hm_remove iid (ll_pinned ll)\<rparr>))"

function ll_evict_if_needed ::
  "process \<times> link_layer \<Rightarrow> peer_identity option \<Rightarrow> (process \<times> link_layer) \<times> peer_identity option" where
  "ll_evict_if_needed s evicted =
     (if length (ll_peers (snd s)) > ll_max_peers (snd s) then
        (case min_by_key (\<lambda>(_, e). tp_last_access e) (ll_peers (snd s)) of
           Some (iid, tracked) \<Rightarrow>
             ll_evict_if_needed (retire_peer iid tracked s) (Some (tp_identity tracked))
         | None \<Rightarrow> (s, evicted))
      else (s, evicted))"
  by pat_completeness auto

termination ll_evict_if_needed
  by (relation "measure (\<lambda>(s, _). length (ll_peers (snd s)))")
    (auto simp: retire_peer_def dest!: min_by_key_mem hm_remove_shorter split: prod.splits)

declare ll_evict_if_needed.simps [simp del]

definition refreshes :: "link_layer \<Rightarrow> peer_identity \<Rightarrow> tracked_peer option" where
  "refreshes ll peer =
     (case hm_get (ll_peers ll) (pi_iid peer) of
        Some existing \<Rightarrow>
          if pi_pubkey (tp_identity existing) = pi_pubkey peer then Some existing else None
      | None \<Rightarrow> None)"

text \<open>\<open>if let Some(replaced) = self.peers.insert(..)\<close> and its body.\<close>

definition insert_tracked :: "bytes \<Rightarrow> tracked_peer \<Rightarrow> process \<times> link_layer \<Rightarrow> process \<times> link_layer" where
  "insert_tracked iid tracked = (\<lambda>(p, ll).
     let replaced = hm_get (ll_peers ll) iid;
         ll = ll\<lparr>ll_peers := hm_insert iid tracked (ll_peers ll)\<rparr> in
     case replaced of
       None \<Rightarrow> (p, ll)
     | Some r \<Rightarrow> (arc_store_true (tp_key_generation r) p,
         ll\<lparr>ll_replay := reset_peer (pi_pubkey (tp_identity r)) (ll_replay ll)\<rparr>))"

definition add_peer ::
  "crypto \<Rightarrow> bytes \<Rightarrow> process \<times> link_layer \<Rightarrow>
   ((process \<times> link_layer) \<times> peer_identity option) option" where
  "add_peer c pubkey = (\<lambda>(p, ll).
     let peer = peer_from_pubkey c pubkey;
         access = sat_add (ll_access_counter ll) 1;
         ll = ll\<lparr>ll_access_counter := access\<rparr> in
     case refreshes ll peer of
       Some existing \<Rightarrow>
         Some ((p, ll\<lparr>ll_peers := hm_insert (pi_iid peer)
                   (existing\<lparr>tp_last_access := access\<rparr>) (ll_peers ll)\<rparr>), None)
     | None \<Rightarrow>
         do { (ll, durable, serial) \<leftarrow> allocate_durable_generation c (pi_pubkey peer) ll;
              let (p, token) = arc_new p;
              (p, gen_id) \<leftarrow> allocate_key_generation p;
              let tracked = \<lparr>tp_identity = peer, tp_last_access = access,
                    tp_key_generation = token, tp_key_generation_id = gen_id,
                    tp_durable_key_generation = durable,
                    tp_durable_generation_serial = serial,
                    tp_required_schc_floor_commitment = None\<rparr>;
              let retired = map_option tp_identity (hm_get (ll_peers ll) (pi_iid peer));
              let s = insert_tracked (pi_iid peer) tracked (p, ll);
              let ev = ll_evict_if_needed s None;
              Some (fst ev, case snd ev of Some e \<Rightarrow> Some e | None \<Rightarrow> retired) })"

definition remove_peer :: "bytes \<Rightarrow> process \<times> link_layer \<Rightarrow> process \<times> link_layer" where
  "remove_peer iid = (\<lambda>(p, ll).
     let (p, ll) =
       (case hm_get (ll_peers ll) iid of
          None \<Rightarrow> (p, ll)
        | Some tracked \<Rightarrow>
            (arc_store_true (tp_key_generation tracked) p,
             ll\<lparr>ll_peers := hm_remove iid (ll_peers ll),
                ll_replay := reset_peer (pi_pubkey (tp_identity tracked)) (ll_replay ll)\<rparr>))
     in (p, ll\<lparr>ll_pinned := hm_remove iid (ll_pinned ll)\<rparr>))"

definition forget_peer :: "bytes \<Rightarrow> process \<times> link_layer \<Rightarrow> process \<times> link_layer" where
  "forget_peer iid = (\<lambda>(p, ll).
     let tracked = hm_get (ll_peers ll) iid;
         peer_key = map_option (\<lambda>t. pi_pubkey (tp_identity t)) tracked;
         p = (case tracked of None \<Rightarrow> p | Some t \<Rightarrow> arc_store_true (tp_key_generation t) p);
         pinned_key = hm_get (ll_pinned ll) iid;
         ll = ll\<lparr>ll_peers := hm_remove iid (ll_peers ll),
                 ll_pinned := hm_remove iid (ll_pinned ll)\<rparr>;
         ll = (case peer_key of None \<Rightarrow> ll
               | Some key \<Rightarrow> ll\<lparr>ll_replay := reset_peer key (ll_replay ll)\<rparr>);
         ll = (case pinned_key of None \<Rightarrow> ll
               | Some key \<Rightarrow> if Some key \<noteq> peer_key
                   then ll\<lparr>ll_replay := reset_peer key (ll_replay ll)\<rparr> else ll)
     in (p, ll))"

text \<open>\<open>Drop\<close>: every token of the link layer is retired.\<close>

definition drop_link_layer :: "process \<times> link_layer \<Rightarrow> process" where
  "drop_link_layer = (\<lambda>(p, ll).
     fold (\<lambda>(_, peer). arc_store_true (tp_key_generation peer)) (ll_peers ll)
       (arc_store_true (ll_receiving_link_identity ll) p))"

section \<open>Sealed trust state\<close>

definition trust_state_body ::
  "crypto \<Rightarrow> link_layer \<Rightarrow> tracked_peer \<Rightarrow> u64 \<Rightarrow> bytes option \<Rightarrow> u8 \<Rightarrow> u16 \<Rightarrow> u32 \<Rightarrow> bytes" where
  "trust_state_body c ll peer revision schc_floor_record epoch seq win =
     (let body = TRUST_STATE_DOMAIN;
          body = body @ [1];
          body = body @ be_bytes 8 revision;
          body = body @ id_pubkey (ll_identity ll);
          body = body @ pi_pubkey (tp_identity peer);
          body = body @ tp_durable_key_generation peer;
          body = body @ be_bytes 8 (tp_durable_generation_serial peer);
          body = body @ be_bytes 8 (ll_next_durable_generation ll);
          body = (case schc_floor_record of
                    Some record \<Rightarrow> body @ [1] @ c_sha256 c record
                  | None \<Rightarrow> body @ [0] @ replicate 32 0);
          body = body @ [epoch];
          body = body @ be_bytes 2 seq
      in body @ be_bytes 4 win)"

definition persist_peer_trust_state ::
  "crypto \<Rightarrow> link_layer \<Rightarrow> bytes \<Rightarrow> u64 \<Rightarrow> bytes option \<Rightarrow> bytes \<Rightarrow>
   link_persistent_state_error + (bytes \<times> nat)" where
  "persist_peer_trust_state c ll iid revision schc_floor_record out =
     (if revision = 0 then Inl PsMalformed
      else case hm_get (ll_peers ll) iid of
        None \<Rightarrow> Inl PsMissing
      | Some peer \<Rightarrow>
          if hm_get (ll_pinned ll) iid \<noteq> Some (pi_pubkey (tp_identity peer)) then Inl PsMissing
          else case hm_get (rp_peers (ll_replay ll)) (pi_pubkey (tp_identity peer)) of
            None \<Rightarrow> Inl PsMissing
          | Some replay \<Rightarrow>
              (case persistent_parts (prs_window replay) of
                 None \<Rightarrow> Inl PsMissing
               | Some (seq, win) \<Rightarrow>
                   let body = trust_state_body c ll peer revision schc_floor_record
                         (last_epoch replay) seq win;
                       needed = length body + TRUST_STATE_SIGNATURE_LEN in
                   if length out < needed then Inl PsBufferTooSmall
                   else let signature = sign_digest c ll body;
                            out = splice out 0 body;
                            out = splice out (length body) signature
                        in Inr (out, needed)))"

definition TAIL_LEN :: nat where
  "TAIL_LEN = 1 + 8 + 32 + 32 + 16 + 8 + 8 + 1 + 32 + 1 + 2 + 4"

record trust_record =
  tr_revision :: u64
  tr_peer_key :: bytes
  tr_durable :: durable_generation
  tr_serial :: u64
  tr_next_serial :: u64
  tr_floor :: "bytes option"
  tr_last_epoch :: u8
  tr_window :: replay_window

text \<open>The validation half of \<open>restore_peer_trust_state\<close>; \<open>cursor\<close> is spelled out as offsets.\<close>

definition parse_trust_record ::
  "crypto \<Rightarrow> link_layer \<Rightarrow> bytes \<Rightarrow> u64 \<Rightarrow> link_persistent_state_error + trust_record" where
  "parse_trust_record c ll record minimum_revision =
     (let body_len = length TRUST_STATE_DOMAIN + TAIL_LEN in
      if length record \<noteq> body_len + TRUST_STATE_SIGNATURE_LEN then Inl PsMalformed
      else let body = take body_len record; signature = drop body_len record in
      if \<not> verify_profile_message (c_verify c) (id_pubkey (ll_identity ll)) body signature
      then Inl PsIntegrity
      else let cursor = length TRUST_STATE_DOMAIN in
      if body ! cursor \<noteq> 1 then Inl PsMalformed
      else let cursor = cursor + 1;
               revision = of_be (slice cursor (cursor + 8) body);
               cursor = cursor + 8 in
      if revision = 0 \<or> revision < minimum_revision then Inl PsRollback
      else if slice cursor (cursor + 32) body \<noteq> id_pubkey (ll_identity ll) then Inl PsIntegrity
      else let cursor = cursor + 32;
               peer_key = slice cursor (cursor + 32) body;
               cursor = cursor + 32;
               durable_bytes = slice cursor (cursor + 16) body;
               cursor = cursor + 16 in
      case durable_from_owner_bytes durable_bytes of
        None \<Rightarrow> Inl PsMalformed
      | Some durable \<Rightarrow>
          let serial = of_be (slice cursor (cursor + 8) body);
              cursor = cursor + 8;
              next_serial = of_be (slice cursor (cursor + 8) body);
              cursor = cursor + 8 in
          if serial = 0 \<or> next_serial \<le> serial \<or>
             durable_generation_for c (id_pubkey (ll_identity ll)) peer_key serial \<noteq> Some durable
          then Inl PsIntegrity
          else let flag = body ! cursor; commitment = slice (cursor + 1) (cursor + 33) body in
          if \<not> (flag = 0 \<and> commitment = replicate 32 0 \<or> flag = 1) then Inl PsMalformed
          else let floor = (if flag = 0 then None else Some commitment);
                   cursor = cursor + 33;
                   epoch = body ! cursor;
                   cursor = cursor + 1;
                   seq = of_be (slice cursor (cursor + 2) body);
                   cursor = cursor + 2;
                   win = of_be (slice cursor (cursor + 4) body) in
          case from_persistent_parts seq win of
            None \<Rightarrow> Inl PsMalformed
          | Some replay_window \<Rightarrow>
              Inr \<lparr>tr_revision = revision, tr_peer_key = peer_key, tr_durable = durable,
                   tr_serial = serial, tr_next_serial = next_serial, tr_floor = floor,
                   tr_last_epoch = epoch, tr_window = replay_window\<rparr>)"

text \<open>The mutation half: replay window, pin and peer are installed under a fresh token.\<close>

definition install_restored ::
  "trust_record \<Rightarrow> peer_identity \<Rightarrow> peer_key_generation \<Rightarrow> process \<times> link_layer \<Rightarrow>
   process \<times> link_layer" where
  "install_restored tr peer runtime_generation = (\<lambda>(p, ll).
     let access = sat_add (ll_access_counter ll) 1;
         raccess = sat_add (rp_access_counter (ll_replay ll)) 1;
         (p, token) = arc_new p
     in (p, ll\<lparr>ll_access_counter := access,
           ll_replay := (ll_replay ll)\<lparr>rp_access_counter := raccess,
             rp_peers := hm_insert (pi_pubkey peer)
               \<lparr>last_epoch = tr_last_epoch tr, prs_window = tr_window tr,
                prs_last_access = raccess\<rparr> (rp_peers (ll_replay ll))\<rparr>,
           ll_pinned := hm_insert (pi_iid peer) (pi_pubkey peer) (ll_pinned ll),
           ll_peers := hm_insert (pi_iid peer)
             \<lparr>tp_identity = peer, tp_last_access = access, tp_key_generation = token,
              tp_key_generation_id = runtime_generation,
              tp_durable_key_generation = tr_durable tr,
              tp_durable_generation_serial = tr_serial tr,
              tp_required_schc_floor_commitment = tr_floor tr\<rparr> (ll_peers ll),
           ll_next_durable_generation :=
             max (ll_next_durable_generation ll) (tr_next_serial tr)\<rparr>))"

definition restore_peer_trust_state ::
  "crypto \<Rightarrow> bytes \<Rightarrow> u64 \<Rightarrow> process \<times> link_layer \<Rightarrow>
   (process \<times> link_layer) \<times> (link_persistent_state_error + u64)" where
  "restore_peer_trust_state c record minimum_revision = (\<lambda>(p, ll).
     case parse_trust_record c ll record minimum_revision of
       Inl e \<Rightarrow> ((p, ll), Inl e)
     | Inr tr \<Rightarrow>
         let peer = peer_from_pubkey c (tr_peer_key tr) in
         if length (ll_peers ll) \<ge> ll_max_peers ll \<or>
            length (rp_peers (ll_replay ll)) \<ge> rp_max_peers (ll_replay ll) \<or>
            hm_get (ll_peers ll) (pi_iid peer) \<noteq> None \<or> hm_get (ll_pinned ll) (pi_iid peer) \<noteq> None
         then ((p, ll), Inl PsConflict)
         else case allocate_key_generation p of
           None \<Rightarrow> ((p, ll), Inl PsConflict)
         | Some (p, runtime_generation) \<Rightarrow>
             (install_restored tr peer runtime_generation (p, ll), Inr (tr_revision tr)))"

definition requires_schc_floor_record ::
  "crypto \<Rightarrow> link_layer \<Rightarrow> bytes \<Rightarrow> durable_generation \<Rightarrow> bool" where
  "requires_schc_floor_record c ll signer durable =
     (case hm_get (ll_peers ll) (iid_from_pubkey c signer) of
        None \<Rightarrow> False
      | Some peer \<Rightarrow> pi_pubkey (tp_identity peer) = signer \<and>
          tp_durable_key_generation peer = durable \<and>
          tp_required_schc_floor_commitment peer \<noteq> None)"

definition matches_required_schc_floor_record ::
  "crypto \<Rightarrow> link_layer \<Rightarrow> bytes \<Rightarrow> durable_generation \<Rightarrow> bytes \<Rightarrow> bool" where
  "matches_required_schc_floor_record c ll signer durable record =
     (case hm_get (ll_peers ll) (iid_from_pubkey c signer) of
        None \<Rightarrow> False
      | Some peer \<Rightarrow> pi_pubkey (tp_identity peer) = signer \<and>
          tp_durable_key_generation peer = durable \<and>
          tp_required_schc_floor_commitment peer = Some (c_sha256 c record))"

definition consume_schc_floor_record ::
  "crypto \<Rightarrow> link_layer \<Rightarrow> bytes \<Rightarrow> durable_generation \<Rightarrow> bytes \<Rightarrow> bool" where
  "consume_schc_floor_record c ll signer durable record =
     (case hm_get (ll_peers ll) (iid_from_pubkey c signer) of
        None \<Rightarrow> False
      | Some peer \<Rightarrow>
          if pi_pubkey (tp_identity peer) \<noteq> signer \<or> tp_durable_key_generation peer \<noteq> durable
          then False
          else tp_required_schc_floor_commitment peer = Some (c_sha256 c record))"

section \<open>Transmission\<close>

definition required_frame_buffer_len :: "nat \<Rightarrow> nat \<Rightarrow> frame_error + nat" where
  "required_frame_buffer_len dst_addr_len inner_payload_len =
     (case from_addr_len dst_addr_len of
        None \<Rightarrow> Inl FAddrLenMismatch
      | Some _ \<Rightarrow>
          (case do { n \<leftarrow> usize_checked_add 4 dst_addr_len;
                     n \<leftarrow> usize_checked_add n 8;
                     n \<leftarrow> usize_checked_add n inner_payload_len;
                     usize_checked_add n SIGNATURE_LENGTH } of
             None \<Rightarrow> Inl FFrameTooLarge
           | Some body_len \<Rightarrow>
               if body_len > MAX_FRAME_BODY then Inl FFrameTooLarge
               else case usize_checked_add body_len 1 of
                 None \<Rightarrow> Inl FFrameTooLarge
               | Some n \<Rightarrow> Inr n))"

definition build_frame_with_addr_mode ::
  "crypto \<Rightarrow> link_layer \<Rightarrow> u8 \<Rightarrow> link_seqnum \<Rightarrow> bytes \<Rightarrow> bytes \<Rightarrow> addr_mode \<Rightarrow> bytes \<Rightarrow>
   (frame_error + (bytes \<times> nat)) option" where
  "build_frame_with_addr_mode c ll epoch seqnum dst_addr inner_payload addr_mode out =
     (if addr_len addr_mode \<noteq> length dst_addr then Some (Inl FAddrLenMismatch)
      else case required_frame_buffer_len (length dst_addr) (length inner_payload) of
        Inl e \<Rightarrow> Some (Inl e)
      | Inr required_len \<Rightarrow>
          let llsec = (addr_mode_u8 addr_mode OR push_bit 5 1) OR LLSEC_SI_BIT;
              signer_eui64 = local_eui64 ll;
              frame_length = required_len - 1 in
          do { sig \<leftarrow> sign_frame (c_sign c) (of_nat frame_length) llsec epoch seqnum dst_addr
                 signer_eui64 inner_payload (id_privkey (ll_identity ll))
                 (id_pubkey (ll_identity ll));
               Some (frame_write_to
                 \<lparr>f_epoch = epoch, f_seqnum = seqnum, f_dst_addr = dst_addr,
                  f_signer_eui64 = signer_eui64, f_payload = inner_payload, f_mic = sig,
                  f_addr_mode = addr_mode, f_mic_length = Bits32, f_signature = SigPresent,
                  f_encryption = Plaintext\<rparr> out) })"

definition build_frame ::
  "crypto \<Rightarrow> link_layer \<Rightarrow> u8 \<Rightarrow> link_seqnum \<Rightarrow> bytes \<Rightarrow> bytes \<Rightarrow> bytes \<Rightarrow>
   (frame_error + (bytes \<times> nat)) option" where
  "build_frame c ll epoch seqnum dst_addr inner_payload out =
     (case from_addr_len (length dst_addr) of
        None \<Rightarrow> Some (Inl FAddrLenMismatch)
      | Some addr_mode \<Rightarrow>
          build_frame_with_addr_mode c ll epoch seqnum dst_addr inner_payload addr_mode out)"

section \<open>Reception\<close>

definition rx_frame_length :: "nat \<Rightarrow> nat \<Rightarrow> nat \<Rightarrow> frame_error + u8" where
  "rx_frame_length dst_addr_len signer_eui64_len payload_len =
     (case do { n \<leftarrow> usize_checked_add 4 dst_addr_len;
                n \<leftarrow> usize_checked_add n signer_eui64_len;
                n \<leftarrow> usize_checked_add n payload_len;
                usize_checked_add n SIGNATURE_LENGTH } of
        Some n \<Rightarrow> if n \<le> MAX_FRAME_BODY then Inr (of_nat n) else Inl FFrameTooLarge
      | None \<Rightarrow> Inl FFrameTooLarge)"

text \<open>
  Authentication: everything up to and including the signature check, which changes no state.
  It yields the parsed frame and the peer whose key verified it.
\<close>

definition authenticate_wire ::
  "crypto \<Rightarrow> link_layer \<Rightarrow> bytes \<Rightarrow> link_rx_error + (lichen_frame \<times> peer_identity)" where
  "authenticate_wire c ll wire =
     (case frame_from_bytes wire of
        Inl e \<Rightarrow> Inl (RxFrame e)
      | Inr f \<Rightarrow>
          if \<not> is_present (f_signature f) then Inl RxUnsigned
          else if length (f_mic f) \<noteq> SIGNATURE_LENGTH then
            Inl (RxTooShort (mk_too_short SIGNATURE_LENGTH (length (f_mic f))))
          else case rx_frame_length (length (f_dst_addr f)) (length (f_signer_eui64 f))
                      (length (f_payload f)) of
            Inl e \<Rightarrow> Inl (RxFrame e)
          | Inr frame_length \<Rightarrow>
              if length (f_signer_eui64 f) \<noteq> 8 then Inl (RxFrame FSignatureSignerMismatch)
              else let signer_iid = toggle_ul (f_signer_eui64 f) in
              (case hm_get (ll_peers ll) signer_iid of
                 None \<Rightarrow> Inl RxUnknownSender
               | Some tracked_sender \<Rightarrow>
                   let sender = tp_identity tracked_sender in
                   if f_signer_eui64 f \<noteq> toggle_ul (pi_iid sender) \<or>
                      \<not> verify_frame (c_verify c) frame_length (llsec_byte f) (f_epoch f)
                          (f_seqnum f) (f_dst_addr f) (f_signer_eui64 f) (f_payload f) (f_mic f)
                          (pi_pubkey sender)
                   then Inl RxUnknownSender
                   else Inr (f, sender)))"

text \<open>
  Admission of an authenticated frame: destination, pin, replay window, then the state
  updates. The trailing \<open>expect\<close> on the peer table is the \<open>None\<close> of the last lookup.
\<close>

definition admit_frame ::
  "link_layer \<Rightarrow> lichen_frame \<Rightarrow> peer_identity \<Rightarrow> receipt_evidence \<Rightarrow>
   (link_layer \<times> (link_rx_error + authenticated_frame)) option" where
  "admit_frame ll f sender receipt =
     (if \<not> wire_is_for_local ll f then Some (ll, Inl RxNotForUs)
      else let old_state = peer_auth_state_of ll (pi_iid sender) in
      if (case hm_get (ll_pinned ll) (pi_iid sender) of
            Some pinned \<Rightarrow> pinned \<noteq> pi_pubkey sender | None \<Rightarrow> False)
      then Some (ll, Inl RxKeyChange)
      else do {
        (replay, fresh) \<leftarrow> check_and_update (ll_replay ll) (pi_pubkey sender) (f_epoch f) (f_seqnum f);
        let ll = ll\<lparr>ll_replay := replay\<rparr>;
        if \<not> fresh then Some (ll, Inl RxReplay)
        else
          let access = sat_add (ll_access_counter ll) 1;
              ll = ll\<lparr>ll_access_counter := access\<rparr>;
              ll = (case hm_get (ll_peers ll) (pi_iid sender) of
                      None \<Rightarrow> ll
                    | Some tracked \<Rightarrow> ll\<lparr>ll_peers := hm_insert (pi_iid sender)
                        (tracked\<lparr>tp_last_access := access\<rparr>) (ll_peers ll)\<rparr>);
              ll = ll\<lparr>ll_pinned := hm_insert (pi_iid sender) (pi_pubkey sender) (ll_pinned ll)\<rparr>;
              new_state = peer_auth_state_of ll (pi_iid sender)
          in if \<not> peer_auth_can_transition_to old_state new_state then Some (ll, Inl RxKeyChange)
             else case hm_get (ll_peers ll) (pi_iid sender) of
               None \<Rightarrow> None
             | Some peer \<Rightarrow> Some (ll, Inr
                 \<lparr>af_payload = f_payload f, af_destination = f_dst_addr f,
                  af_destination_mode = f_addr_mode f, af_sender = sender,
                  af_signer_eui64 = f_signer_eui64 f, af_epoch = f_epoch f,
                  af_seqnum = f_seqnum f,
                  af_receiving_link_identity = ll_receiving_link_identity ll,
                  af_peer_key_generation = tp_key_generation peer,
                  af_peer_key_generation_id = tp_key_generation_id peer,
                  af_durable_peer_key_generation = tp_durable_key_generation peer,
                  af_receipt = receipt, af_receiving_eui64 = local_eui64 ll\<rparr>) })"

definition receive_frame_with_receipt ::
  "crypto \<Rightarrow> link_layer \<Rightarrow> bytes \<Rightarrow> receipt_evidence \<Rightarrow>
   (link_layer \<times> (link_rx_error + authenticated_frame)) option" where
  "receive_frame_with_receipt c ll wire receipt =
     (case authenticate_wire c ll wire of
        Inl e \<Rightarrow> Some (ll, Inl e)
      | Inr (f, sender) \<Rightarrow> admit_frame ll f sender receipt)"

definition receive_frame ::
  "crypto \<Rightarrow> bytes \<Rightarrow> link_layer \<Rightarrow> (link_layer \<times> (link_rx_error + authenticated_frame)) option"
  where
  "receive_frame c wire ll =
     (case next_logical (ll_receipt_clock ll) of
        (clock, Inl e) \<Rightarrow> Some (ll\<lparr>ll_receipt_clock := clock\<rparr>, Inl (rx_error_of_clock e))
      | (clock, Inr receipt) \<Rightarrow>
          receive_frame_with_receipt c (ll\<lparr>ll_receipt_clock := clock\<rparr>) wire receipt)"

definition receive_frame_at ::
  "crypto \<Rightarrow> bytes \<Rightarrow> u64 \<Rightarrow> link_layer \<Rightarrow>
   (link_layer \<times> (link_rx_error + authenticated_frame)) option" where
  "receive_frame_at c wire monotonic_millis ll =
     (case observe_millis (ll_receipt_clock ll) monotonic_millis of
        (clock, Inl e) \<Rightarrow> Some (ll\<lparr>ll_receipt_clock := clock\<rparr>, Inl (rx_error_of_clock e))
      | (clock, Inr receipt) \<Rightarrow>
          receive_frame_with_receipt c (ll\<lparr>ll_receipt_clock := clock\<rparr>) wire receipt)"

section \<open>Histories of a link layer\<close>

text \<open>The state-changing operations of the public interface, as events.\<close>

datatype rx_call = RxLogical bytes | RxMillis bytes u64

fun ll_receive ::
  "crypto \<Rightarrow> rx_call \<Rightarrow> link_layer \<Rightarrow> (link_layer \<times> (link_rx_error + authenticated_frame)) option"
  where
  "ll_receive c (RxLogical wire) ll = receive_frame c wire ll"
| "ll_receive c (RxMillis wire millis) ll = receive_frame_at c wire millis ll"

fun rx_wire :: "rx_call \<Rightarrow> bytes" where
  "rx_wire (RxLogical wire) = wire"
| "rx_wire (RxMillis wire _) = wire"

datatype link_event =
    EvAddPeer bytes
  | EvRemovePeer bytes
  | EvForgetPeer bytes
  | EvUnpinPeer bytes
  | EvReceive rx_call
  | EvRestore bytes u64

fun ll_step :: "crypto \<Rightarrow> link_event \<Rightarrow> process \<times> link_layer \<Rightarrow> (process \<times> link_layer) option" where
  "ll_step c (EvAddPeer pubkey) s = map_option fst (add_peer c pubkey s)"
| "ll_step c (EvRemovePeer iid) s = Some (remove_peer iid s)"
| "ll_step c (EvForgetPeer iid) s = Some (forget_peer iid s)"
| "ll_step c (EvUnpinPeer iid) s = unpin_peer c iid s"
| "ll_step c (EvReceive rx) s =
     map_option (\<lambda>(ll', _). (fst s, ll')) (ll_receive c rx (snd s))"
| "ll_step c (EvRestore record revision) s = Some (fst (restore_peer_trust_state c record revision s))"

primrec ll_run :: "crypto \<Rightarrow> link_event list \<Rightarrow> process \<times> link_layer \<Rightarrow> (process \<times> link_layer) option" where
  "ll_run c [] s = Some s"
| "ll_run c (e # es) s = do { s' \<leftarrow> ll_step c e s; ll_run c es s' }"

end
