(* ===== verification/Link_Security.thy ===== *)
theory Link_Security
  imports Link_Layer
begin

text \<open>
  The security argument for the link layer: an invariant of the peer table, the pins, the
  replay windows and the revocation tokens, its preservation by every operation of the public
  interface, and what follows for whole histories: no replay, revocation, authenticity,
  end-to-end delivery and the round trip of the sealed trust state.
\<close>

abbreviation tp_pubkey :: "tracked_peer \<Rightarrow> bytes" where
  "tp_pubkey t \<equiv> pi_pubkey (tp_identity t)"

section \<open>The invariant\<close>

text \<open>
  Tables are well formed and bounded; every configured peer is filed under its key-derived
  IID with a live token of its own; only configured keys have a replay window, so the tracker
  never has to evict one; pins are filed under the IID of their key.
\<close>

definition tables_ok :: "process \<Rightarrow> link_layer \<Rightarrow> bool" where
  "tables_ok p ll \<longleftrightarrow> hm_wf (ll_peers ll) \<and> ll_max_peers ll = 64 \<and>
     rp_wf (ll_replay ll) \<and> rp_max_peers (ll_replay ll) = 64 \<and>
     ll_receiving_link_identity ll < length (arcs p) \<and>
     \<not> arc_load p (ll_receiving_link_identity ll)"

definition peer_ok :: "crypto \<Rightarrow> process \<Rightarrow> nat \<Rightarrow> bytes \<Rightarrow> tracked_peer \<Rightarrow> bool" where
  "peer_ok c p token iid t \<longleftrightarrow>
     pi_iid (tp_identity t) = iid \<and> iid_from_pubkey c (tp_pubkey t) = iid \<and>
     tp_key_generation t < length (arcs p) \<and> \<not> arc_load p (tp_key_generation t) \<and>
     tp_key_generation t \<noteq> token"

definition peers_ok :: "crypto \<Rightarrow> process \<Rightarrow> link_layer \<Rightarrow> bool" where
  "peers_ok c p ll \<longleftrightarrow> (\<forall>iid t. hm_get (ll_peers ll) iid = Some t \<longrightarrow>
     peer_ok c p (ll_receiving_link_identity ll) iid t)"

definition gens_distinct :: "(bytes, tracked_peer) hmap \<Rightarrow> bool" where
  "gens_distinct peers \<longleftrightarrow> (\<forall>iid iid' t t'. hm_get peers iid = Some t \<longrightarrow>
     hm_get peers iid' = Some t' \<longrightarrow> tp_key_generation t = tp_key_generation t' \<longrightarrow> iid = iid')"

definition replay_ok :: "crypto \<Rightarrow> link_layer \<Rightarrow> bool" where
  "replay_ok c ll \<longleftrightarrow> (\<forall>pk. hm_get (rp_peers (ll_replay ll)) pk \<noteq> None \<longrightarrow>
     (\<exists>t. hm_get (ll_peers ll) (iid_from_pubkey c pk) = Some t \<and> tp_pubkey t = pk))"

definition pins_ok :: "crypto \<Rightarrow> (bytes, bytes) hmap \<Rightarrow> bool" where
  "pins_ok c pins \<longleftrightarrow> (\<forall>iid k. hm_get pins iid = Some k \<longrightarrow> iid_from_pubkey c k = iid)"

definition ll_inv0 :: "crypto \<Rightarrow> process \<times> link_layer \<Rightarrow> bool" where
  "ll_inv0 c = (\<lambda>(p, ll). tables_ok p ll \<and> peers_ok c p ll \<and> gens_distinct (ll_peers ll) \<and>
     replay_ok c ll \<and> pins_ok c (ll_pinned ll))"

definition ll_inv :: "crypto \<Rightarrow> process \<times> link_layer \<Rightarrow> bool" where
  "ll_inv c s \<longleftrightarrow> ll_inv0 c s \<and> length (ll_peers (snd s)) \<le> 64"

section \<open>What an operation may do\<close>

text \<open>
  \<open>guarded g pk e s\<close>: as long as the token \<open>g\<close> is live, the key \<open>pk\<close> is configured under it
  and the pair of epoch \<open>e\<close> and sequence number \<open>s\<close> is refused. \<open>ll_ext\<close>: tokens are only ever
  retired, and everything guarded stays guarded.
\<close>

definition guarded :: "crypto \<Rightarrow> nat \<Rightarrow> bytes \<Rightarrow> u8 \<Rightarrow> link_seqnum \<Rightarrow> process \<times> link_layer \<Rightarrow> bool" where
  "guarded c g pk e s = (\<lambda>(p, ll). g < length (arcs p) \<and>
     (\<not> arc_load p g \<longrightarrow>
        (\<exists>t. hm_get (ll_peers ll) (iid_from_pubkey c pk) = Some t \<and> tp_pubkey t = pk \<and>
             tp_key_generation t = g) \<and> rp_blocks (ll_replay ll) pk e s))"

definition arcs_le :: "process \<Rightarrow> process \<Rightarrow> bool" where
  "arcs_le p p' \<longleftrightarrow> length (arcs p) \<le> length (arcs p') \<and>
     (\<forall>a < length (arcs p). arc_load p a \<longrightarrow> arc_load p' a)"

definition ll_ext :: "crypto \<Rightarrow> process \<times> link_layer \<Rightarrow> process \<times> link_layer \<Rightarrow> bool" where
  "ll_ext c s s' \<longleftrightarrow> ll_inv0 c s' \<and> arcs_le (fst s) (fst s') \<and>
     ll_receiving_link_identity (snd s') = ll_receiving_link_identity (snd s) \<and>
     ll_identity (snd s') = ll_identity (snd s) \<and>
     (\<forall>g pk e sq. guarded c g pk e sq s \<longrightarrow> guarded c g pk e sq s')"

lemma arcs_le_refl [simp]: "arcs_le p p"
  by (simp add: arcs_le_def)

lemma arcs_le_trans: "arcs_le p q \<Longrightarrow> arcs_le q r \<Longrightarrow> arcs_le p r"
  by (auto simp: arcs_le_def)

lemma ll_ext_trans: "ll_ext c s s' \<Longrightarrow> ll_ext c s' s'' \<Longrightarrow> ll_ext c s s''"
  unfolding ll_ext_def using arcs_le_trans by metis

lemma ll_ext_refl: "ll_inv0 c s \<Longrightarrow> ll_ext c s s"
  by (simp add: ll_ext_def)

section \<open>Retiring peers\<close>

lemma arc_load_store:
  "b < length (arcs p) \<Longrightarrow> arc_load (arc_store_true a p) b \<longleftrightarrow> b = a \<or> arc_load p b"
  by (cases "a = b") (auto simp: arc_load_def arc_store_true_def)

lemma length_arcs_store [simp]: "length (arcs (arc_store_true a p)) = length (arcs p)"
  by (simp add: arc_store_true_def)

lemma arcs_le_store: "arcs_le p (arc_store_true a p)"
  by (simp add: arcs_le_def arc_load_store)

lemma rp_wf_reset: "rp_wf rp \<Longrightarrow> rp_wf (reset_peer pk rp)"
  using set_hm_remove [of pk "rp_peers rp"] length_hm_remove_le [of pk "rp_peers rp"]
  by (auto simp: rp_wf_def reset_peer_def list_all_iff)

lemma rp_get_reset: "hm_get (rp_peers (reset_peer pk rp)) k = (if k = pk then None else hm_get (rp_peers rp) k)"
  by (simp add: reset_peer_def hm_get_remove)

lemma rp_max_reset [simp]: "rp_max_peers (reset_peer pk rp) = rp_max_peers rp"
  by (simp add: reset_peer_def)

lemma rp_blocks_reset: "k \<noteq> pk \<Longrightarrow> rp_blocks (reset_peer pk rp) k e s = rp_blocks rp k e s"
  by (simp add: rp_blocks_def rp_get_reset)

lemma gens_distinct_remove: "gens_distinct m \<Longrightarrow> gens_distinct (hm_remove iid m)"
  by (auto simp: gens_distinct_def hm_get_remove split: if_splits)

lemma pins_ok_remove: "pins_ok c m \<Longrightarrow> pins_ok c (hm_remove iid m)"
  by (auto simp: pins_ok_def hm_get_remove split: if_splits)

lemma gens_distinctD:
  "gens_distinct m \<Longrightarrow> hm_get m iid = Some t \<Longrightarrow> hm_get m iid' = Some t' \<Longrightarrow> iid \<noteq> iid' \<Longrightarrow>
     tp_key_generation t \<noteq> tp_key_generation t'"
  by (auto simp: gens_distinct_def)

lemma retire_peer_inv0:
  assumes inv: "ll_inv0 c (p, ll)" and t: "hm_get (ll_peers ll) iid = Some t"
  shows "ll_inv0 c (retire_peer iid t (p, ll))"
proof -
  define p' where "p' = arc_store_true (tp_key_generation t) p"
  define ll' where "ll' = snd (retire_peer iid t (p, ll))"
  have r: "retire_peer iid t (p, ll) = (p', ll')"
    by (simp add: p'_def ll'_def retire_peer_def)
  have t_ok: "peer_ok c p (ll_receiving_link_identity ll) iid t"
    using inv t by (simp add: ll_inv0_def peers_ok_def)
  have "tables_ok p' ll'"
    using inv t_ok by (auto simp: ll_inv0_def tables_ok_def p'_def ll'_def retire_peer_def
      rp_wf_reset arc_load_store peer_ok_def)
  moreover have "peers_ok c p' ll'"
    using inv gens_distinctD [OF _ t] 
    by (fastforce simp: ll_inv0_def peers_ok_def p'_def ll'_def retire_peer_def peer_ok_def
      hm_get_remove arc_load_store split: if_splits)
  moreover have "replay_ok c ll'"
    using inv t by (fastforce simp: ll_inv0_def replay_ok_def ll'_def retire_peer_def rp_get_reset
      hm_get_remove split: if_splits)
  moreover have "gens_distinct (ll_peers ll')" "pins_ok c (ll_pinned ll')"
    using inv by (auto simp: ll_inv0_def ll'_def retire_peer_def gens_distinct_remove pins_ok_remove)
  ultimately show ?thesis
    by (simp add: r ll_inv0_def)
qed

lemma retire_peer_ext:
  assumes inv: "ll_inv0 c (p, ll)" and t: "hm_get (ll_peers ll) iid = Some t"
  shows "ll_ext c (p, ll) (retire_peer iid t (p, ll))"
proof -
  have t_ok: "peer_ok c p (ll_receiving_link_identity ll) iid t"
    using inv t by (simp add: ll_inv0_def peers_ok_def)
  have "guarded c g pk e sq (retire_peer iid t (p, ll))" if "guarded c g pk e sq (p, ll)" for g pk e sq
    using that t t_ok
    by (auto simp: guarded_def retire_peer_def hm_get_remove arc_load_store peer_ok_def)
      (metis rp_blocks_reset)
  then show ?thesis
    using retire_peer_inv0 [OF assms] by (auto simp: ll_ext_def retire_peer_def arcs_le_store)
qed

lemma ll_evict_ext:
  "ll_inv0 c s \<Longrightarrow> ll_ext c s (fst (ll_evict_if_needed s ev)) \<and>
     length (ll_peers (snd (fst (ll_evict_if_needed s ev)))) \<le> ll_max_peers (snd s)"
proof (induction s ev rule: ll_evict_if_needed.induct)
  case (1 s ev)
  show ?case
  proof (cases "ll_max_peers (snd s) < length (ll_peers (snd s))")
    case False
    then show ?thesis
      using 1(2) by (simp add: ll_evict_if_needed.simps [of s] ll_ext_refl)
  next
    case True
    let ?min = "min_by_key (\<lambda>(_, e). tp_last_access e) (ll_peers (snd s))"
    obtain iid t where m: "?min = Some (iid, t)"
      using True by (cases ?min) auto
    have "hm_get (ll_peers (snd s)) iid = Some t"
      using 1(2) min_by_key_mem [OF m] by (auto simp: ll_inv0_def tables_ok_def hm_get_mem)
    then have ext: "ll_ext c s (retire_peer iid t s)"
      using 1(2) retire_peer_ext by (cases s) auto
    have ev: "ll_evict_if_needed s ev = ll_evict_if_needed (retire_peer iid t s) (Some (tp_identity t))"
      using True m by (simp add: ll_evict_if_needed.simps [of s])
    have mx: "ll_max_peers (snd (retire_peer iid t s)) = ll_max_peers (snd s)"
      by (simp add: retire_peer_def split: prod.split)
    show ?thesis
      using 1(1) [OF True m refl] ext ll_ext_trans unfolding ev mx ll_ext_def [of c s "retire_peer iid t s"]
      by (metis ext)
  qed
qed

lemma unpin_only_ext:
  assumes "ll_inv0 c (p, ll)"
  shows "ll_ext c (p, ll) (p, ll\<lparr>ll_pinned := hm_remove iid (ll_pinned ll)\<rparr>)"
  using assms
  by (auto simp: ll_ext_def ll_inv0_def tables_ok_def peers_ok_def replay_ok_def pins_ok_remove guarded_def)

lemma remove_peer_retire:
  "remove_peer iid (p, ll) =
    (case hm_get (ll_peers ll) iid of
       None \<Rightarrow> (p, ll\<lparr>ll_pinned := hm_remove iid (ll_pinned ll)\<rparr>)
     | Some t \<Rightarrow> retire_peer iid t (p, ll))"
  by (simp add: remove_peer_def retire_peer_def split: option.split)

lemma remove_peer_ext: "ll_inv0 c s \<Longrightarrow> ll_ext c s (remove_peer iid s)"
  by (cases s) (auto simp: remove_peer_retire unpin_only_ext retire_peer_ext split: option.split)

lemma reset_absent: "hm_get (rp_peers rp) k = None \<Longrightarrow> reset_peer k rp = rp"
  by (simp add: reset_peer_def hm_remove_absent)

text \<open>Forgetting never resets another peer's window: it is removal.\<close>

lemma forget_peer_eq_remove:
  assumes "ll_inv0 c (p, ll)"
  shows "forget_peer iid (p, ll) = remove_peer iid (p, ll)"
proof -
  have pin: "hm_get (rp_peers (ll_replay ll)) k = None"
    if "hm_get (ll_pinned ll) iid = Some k" "map_option tp_pubkey (hm_get (ll_peers ll) iid) \<noteq> Some k" for k
    using assms that by (force simp: ll_inv0_def replay_ok_def pins_ok_def)
  show ?thesis
  proof (cases "hm_get (ll_peers ll) iid")
    case None
    then show ?thesis
      using pin by (auto simp: forget_peer_def remove_peer_def hm_remove_absent reset_absent Let_def
        split: option.splits)
  next
    case (Some t)
    have "reset_peer k (reset_peer (tp_pubkey t) (ll_replay ll)) = reset_peer (tp_pubkey t) (ll_replay ll)"
      if "hm_get (ll_pinned ll) iid = Some k" "k \<noteq> tp_pubkey t" for k
      using pin [OF that(1)] that Some by (intro reset_absent) (simp add: rp_get_reset)
    then show ?thesis
      using Some by (auto simp: forget_peer_def remove_peer_def Let_def split: option.splits)
  qed
qed

section \<open>Installing peers\<close>

text \<open>
  The common shape of installing, replacing, re-keying and restoring a peer: a fresh token for
  the entry, the token of any entry it replaces retired, other peers' windows untouched.
\<close>

definition put_arcs :: "process \<Rightarrow> tracked_peer option \<Rightarrow> bool list" where
  "put_arcs p old = (case old of None \<Rightarrow> arcs p @ [False]
     | Some r \<Rightarrow> (arcs p)[tp_key_generation r := True] @ [False])"

lemma length_put_arcs [simp]: "length (put_arcs p old) = Suc (length (arcs p))"
  by (simp add: put_arcs_def split: option.split)

lemma put_arcs_nth:
  "a < length (arcs p) \<Longrightarrow> put_arcs p old ! a \<longleftrightarrow>
     arc_load p a \<or> (\<exists>r. old = Some r \<and> a = tp_key_generation r)"
  "put_arcs p old ! length (arcs p) \<longleftrightarrow> False"
  by (auto simp: put_arcs_def nth_append arc_load_def nth_update_True split: option.split)

lemma put_peer_ext:
  assumes inv: "ll_inv0 c (p, ll)"
    and arcs': "arcs p' = put_arcs p (hm_get (ll_peers ll) iid)"
    and ll': "ll_peers ll' = hm_insert iid t (ll_peers ll)" "ll_max_peers ll' = ll_max_peers ll"
      "ll_receiving_link_identity ll' = ll_receiving_link_identity ll"
      "ll_identity ll' = ll_identity ll"
    and t: "tp_key_generation t = length (arcs p)" "pi_iid (tp_identity t) = iid"
      "iid_from_pubkey c (tp_pubkey t) = iid"
    and rp: "rp_wf (ll_replay ll')" "rp_max_peers (ll_replay ll') = 64"
      "\<And>pk. hm_get (rp_peers (ll_replay ll')) pk \<noteq> None \<Longrightarrow>
         pk = tp_pubkey t \<or> hm_get (rp_peers (ll_replay ll)) pk \<noteq> None \<and> iid_from_pubkey c pk \<noteq> iid"
      "\<And>pk e sq. iid_from_pubkey c pk \<noteq> iid \<Longrightarrow> rp_blocks (ll_replay ll) pk e sq \<Longrightarrow>
         rp_blocks (ll_replay ll') pk e sq"
    and pins: "pins_ok c (ll_pinned ll')"
  shows "ll_ext c (p, ll) (p', ll')"
proof -
  have old: "peer_ok c p (ll_receiving_link_identity ll) i r" if "hm_get (ll_peers ll) i = Some r" for i r
    using inv that by (simp add: ll_inv0_def peers_ok_def)
  have arc: "a < length (arcs p) \<Longrightarrow> arc_load p' a \<longleftrightarrow>
      arc_load p a \<or> (\<exists>r. hm_get (ll_peers ll) iid = Some r \<and> a = tp_key_generation r)"
    "\<not> arc_load p' (length (arcs p))" "length (arcs p') = Suc (length (arcs p))" for a
    by (simp_all add: arc_load_def [of p'] arcs' put_arcs_nth)
  have tok: "ll_receiving_link_identity ll < length (arcs p)" "\<not> arc_load p (ll_receiving_link_identity ll)"
    using inv by (auto simp: ll_inv0_def tables_ok_def)
  have gd: "gens_distinct (ll_peers ll)"
    using inv by (simp add: ll_inv0_def)
  have old_ne: "hm_get (ll_peers ll) i = Some r \<Longrightarrow> tp_key_generation r \<noteq> length (arcs p)" for i r
    using old by (fastforce simp: peer_ok_def)
  have "tables_ok p' ll'"
    using inv rp tok old by (fastforce simp: ll_inv0_def tables_ok_def ll' arc peer_ok_def)
  moreover have "peer_ok c p' (ll_receiving_link_identity ll') i r" if r: "hm_get (ll_peers ll') i = Some r" for i r
  proof (cases "i = iid")
    case True
    then have "r = t" using r by (simp add: ll')
    then show ?thesis using True tok t by (auto simp: peer_ok_def ll' arc)
  next
    case False
    then have r: "hm_get (ll_peers ll) i = Some r" using r by (simp add: ll')
    then have "tp_key_generation r \<noteq> tp_key_generation r'" if "hm_get (ll_peers ll) iid = Some r'" for r'
      using gens_distinctD [OF gd r that] False by auto
    with old [OF r] show ?thesis by (auto simp: peer_ok_def ll' arc)
  qed
  then have "peers_ok c p' ll'" by (simp add: peers_ok_def)
  moreover have "gens_distinct (ll_peers ll')"
    using gd old_ne t(1) unfolding gens_distinct_def ll' hm_get_insert
    by (auto split: if_splits) metis+
  moreover have "replay_ok c ll'"
    using inv rp(3) t(3) by (fastforce simp: ll_inv0_def replay_ok_def ll' hm_get_insert)
  ultimately have "ll_inv0 c (p', ll')"
    using pins by (simp add: ll_inv0_def)
  moreover have "guarded c g pk e sq (p', ll')" if "guarded c g pk e sq (p, ll)" for g pk e sq
    using that rp(4) by (auto simp: guarded_def ll' arc hm_get_insert)
  moreover have "arcs_le p p'"
    by (auto simp: arcs_le_def arc)
  ultimately show ?thesis
    by (simp add: ll_ext_def ll')
qed

section \<open>Refreshing a peer and updating its window\<close>

lemma put_peer_touch_ext:
  assumes inv: "ll_inv0 c (p, ll)" and t: "hm_get (ll_peers ll) iid = Some t"
    and ll': "ll_peers ll' = hm_insert iid (t\<lparr>tp_last_access := a\<rparr>) (ll_peers ll)"
      "ll_max_peers ll' = ll_max_peers ll" "ll_identity ll' = ll_identity ll"
      "ll_receiving_link_identity ll' = ll_receiving_link_identity ll" "ll_replay ll' = ll_replay ll"
    and pins: "pins_ok c (ll_pinned ll')"
  shows "ll_ext c (p, ll) (p, ll')"
proof -
  have get: "hm_get (ll_peers ll') i = (if i = iid then Some (t\<lparr>tp_last_access := a\<rparr>) else hm_get (ll_peers ll) i)" for i
    by (simp add: ll' hm_get_insert)
  have bwd: "\<exists>r0. hm_get (ll_peers ll) i = Some r0 \<and> tp_identity r0 = tp_identity r
      \<and> tp_key_generation r0 = tp_key_generation r" if "hm_get (ll_peers ll') i = Some r" for i r
    using that t by (auto simp: get split: if_splits)
  have fwd: "\<exists>r. hm_get (ll_peers ll') i = Some r \<and> tp_identity r = tp_identity r0
      \<and> tp_key_generation r = tp_key_generation r0" if "hm_get (ll_peers ll) i = Some r0" for i r0
    using that t by (auto simp: get)
  have "tables_ok p ll'"
    using inv by (simp add: ll_inv0_def tables_ok_def ll')
  moreover have "peer_ok c p (ll_receiving_link_identity ll') i r" if r: "hm_get (ll_peers ll') i = Some r" for i r
  proof -
    obtain r0 where r0: "hm_get (ll_peers ll) i = Some r0" "tp_identity r0 = tp_identity r"
        "tp_key_generation r0 = tp_key_generation r"
      using bwd [OF r] by blast
    then have "peer_ok c p (ll_receiving_link_identity ll) i r0"
      using inv by (simp add: ll_inv0_def peers_ok_def)
    then show ?thesis using r0 by (simp add: peer_ok_def ll')
  qed
  then have "peers_ok c p ll'" by (simp add: peers_ok_def)
  moreover have "gens_distinct (ll_peers ll')"
  proof -
    have "gens_distinct (ll_peers ll)" using inv by (simp add: ll_inv0_def)
    then show ?thesis unfolding gens_distinct_def using bwd by metis
  qed
  moreover have "replay_ok c ll'"
  proof -
    have "replay_ok c ll" using inv by (simp add: ll_inv0_def)
    then show ?thesis unfolding replay_ok_def ll'(5) using fwd by metis
  qed
  ultimately have "ll_inv0 c (p, ll')"
    using pins by (simp add: ll_inv0_def)
  moreover have "guarded c g pk e sq (p, ll')" if "guarded c g pk e sq (p, ll)" for g pk e sq
    using that fwd unfolding guarded_def ll'(5) prod.case by metis
  ultimately show ?thesis
    by (simp add: ll_ext_def ll')
qed

lemma replay_ext:
  assumes inv: "ll_inv0 c (p, ll)" and len: "length (ll_peers ll) \<le> 64"
    and t: "hm_get (ll_peers ll) (iid_from_pubkey c pk) = Some t" "tp_pubkey t = pk"
    and cu: "check_and_update (ll_replay ll) pk e sq = Some (rp', ok)"
  shows "ll_ext c (p, ll) (p, ll\<lparr>ll_replay := rp'\<rparr>) \<and> ok = (\<not> rp_blocks (ll_replay ll) pk e sq)
    \<and> rp_blocks rp' pk e sq"
proof -
  have wf: "rp_wf (ll_replay ll)" and mx: "rp_max_peers (ll_replay ll) = 64"
    using inv by (auto simp: ll_inv0_def tables_ok_def)
  have room: "rp_room (ll_replay ll) pk"
  proof (rule ccontr)
    let ?D = "dom (hm_get (rp_peers (ll_replay ll)))"
    assume no: "\<not> ?thesis"
    then have "pk \<notin> ?D" and D: "64 \<le> card ?D"
      using wf mx by (auto simp: rp_room_def rp_wf_def hm_length_dom)
    moreover have sub: "insert pk ?D \<subseteq> (\<lambda>(_, t). tp_pubkey t) ` set (ll_peers ll)"
      using inv t by (force simp: ll_inv0_def replay_ok_def dest: hm_get_SomeD)
    moreover have "finite ?D"
      using finite_subset [OF sub] by simp
    ultimately have "64 < card (insert pk ?D)"
      by simp
    also have "\<dots> \<le> card (set (ll_peers ll))"
      using surj_card_le [OF finite_set sub] .
    finally show False
      using card_length [of "ll_peers ll"] len by simp
  qed
  obtain rp'' where cu': "check_and_update (ll_replay ll) pk e sq = Some (rp'', \<not> rp_blocks (ll_replay ll) pk e sq)"
    and wf': "rp_wf rp''" and mx': "rp_max_peers rp'' = rp_max_peers (ll_replay ll)"
    and dom': "dom (hm_get (rp_peers rp'')) = insert pk (dom (hm_get (rp_peers (ll_replay ll))))"
    and bl: "\<forall>pk' e' s'. rp_blocks rp'' pk' e' s' \<longleftrightarrow> rp_blocks (ll_replay ll) pk' e' s' \<or>
             (pk' = pk \<and> (e' = e \<and> s' = sq \<or> \<not> rp_blocks (ll_replay ll) pk e sq \<and>
                (e' < e \<or> e' = e \<and> unat s' + 32 \<le> unat sq)))"
    using check_and_update_spec [OF wf, of pk e sq] room by blast
  have rp': "rp'' = rp'" and ok: "ok = (\<not> rp_blocks (ll_replay ll) pk e sq)"
    using cu cu' by simp_all
  note wf' = wf' [unfolded rp'] and mx' = mx' [unfolded rp'] and dom' = dom' [unfolded rp']
  have mono: "rp_blocks (ll_replay ll) pk' e' s' \<Longrightarrow> rp_blocks rp' pk' e' s'" for pk' e' s'
    using bl unfolding rp' by blast
  have bl': "rp_blocks rp' pk e sq"
    using bl unfolding rp' by blast
  have "k = pk \<or> hm_get (rp_peers (ll_replay ll)) k \<noteq> None" if "hm_get (rp_peers rp') k \<noteq> None" for k
    using dom' that by (metis domIff insert_iff)
  then have "replay_ok c (ll\<lparr>ll_replay := rp'\<rparr>)"
    using inv t unfolding ll_inv0_def replay_ok_def by force
  then have "ll_inv0 c (p, ll\<lparr>ll_replay := rp'\<rparr>)"
    using inv wf' mx mx' by (auto simp: ll_inv0_def tables_ok_def peers_ok_def)
  then show ?thesis
    using ok mono bl' by (auto simp: ll_ext_def guarded_def)
qed

lemma allocate_durable_SomeD:
  "allocate_durable_generation c pk ll = Some (ll', d, n) \<Longrightarrow>
     \<exists>m. ll' = ll\<lparr>ll_next_durable_generation := m\<rparr>"
  by (auto simp: allocate_durable_generation_def Let_def bind_eq_Some_conv)

lemma allocate_key_generation_SomeD:
  "allocate_key_generation p = Some (p', n) \<Longrightarrow> arcs p' = arcs p"
  by (auto simp: allocate_key_generation_def split: option.splits if_splits)

lemma unpin_peer_ext:
  assumes inv: "ll_inv0 c (p, ll)" and step: "unpin_peer c iid (p, ll) = Some s'"
  shows "ll_ext c (p, ll) s' \<and> length (ll_peers (snd s')) = length (ll_peers ll)"
proof (cases "hm_get (ll_peers ll) iid")
  case None
  then have "s' = (p, ll\<lparr>ll_pinned := hm_remove iid (ll_pinned ll)\<rparr>)"
    using step by (simp add: unpin_peer_def Let_def)
  then show ?thesis using unpin_only_ext [OF inv] by simp
next
  case (Some t)
  let ?ll0 = "ll\<lparr>ll_pinned := hm_remove iid (ll_pinned ll)\<rparr>"
  have inv': "ll_inv0 c (p, ?ll0)"
    using unpin_only_ext [OF inv] by (simp add: ll_ext_def)
  obtain p1 ll1 d n gid where dur: "allocate_durable_generation c (tp_pubkey t) ?ll0 = Some (ll1, d, n)"
    and gen: "allocate_key_generation (fst (arc_new (arc_store_true (tp_key_generation t) p))) = Some (p1, gid)"
    and s': "s' = (p1, ll1\<lparr>ll_peers := hm_insert iid (t\<lparr>tp_key_generation := length (arcs p),
        tp_key_generation_id := gid, tp_durable_key_generation := d,
        tp_durable_generation_serial := n, tp_required_schc_floor_commitment := None\<rparr>) (ll_peers ll1)\<rparr>)"
    using step Some by (auto simp: unpin_peer_def Let_def bind_eq_Some_conv arc_new_def)
  obtain m where ll1: "ll1 = ?ll0\<lparr>ll_next_durable_generation := m\<rparr>"
    using allocate_durable_SomeD [OF dur] by blast
  have t: "peer_ok c p (ll_receiving_link_identity ll) iid t"
    using inv Some by (simp add: ll_inv0_def peers_ok_def)
  have keys: "pk = tp_pubkey t \<or> hm_get (rp_peers (ll_replay ll)) pk \<noteq> None \<and> iid_from_pubkey c pk \<noteq> iid"
    if "hm_get (rp_peers (ll_replay ll)) pk \<noteq> None" for pk
    using inv that Some unfolding ll_inv0_def replay_ok_def prod.case by fastforce
  have keys': "pk = tp_pubkey t \<or> iid_from_pubkey c pk \<noteq> iid"
    if "hm_get (rp_peers (ll_replay ll)) pk = Some y" for pk y
    using keys [of pk] that by auto
  have "ll_ext c (p, ?ll0) s'"
    unfolding s'
    by (rule put_peer_ext [OF inv', where iid = iid])
      (use Some t inv' allocate_key_generation_SomeD [OF gen] in
        \<open>auto simp: ll1 put_arcs_def arc_new_def arc_store_true_def peer_ok_def ll_inv0_def tables_ok_def
          dest: keys'\<close>)
  moreover have "length (ll_peers (snd s')) = length (ll_peers ll)"
    using Some by (simp add: s' ll1 length_hm_insert)
  ultimately show ?thesis
    using unpin_only_ext [OF inv] ll_ext_trans by blast
qed

lemma insert_tracked_ext:
  assumes inv: "ll_inv0 c (p, ll)" and p1: "arcs p1 = arcs p @ [False]"
    and fields: "ll_peers ll1 = ll_peers ll" "ll_replay ll1 = ll_replay ll" "ll_pinned ll1 = ll_pinned ll"
      "ll_max_peers ll1 = ll_max_peers ll" "ll_identity ll1 = ll_identity ll"
      "ll_receiving_link_identity ll1 = ll_receiving_link_identity ll"
    and t: "tp_key_generation t = length (arcs p)" "pi_iid (tp_identity t) = iid"
      "iid_from_pubkey c (tp_pubkey t) = iid"
  shows "ll_ext c (p, ll) (insert_tracked iid t (p1, ll1))"
proof -
  have wf: "rp_wf (ll_replay ll)" "rp_max_peers (ll_replay ll) = 64" "pins_ok c (ll_pinned ll)"
    using inv by (auto simp: ll_inv0_def tables_ok_def)
  have rpk: "\<exists>r. hm_get (ll_peers ll) (iid_from_pubkey c pk) = Some r \<and> tp_pubkey r = pk"
    if "hm_get (rp_peers (ll_replay ll)) pk \<noteq> None" for pk
    using inv that by (simp add: ll_inv0_def replay_ok_def)
  show ?thesis
  proof (cases "hm_get (ll_peers ll) iid")
    case None
    then have s: "insert_tracked iid t (p1, ll1) = (p1, ll1\<lparr>ll_peers := hm_insert iid t (ll_peers ll)\<rparr>)"
      by (simp add: insert_tracked_def fields)
    have "iid_from_pubkey c pk \<noteq> iid" if "hm_get (rp_peers (ll_replay ll)) pk \<noteq> None" for pk
      using rpk [OF that] None by auto
    then show ?thesis
      unfolding s by (intro put_peer_ext [OF inv, where iid = iid and t = t])
        (simp_all add: None wf t fields put_arcs_def p1)
  next
    case (Some r)
    then have s: "insert_tracked iid t (p1, ll1) = (arc_store_true (tp_key_generation r) p1,
        ll1\<lparr>ll_peers := hm_insert iid t (ll_peers ll), ll_replay := reset_peer (tp_pubkey r) (ll_replay ll)\<rparr>)"
      by (simp add: insert_tracked_def fields)
    have r: "tp_key_generation r < length (arcs p)" "iid_from_pubkey c (tp_pubkey r) = iid"
      using inv Some by (auto simp: ll_inv0_def peers_ok_def peer_ok_def)
    have "iid_from_pubkey c pk \<noteq> iid"
      if "hm_get (rp_peers (ll_replay ll)) pk \<noteq> None" "pk \<noteq> tp_pubkey r" for pk
      using rpk [OF that(1)] Some that(2) by auto
    moreover have "iid_from_pubkey c pk \<noteq> iid \<Longrightarrow> pk \<noteq> tp_pubkey r" for pk
      using r by auto
    ultimately show ?thesis
      unfolding s by (intro put_peer_ext [OF inv, where iid = iid and t = t])
        (simp_all add: Some wf t r fields put_arcs_def p1 arc_store_true_def list_update_append
          rp_wf_reset rp_get_reset rp_blocks_reset split: if_splits)
  qed
qed

lemma add_peer_ext:
  assumes inv: "ll_inv c (p, ll)" and step: "add_peer c pk (p, ll) = Some (s', r)"
  shows "ll_ext c (p, ll) s' \<and> length (ll_peers (snd s')) \<le> 64"
proof -
  define peer where "peer = peer_from_pubkey c pk"
  define ll0 where "ll0 = ll\<lparr>ll_access_counter := sat_add (ll_access_counter ll) 1\<rparr>"
  have peer: "pi_pubkey peer = pk" "pi_iid peer = iid_from_pubkey c pk"
    by (simp_all add: peer_def peer_from_pubkey_def)
  have inv0: "ll_inv0 c (p, ll)" and len: "length (ll_peers ll) \<le> 64"
    using inv by (auto simp: ll_inv_def)
  show ?thesis
  proof (cases "refreshes ll0 peer")
    case (Some t)
    then have t: "hm_get (ll_peers ll) (pi_iid peer) = Some t"
      by (auto simp: refreshes_def ll0_def split: option.splits if_splits)
    have s': "s' = (p, ll0\<lparr>ll_peers := hm_insert (pi_iid peer)
        (t\<lparr>tp_last_access := ll_access_counter ll0\<rparr>) (ll_peers ll0)\<rparr>)"
      using step Some by (simp add: add_peer_def Let_def peer_def [symmetric] ll0_def)
    have "ll_ext c (p, ll) s'"
      unfolding s' by (rule put_peer_touch_ext [OF inv0 t]) (use inv0 in \<open>auto simp: ll0_def ll_inv0_def\<close>)
    then show ?thesis
      using t len by (simp add: s' ll0_def length_hm_insert)
  next
    case None
    define old where "old = hm_get (ll_peers ll) (pi_iid peer)"
    obtain p1 ll1 d n gid where dur: "allocate_durable_generation c pk ll0 = Some (ll1, d, n)"
      and gen: "allocate_key_generation (fst (arc_new p)) = Some (p1, gid)"
      and s': "s' = fst (ll_evict_if_needed (insert_tracked (pi_iid peer) \<lparr>tp_identity = peer,
             tp_last_access = ll_access_counter ll0, tp_key_generation = length (arcs p),
             tp_key_generation_id = gid, tp_durable_key_generation = d,
             tp_durable_generation_serial = n, tp_required_schc_floor_commitment = None\<rparr> (p1, ll1)) None)"
        (is "_ = fst (ll_evict_if_needed (insert_tracked _ ?t _) None)")
      using step None
      by (auto simp: add_peer_def Let_def peer_def [symmetric] ll0_def peer bind_eq_Some_conv arc_new_def)
    obtain m where ll1: "ll1 = ll0\<lparr>ll_next_durable_generation := m\<rparr>"
      using allocate_durable_SomeD [OF dur] by blast
    have p1: "arcs p1 = arcs p @ [False]"
      using allocate_key_generation_SomeD [OF gen] by (simp add: arc_new_def)
    have fields: "ll_peers ll1 = ll_peers ll" "ll_replay ll1 = ll_replay ll" "ll_pinned ll1 = ll_pinned ll"
      "ll_max_peers ll1 = ll_max_peers ll" "ll_identity ll1 = ll_identity ll"
      "ll_receiving_link_identity ll1 = ll_receiving_link_identity ll"
      by (simp_all add: ll1 ll0_def)
    have ext: "ll_ext c (p, ll) (insert_tracked (pi_iid peer) ?t (p1, ll1))"
      by (rule insert_tracked_ext [OF inv0 p1 fields]) (simp_all add: peer)
    have "ll_max_peers (snd (insert_tracked (pi_iid peer) ?t (p1, ll1))) = 64"
      using inv0 fields
      by (simp add: insert_tracked_def Let_def ll_inv0_def tables_ok_def split: option.split)
    moreover have inv1: "ll_inv0 c (insert_tracked (pi_iid peer) ?t (p1, ll1))"
      using ext by (simp add: ll_ext_def)
    ultimately have "ll_ext c (insert_tracked (pi_iid peer) ?t (p1, ll1)) s'"
        and len': "length (ll_peers (snd s')) \<le> 64"
      using ll_evict_ext [OF inv1, of None] unfolding s' by simp_all
    then show ?thesis
      using ll_ext_trans [OF ext] by simp
  qed
qed

lemma from_persistent_parts_wf: "from_persistent_parts q win = Some w \<Longrightarrow> rw_wf w"
  by (auto simp: from_persistent_parts_def rw_wf_def bit_0 and_one_eq odd_iff_mod_2_eq_one
    split: if_splits)

lemma parse_trust_record_wf: "parse_trust_record c ll record minrev = Inr tr \<Longrightarrow> rw_wf (tr_window tr)"
  by (auto simp: parse_trust_record_def Let_def from_persistent_parts_wf split: if_splits option.splits)

lemma install_restored_ext:
  assumes inv: "ll_inv0 c (p, ll)" and p1: "arcs p1 = arcs p"
    and peer: "pi_iid peer = iid_from_pubkey c (pi_pubkey peer)"
    and new: "hm_get (ll_peers ll) (pi_iid peer) = None" "length (rp_peers (ll_replay ll)) < 64"
    and wf: "rw_wf (tr_window tr)"
  shows "ll_ext c (p, ll) (install_restored tr peer gid (p1, ll))"
proof -
  define p' where "p' = fst (install_restored tr peer gid (p1, ll))"
  define ll' where "ll' = snd (install_restored tr peer gid (p1, ll))"
  define rs where "rs = the (hm_get (rp_peers (ll_replay ll')) (pi_pubkey peer))"
  have rs: "prs_window rs = tr_window tr"
    "rp_peers (ll_replay ll') = hm_insert (pi_pubkey peer) rs (rp_peers (ll_replay ll))"
    by (simp_all add: rs_def ll'_def install_restored_def Let_def arc_new_def)
  have rp: "rp_wf (ll_replay ll)" "rp_max_peers (ll_replay ll) = 64" "pins_ok c (ll_pinned ll)"
    using inv by (auto simp: ll_inv0_def tables_ok_def)
  have mx: "rp_max_peers (ll_replay ll') = 64"
    using rp by (simp add: ll'_def install_restored_def Let_def arc_new_def)
  have none: "iid_from_pubkey c pk \<noteq> pi_iid peer" if "hm_get (rp_peers (ll_replay ll)) pk \<noteq> None" for pk
    using inv that new by (auto simp: ll_inv0_def replay_ok_def)
  have "list_all (\<lambda>(_, st). rw_wf (prs_window st)) (rp_peers (ll_replay ll'))"
    unfolding rs using rp wf rs by (intro list_all_hm_insert) (auto simp: rp_wf_def)
  then have "rp_wf (ll_replay ll')"
    using rp mx new(2) unfolding rp_wf_def rs by (simp add: length_hm_insert)
  moreover have "rp_blocks (ll_replay ll') pk e sq = rp_blocks (ll_replay ll) pk e sq"
    if "iid_from_pubkey c pk \<noteq> pi_iid peer" for pk e sq
    using that peer by (auto simp: rp_blocks_def rs hm_get_insert)
  moreover have "pk = pi_pubkey peer \<or> hm_get (rp_peers (ll_replay ll)) pk \<noteq> None \<and> iid_from_pubkey c pk \<noteq> pi_iid peer"
    if "hm_get (rp_peers (ll_replay ll')) pk \<noteq> None" for pk
    using that none by (auto simp: rs hm_get_insert split: if_splits)
  moreover have "pins_ok c (ll_pinned ll')"
    using rp peer by (auto simp: pins_ok_def ll'_def install_restored_def Let_def arc_new_def hm_get_insert)
  ultimately have "ll_ext c (p, ll) (p', ll')"
    by (intro put_peer_ext [OF inv, where iid = "pi_iid peer" and t = "the (hm_get (ll_peers ll') (pi_iid peer))"])
      (simp_all add: p'_def ll'_def install_restored_def Let_def arc_new_def new(1) [unfolded peer] peer
        put_arcs_def p1 rp)
  then show ?thesis
    by (simp add: p'_def ll'_def)
qed

lemma restore_ext:
  assumes inv: "ll_inv c (p, ll)"
  shows "ll_ext c (p, ll) (fst (restore_peer_trust_state c record minrev (p, ll)))
    \<and> length (ll_peers (snd (fst (restore_peer_trust_state c record minrev (p, ll))))) \<le> 64"
proof -
  have inv0: "ll_inv0 c (p, ll)" and len: "length (ll_peers ll) \<le> 64"
    using inv by (auto simp: ll_inv_def)
  have mx: "ll_max_peers ll = 64" "rp_max_peers (ll_replay ll) = 64"
    using inv0 by (auto simp: ll_inv0_def tables_ok_def)
  show ?thesis
  proof (cases "fst (restore_peer_trust_state c record minrev (p, ll)) = (p, ll)")
    case True
    then show ?thesis using inv0 len by (simp add: ll_ext_refl)
  next
    case False
    obtain tr where tr: "parse_trust_record c ll record minrev = Inr tr"
      using False by (cases "parse_trust_record c ll record minrev") (auto simp: restore_peer_trust_state_def)
    define peer where "peer = peer_from_pubkey c (tr_peer_key tr)"
    obtain p1 gid where gen: "allocate_key_generation p = Some (p1, gid)"
      and new: "length (ll_peers ll) < 64" "hm_get (ll_peers ll) (pi_iid peer) = None"
        "length (rp_peers (ll_replay ll)) < 64"
      and s': "fst (restore_peer_trust_state c record minrev (p, ll)) = install_restored tr peer gid (p1, ll)"
      using False tr by (auto simp: restore_peer_trust_state_def Let_def peer_def [symmetric] mx
        split: if_splits option.splits)
    have "ll_ext c (p, ll) (install_restored tr peer gid (p1, ll))"
      by (rule install_restored_ext [OF inv0 allocate_key_generation_SomeD [OF gen] _ new(2,3)
          parse_trust_record_wf [OF tr]]) (simp add: peer_def peer_from_pubkey_def)
    then show ?thesis
      using new unfolding s' by (simp add: install_restored_def Let_def arc_new_def length_hm_insert)
  qed
qed

section \<open>Reception\<close>

lemma authenticate_wire_InrD:
  assumes "authenticate_wire c ll wire = Inr (f, sender)"
  shows "frame_from_bytes wire = Inr f \<and> f_signature f = SigPresent \<and> length (f_mic f) = SIGNATURE_LENGTH
    \<and> f_signer_eui64 f = toggle_ul (pi_iid sender)
    \<and> (\<exists>t. hm_get (ll_peers ll) (toggle_ul (f_signer_eui64 f)) = Some t \<and> tp_identity t = sender)
    \<and> c_verify c (pi_pubkey sender) (build_signable (wire ! 0) (llsec_byte f) (f_epoch f) (f_seqnum f)
         (f_dst_addr f) (f_signer_eui64 f) (f_payload f)) (f_mic f)"
proof -
  obtain n where f: "frame_from_bytes wire = Inr f" "is_present (f_signature f)" "length (f_mic f) = SIGNATURE_LENGTH"
    and n: "rx_frame_length (length (f_dst_addr f)) (length (f_signer_eui64 f)) (length (f_payload f)) = Inr n"
    and peer: "f_signer_eui64 f = toggle_ul (pi_iid sender)"
      "\<exists>t. hm_get (ll_peers ll) (toggle_ul (f_signer_eui64 f)) = Some t \<and> tp_identity t = sender"
    and v: "verify_frame (c_verify c) n (llsec_byte f) (f_epoch f) (f_seqnum f) (f_dst_addr f)
      (f_signer_eui64 f) (f_payload f) (f_mic f) (pi_pubkey sender)"
    using assms by (auto simp: authenticate_wire_def Let_def split: sum.splits if_splits option.splits)
  have wf: "frame_valid f" "wire = frame_wire f"
    using frame_from_bytes_InrD [OF f(1)] by auto
  have "length (frame_body f) = 4 + length (f_dst_addr f) + length (f_signer_eui64 f) + length (f_payload f) + 48"
    using f(3) by (simp add: frame_body_def SIGNATURE_LENGTH_def)
  then have "n = wire ! 0"
    using n frame_valid_body_len [OF wf(1)] unfolding wf(2)
    by (simp add: rx_frame_length_def usize_checked_add_def SIGNATURE_LENGTH_def frame_consts frame_wire_def
      split: if_splits)
  then show ?thesis
    using f peer v by (auto simp: verify_frame_def is_present_def split: if_splits)
qed

lemma toggle_ul_id: "toggle_ul (toggle_ul x) = x"
  by (cases x) (simp_all add: toggle_ul_def xor.assoc)

definition sender_pinned_ok :: "link_layer \<Rightarrow> peer_identity \<Rightarrow> bool" where
  "sender_pinned_ok ll sender \<longleftrightarrow>
     hm_get (ll_pinned ll) (pi_iid sender) \<in> {None, Some (pi_pubkey sender)}"

text \<open>The evidence for an admitted frame, and the verdict as a function of the state.\<close>

definition evidence_of ::
  "link_layer \<Rightarrow> tracked_peer \<Rightarrow> lichen_frame \<Rightarrow> receipt_evidence \<Rightarrow> authenticated_frame" where
  "evidence_of ll t f receipt =
     \<lparr>af_payload = f_payload f, af_destination = f_dst_addr f,
      af_destination_mode = f_addr_mode f, af_sender = tp_identity t,
      af_signer_eui64 = f_signer_eui64 f, af_epoch = f_epoch f, af_seqnum = f_seqnum f,
      af_receiving_link_identity = ll_receiving_link_identity ll,
      af_peer_key_generation = tp_key_generation t,
      af_peer_key_generation_id = tp_key_generation_id t,
      af_durable_peer_key_generation = tp_durable_key_generation t,
      af_receipt = receipt, af_receiving_eui64 = local_eui64 ll\<rparr>"

definition admit_result ::
  "link_layer \<Rightarrow> tracked_peer \<Rightarrow> lichen_frame \<Rightarrow> receipt_evidence \<Rightarrow>
   link_rx_error + authenticated_frame" where
  "admit_result ll t f receipt =
     (if \<not> wire_is_for_local ll f then Inl RxNotForUs
      else if \<not> sender_pinned_ok ll (tp_identity t) then Inl RxKeyChange
      else if rp_blocks (ll_replay ll) (tp_pubkey t) (f_epoch f) (f_seqnum f) then Inl RxReplay
      else Inr (evidence_of ll t f receipt))"

lemma admit_result_Inr_iff:
  "admit_result ll t f receipt = Inr af \<longleftrightarrow>
     wire_is_for_local ll f \<and> sender_pinned_ok ll (tp_identity t) \<and>
     \<not> rp_blocks (ll_replay ll) (tp_pubkey t) (f_epoch f) (f_seqnum f) \<and>
     af = evidence_of ll t f receipt"
  by (auto simp: admit_result_def)

lemma admit_frame_spec:
  assumes inv: "ll_inv c (p, ll)" and t: "hm_get (ll_peers ll) (pi_iid (tp_identity t)) = Some t"
  defines "pk \<equiv> tp_pubkey t"
  obtains ll' res where "admit_frame ll f (tp_identity t) receipt = Some (ll', res)"
    and "ll_ext c (p, ll) (p, ll')" and "length (ll_peers ll') = length (ll_peers ll)"
    and "res = admit_result ll t f receipt"
    and "\<And>af. res = Inr af \<Longrightarrow> accepts_authenticated_frame p ll' af
          \<and> rp_blocks (ll_replay ll') pk (f_epoch f) (f_seqnum f)"
proof -
  let ?iid = "pi_iid (tp_identity t)"
  have inv0: "ll_inv0 c (p, ll)" and len: "length (ll_peers ll) \<le> 64"
    using inv by (auto simp: ll_inv_def)
  have tok: "peer_ok c p (ll_receiving_link_identity ll) ?iid t"
    and link: "\<not> arc_load p (ll_receiving_link_identity ll)" and pins: "pins_ok c (ll_pinned ll)"
    using inv0 t by (simp_all add: ll_inv0_def peers_ok_def tables_ok_def)
  have iid: "iid_from_pubkey c pk = ?iid"
    using tok by (simp add: peer_ok_def pk_def)
  have t': "hm_get (ll_peers ll) (iid_from_pubkey c pk) = Some t" "tp_pubkey t = pk"
    using t iid by (simp_all add: pk_def)
  note defs = admit_frame_def Let_def
  have kc: "(case hm_get (ll_pinned ll) ?iid of Some pinned \<Rightarrow> pinned \<noteq> tp_pubkey t | None \<Rightarrow> False)
      \<longleftrightarrow> \<not> sender_pinned_ok ll (tp_identity t)"
    by (auto simp: sender_pinned_ok_def pk_def split: option.splits)
  show thesis
  proof (cases "wire_is_for_local ll f \<and> sender_pinned_ok ll (tp_identity t)")
    case False
    show thesis
      by (rule that [of ll "if \<not> wire_is_for_local ll f then Inl RxNotForUs else Inl RxKeyChange"])
        (use False ll_ext_refl [OF inv0] in \<open>simp_all add: defs kc admit_result_def split: if_splits\<close>)
  next
    case True
    obtain rp' where cu: "check_and_update (ll_replay ll) pk (f_epoch f) (f_seqnum f)
        = Some (rp', \<not> rp_blocks (ll_replay ll) pk (f_epoch f) (f_seqnum f))"
      using check_and_update_spec inv0 unfolding ll_inv0_def tables_ok_def prod.case by blast
    note rep = replay_ext [OF inv0 len t' cu]
    show thesis
    proof (cases "rp_blocks (ll_replay ll) pk (f_epoch f) (f_seqnum f)")
      case blocked: True
      show thesis
        by (rule that [of "ll\<lparr>ll_replay := rp'\<rparr>" "Inl RxReplay"])
          (use True rep blocked in \<open>simp_all add: defs kc admit_result_def cu [unfolded pk_def] pk_def\<close>)
    next
      case fresh: False
      define acc where "acc = sat_add (ll_access_counter ll) 1"
      define ll' where "ll' = ll\<lparr>ll_replay := rp', ll_access_counter := acc,
        ll_peers := hm_insert ?iid (t\<lparr>tp_last_access := acc\<rparr>) (ll_peers ll),
        ll_pinned := hm_insert ?iid pk (ll_pinned ll)\<rparr>"
      define af where "af = evidence_of ll t f receipt"
      have "peer_auth_can_transition_to (peer_auth_state_of ll ?iid) (peer_auth_state_of ll' ?iid)"
        using t True by (auto simp: peer_auth_state_of_def ll'_def sender_pinned_ok_def pk_def)
      then have "admit_frame ll f (tp_identity t) receipt = Some (ll', Inr af)"
        using True fresh t by (simp add: defs kc cu [unfolded pk_def] pk_def acc_def ll'_def af_def evidence_of_def local_eui64_def)
      moreover have "ll_ext c (p, ll\<lparr>ll_replay := rp'\<rparr>) (p, ll')"
        by (rule put_peer_touch_ext [where iid = ?iid and t = t and a = acc])
          (use rep t pins iid in \<open>auto simp: ll_ext_def ll'_def pins_ok_def hm_get_insert\<close>)
      then have "ll_ext c (p, ll) (p, ll')"
        using rep ll_ext_trans by blast
      moreover have "length (ll_peers ll') = length (ll_peers ll)"
        using t by (simp add: ll'_def length_hm_insert)
      moreover have "accepts_authenticated_frame p ll' af"
        using tok link by (simp add: accepts_authenticated_frame_def af_def evidence_of_def ll'_def af_is_current_def
          peer_ok_def pk_def)
      moreover have "rp_blocks (ll_replay ll') pk (f_epoch f) (f_seqnum f)"
        using rep by (simp add: ll'_def)
      ultimately show thesis
        using True fresh by (intro that [of ll' "Inr af"])
          (simp_all add: af_def admit_result_def pk_def)
    qed
  qed
qed

lemma clock_ext: "ll_inv0 c (p, ll) \<Longrightarrow> ll_ext c (p, ll) (p, ll\<lparr>ll_receipt_clock := k\<rparr>)"
  by (auto simp: ll_ext_def ll_inv0_def tables_ok_def peers_ok_def replay_ok_def guarded_def)

lemma clock_inv: "ll_inv c (p, ll) \<Longrightarrow> ll_inv c (p, ll\<lparr>ll_receipt_clock := k\<rparr>)"
  using clock_ext [of c p ll k] by (simp add: ll_inv_def ll_ext_def)

text \<open>Both reception calls advance the clock first; then either the clock refuses, or the frame
  is processed with the receipt.\<close>

lemma ll_receive_cases:
  obtains (clock) k e where "ll_receive c rx ll = Some (ll\<lparr>ll_receipt_clock := k\<rparr>, Inl (rx_error_of_clock e))"
  | (process) k receipt where
      "ll_receive c rx ll = receive_frame_with_receipt c (ll\<lparr>ll_receipt_clock := k\<rparr>) (rx_wire rx) receipt"
proof -
  obtain k r where kr: "(case rx of RxLogical _ \<Rightarrow> next_logical (ll_receipt_clock ll)
      | RxMillis _ ms \<Rightarrow> observe_millis (ll_receipt_clock ll) ms) = (k, r)"
    by (cases "case rx of RxLogical _ \<Rightarrow> next_logical (ll_receipt_clock ll)
      | RxMillis _ ms \<Rightarrow> observe_millis (ll_receipt_clock ll) ms")
  show ?thesis
  proof (cases r)
    case (Inl e)
    with kr show ?thesis
      by (intro clock [of k e]) (cases rx; simp add: receive_frame_def receive_frame_at_def)
  next
    case (Inr receipt)
    with kr show ?thesis
      by (intro process [of k receipt]) (cases rx; simp add: receive_frame_def receive_frame_at_def)
  qed
qed

lemma ll_receive_total:
  assumes inv: "ll_inv c (p, ll)"
  obtains ll' res where "ll_receive c rx ll = Some (ll', res)" and "ll_ext c (p, ll) (p, ll')"
    and "length (ll_peers ll') = length (ll_peers ll)"
    and "\<And>af. res = Inr af \<Longrightarrow> accepts_authenticated_frame p ll' af \<and>
       guarded c (af_peer_key_generation af) (pi_pubkey (af_sender af)) (af_epoch af) (af_seqnum af) (p, ll') \<and>
       \<not> rp_blocks (ll_replay ll) (pi_pubkey (af_sender af)) (af_epoch af) (af_seqnum af) \<and>
       pi_iid (af_sender af) = iid_from_pubkey c (pi_pubkey (af_sender af)) \<and>
       af_peer_key_generation af \<noteq> ll_receiving_link_identity ll"
proof -
  have inv0: "ll_inv0 c (p, ll)" using inv by (simp add: ll_inv_def)
  show thesis
  proof (cases rule: ll_receive_cases [of c rx ll])
    case (clock k e)
    show thesis
      by (rule that [OF clock]) (simp_all add: clock_ext [OF inv0])
  next
    case (process k receipt)
    let ?ll = "ll\<lparr>ll_receipt_clock := k\<rparr>"
    show thesis
    proof (cases "authenticate_wire c ?ll (rx_wire rx)")
      case (Inl e)
      then have "ll_receive c rx ll = Some (?ll, Inl e)"
        by (simp add: process receive_frame_with_receipt_def)
      then show thesis
        by (rule that) (simp_all add: clock_ext [OF inv0])
    next
      case (Inr fs)
      obtain f sender where fs: "fs = (f, sender)" by (cases fs)
      obtain t where t: "hm_get (ll_peers ?ll) (toggle_ul (f_signer_eui64 f)) = Some t" "tp_identity t = sender"
        and eui: "f_signer_eui64 f = toggle_ul (pi_iid sender)"
        using authenticate_wire_InrD [OF Inr [unfolded fs]] by blast
      have t': "hm_get (ll_peers ?ll) (pi_iid (tp_identity t)) = Some t"
        using t eui by (simp add: toggle_ul_id)
      have tok: "peer_ok c p (ll_receiving_link_identity ll) (pi_iid (tp_identity t)) t"
        using inv0 t' by (simp add: ll_inv0_def peers_ok_def)
      obtain ll' res where adm: "admit_frame ?ll f (tp_identity t) receipt = Some (ll', res)"
        and ext: "ll_ext c (p, ?ll) (p, ll')" and len: "length (ll_peers ll') = length (ll_peers ?ll)"
        and res: "res = admit_result ?ll t f receipt"
        and acc: "\<And>af. res = Inr af \<Longrightarrow> accepts_authenticated_frame p ll' af
          \<and> rp_blocks (ll_replay ll') (tp_pubkey t) (f_epoch f) (f_seqnum f)"
        using admit_frame_spec [OF clock_inv [OF inv] t'] by blast
      have rcv: "ll_receive c rx ll = Some (ll', res)"
        using adm Inr fs t by (simp add: process receive_frame_with_receipt_def)
      have "ll_ext c (p, ll) (p, ll')"
        using clock_ext [OF inv0] ext ll_ext_trans by blast
      moreover have "length (ll_peers ll') = length (ll_peers ll)" using len by simp
      moreover have "accepts_authenticated_frame p ll' af \<and>
         guarded c (af_peer_key_generation af) (pi_pubkey (af_sender af)) (af_epoch af) (af_seqnum af) (p, ll') \<and>
         \<not> rp_blocks (ll_replay ll) (pi_pubkey (af_sender af)) (af_epoch af) (af_seqnum af) \<and>
         pi_iid (af_sender af) = iid_from_pubkey c (pi_pubkey (af_sender af)) \<and>
         af_peer_key_generation af \<noteq> ll_receiving_link_identity ll" if af: "res = Inr af" for af
      proof -
        have f: "af_sender af = tp_identity t" "af_epoch af = f_epoch f" "af_seqnum af = f_seqnum f"
            "af_peer_key_generation af = tp_key_generation t"
            "\<not> rp_blocks (ll_replay ll) (tp_pubkey t) (f_epoch f) (f_seqnum f)"
          using af res by (auto simp: admit_result_Inr_iff evidence_of_def)
        have a: "accepts_authenticated_frame p ll' af"
            "rp_blocks (ll_replay ll') (tp_pubkey t) (f_epoch f) (f_seqnum f)"
          using acc [OF af] by simp_all
        have g: "tp_key_generation t < length (arcs p)" "tp_key_generation t \<noteq> ll_receiving_link_identity ll"
            "pi_iid (tp_identity t) = iid_from_pubkey c (tp_pubkey t)"
          using tok by (simp_all add: peer_ok_def)
        have "\<exists>t'. hm_get (ll_peers ll') (pi_iid (tp_identity t)) = Some t' \<and> tp_pubkey t' = tp_pubkey t
            \<and> tp_key_generation t' = tp_key_generation t"
          using a(1) by (auto simp: accepts_authenticated_frame_def f split: option.splits)
        then have "guarded c (tp_key_generation t) (tp_pubkey t) (f_epoch f) (f_seqnum f) (p, ll')"
          using a(2) g by (auto simp: guarded_def)
        then show ?thesis using a f g by simp
      qed
      ultimately show thesis
        using that [OF rcv] by blast
    qed
  qed
qed

section \<open>Histories\<close>

lemma remove_peer_length: "length (ll_peers (snd (remove_peer iid s))) \<le> length (ll_peers (snd s))"
  by (cases s) (auto simp: remove_peer_def Let_def length_hm_remove_le split: option.split)

lemma ll_step_ext:
  assumes inv: "ll_inv c s" and step: "ll_step c ev s = Some s'"
  shows "ll_ext c s s' \<and> ll_inv c s'"
proof -
  obtain p ll where s: "s = (p, ll)" by (cases s)
  have inv0: "ll_inv0 c (p, ll)" and len: "length (ll_peers ll) \<le> 64"
    using inv by (auto simp: ll_inv_def s)
  have "ll_ext c s s' \<and> length (ll_peers (snd s')) \<le> 64"
  proof (cases ev)
    case (EvAddPeer pk)
    then show ?thesis using step add_peer_ext [of c p ll pk] inv by (auto simp: s)
  next
    case (EvRemovePeer iid)
    then show ?thesis
      using step remove_peer_ext [OF inv0, of iid] remove_peer_length [of iid "(p, ll)"] len
      by (simp add: s)
  next
    case (EvForgetPeer iid)
    then show ?thesis
      using step remove_peer_ext [OF inv0, of iid] remove_peer_length [of iid "(p, ll)"] len
        forget_peer_eq_remove [OF inv0, of iid]
      by (simp add: s)
  next
    case (EvUnpinPeer iid)
    then show ?thesis using step unpin_peer_ext [OF inv0] len by (auto simp: s)
  next
    case (EvReceive rx)
    obtain ll' res where r: "ll_receive c rx ll = Some (ll', res)" "ll_ext c (p, ll) (p, ll')"
      "length (ll_peers ll') = length (ll_peers ll)"
      using inv unfolding s by (rule ll_receive_total)
    then show ?thesis using EvReceive step len by (auto simp: s)
  next
    case (EvRestore rcd mr)
    then show ?thesis using step restore_ext [of c p ll] inv by (auto simp: s)
  qed
  then show ?thesis
    by (auto simp: ll_inv_def ll_ext_def)
qed

lemma ll_run_ext: "ll_inv c s \<Longrightarrow> ll_run c es s = Some s' \<Longrightarrow> ll_ext c s s' \<and> ll_inv c s'"
proof (induction es arbitrary: s)
  case Nil
  then show ?case by (simp add: ll_inv_def ll_ext_refl)
next
  case (Cons ev es)
  then obtain s1 where s1: "ll_step c ev s = Some s1" "ll_run c es s1 = Some s'"
    by (auto simp: bind_eq_Some_conv)
  have "ll_ext c s s1" "ll_inv c s1"
    using ll_step_ext [OF Cons.prems(1) s1(1)] by simp_all
  then show ?case
    using Cons.IH [OF _ s1(2)] ll_ext_trans [of c s s1 s'] by simp
qed

lemma link_layer_new_inv: "link_layer_new ident p = Some s \<Longrightarrow> ll_inv c s"
  by (auto simp: link_layer_new_def arc_new_def receipt_clock_new_def ll_inv_def ll_inv0_def tables_ok_def
    peers_ok_def replay_ok_def pins_ok_def gens_distinct_def replay_protector_new_def rp_wf_def arc_load_def
    Let_def split: sum.splits option.splits)

inductive reachable :: "crypto \<Rightarrow> process \<times> link_layer \<Rightarrow> bool" for c :: crypto where
  start: "link_layer_new ident p = Some s \<Longrightarrow> reachable c s"
| step: "reachable c s \<Longrightarrow> ll_step c ev s = Some s' \<Longrightarrow> reachable c s'"

lemma reachable_inv: "reachable c s \<Longrightarrow> ll_inv c s"
  by (induction rule: reachable.induct) (auto dest: link_layer_new_inv ll_step_ext)

lemma reachable_run: "reachable c s \<Longrightarrow> ll_run c es s = Some s' \<Longrightarrow> reachable c s'"
  by (induction es arbitrary: s) (auto simp: bind_eq_Some_conv intro: reachable.step)

end
