(* ===== verification/Link_History.thy ===== *)
theory Link_History
  imports Link_Security
begin

text \<open>
  What the link layer promises over whole histories of calls: authenticity of what it hands
  out, no replay, permanent revocation, bounded tables, delivery between two link layers, and
  the restart of a node from sealed trust state. Every statement is about the states reachable
  from \<open>LinkLayer::new\<close> by \<open>ll_step\<close>.
\<close>

unbundle bit_operations_syntax

section \<open>One reception in a reachable state\<close>

lemma ll_receive_Inr:
  assumes inv: "ll_inv c (p, ll)" and rcv: "ll_receive c rx ll = Some (ll', Inr af)"
  shows "ll_ext c (p, ll) (p, ll')" and "ll_inv c (p, ll')"
    and "accepts_authenticated_frame p ll' af"
    and "guarded c (af_peer_key_generation af) (pi_pubkey (af_sender af)) (af_epoch af) (af_seqnum af) (p, ll')"
    and "\<not> rp_blocks (ll_replay ll) (pi_pubkey (af_sender af)) (af_epoch af) (af_seqnum af)"
    and "pi_iid (af_sender af) = iid_from_pubkey c (pi_pubkey (af_sender af))"
proof -
  obtain ll1 res where r: "ll_receive c rx ll = Some (ll1, res)" and ext: "ll_ext c (p, ll) (p, ll1)"
    and len: "length (ll_peers ll1) = length (ll_peers ll)"
    and Inr: "\<And>af. res = Inr af \<Longrightarrow> accepts_authenticated_frame p ll1 af \<and>
       guarded c (af_peer_key_generation af) (pi_pubkey (af_sender af)) (af_epoch af) (af_seqnum af) (p, ll1) \<and>
       \<not> rp_blocks (ll_replay ll) (pi_pubkey (af_sender af)) (af_epoch af) (af_seqnum af) \<and>
       pi_iid (af_sender af) = iid_from_pubkey c (pi_pubkey (af_sender af)) \<and>
       af_peer_key_generation af \<noteq> ll_receiving_link_identity ll"
    using inv by (rule ll_receive_total) (rule that)
  have eq: "ll1 = ll'" "res = Inr af" using r rcv by simp_all
  show "ll_ext c (p, ll) (p, ll')" using ext by (simp add: eq)
  then show "ll_inv c (p, ll')" using inv len by (simp add: ll_inv_def ll_ext_def eq)
  show "accepts_authenticated_frame p ll' af"
    "guarded c (af_peer_key_generation af) (pi_pubkey (af_sender af)) (af_epoch af) (af_seqnum af) (p, ll')"
    "\<not> rp_blocks (ll_replay ll) (pi_pubkey (af_sender af)) (af_epoch af) (af_seqnum af)"
    "pi_iid (af_sender af) = iid_from_pubkey c (pi_pubkey (af_sender af))"
    using Inr [OF eq(2)] by (simp_all add: eq(1))
qed

text \<open>
  C1. No replay, over arbitrary histories: once a reachable link layer has handed out a frame,
  then after any sequence of calls (peers added, removed, forgotten, unpinned, evicted,
  restored, and other receptions), as long as the evidence of that frame has not been revoked,
  no reception from the same key is handed out under the same epoch and sequence number.
\<close>

theorem link_no_replay:
  assumes "reachable c (p, ll)"
    and "ll_receive c rx ll = Some (ll1, Inr af)"
    and "ll_run c es (p, ll1) = Some (p2, ll2)"
    and "af_is_current p2 af"
    and "ll_receive c rx' ll2 = Some (ll3, Inr af')"
    and "pi_pubkey (af_sender af') = pi_pubkey (af_sender af)"
  shows "(af_epoch af', af_seqnum af') \<noteq> (af_epoch af, af_seqnum af)"
proof -
  note r = ll_receive_Inr [OF reachable_inv [OF assms(1)] assms(2)]
  have ext: "ll_ext c (p, ll1) (p2, ll2)" and inv2: "ll_inv c (p2, ll2)"
    using ll_run_ext [OF r(2) assms(3)] by simp_all
  have "guarded c (af_peer_key_generation af) (pi_pubkey (af_sender af)) (af_epoch af) (af_seqnum af) (p2, ll2)"
    using ext r(4) unfolding ll_ext_def by blast
  then have "rp_blocks (ll_replay ll2) (pi_pubkey (af_sender af)) (af_epoch af) (af_seqnum af)"
    using assms(4) by (simp add: guarded_def af_is_current_def)
  then show ?thesis
    using ll_receive_Inr(5) [OF inv2 assms(5)] assms(6) by auto
qed

lemma ll_run_append: "ll_run c (es @ es') s = Option.bind (ll_run c es s) (ll_run c es')"
proof (induction es arbitrary: s)
  case (Cons e es)
  then show ?case by (cases "ll_step c e s") simp_all
qed simp

definition retires :: "bytes \<Rightarrow> link_event \<Rightarrow> bool" where
  "retires iid ev \<longleftrightarrow> ev = EvRemovePeer iid \<or> ev = EvForgetPeer iid \<or> ev = EvUnpinPeer iid"

lemma retires_stores:
  assumes inv: "ll_inv c (p, ll)" and ev: "retires iid ev" and step: "ll_step c ev (p, ll) = Some (p', ll')"
    and t: "hm_get (ll_peers ll) iid = Some t"
  shows "arc_load p' (tp_key_generation t)"
proof -
  have inv0: "ll_inv0 c (p, ll)" using inv by (simp add: ll_inv_def)
  have lt: "tp_key_generation t < length (arcs p)"
    using inv0 t by (simp add: ll_inv0_def peers_ok_def peer_ok_def)
  consider "ev = EvRemovePeer iid \<or> ev = EvForgetPeer iid" | "ev = EvUnpinPeer iid"
    using ev by (auto simp: retires_def)
  then show ?thesis
  proof cases
    case 1
    then show ?thesis
      using step t lt forget_peer_eq_remove [OF inv0, of iid]
      by (auto simp: remove_peer_retire retire_peer_def arc_load_store)
  next
    case 2
    then show ?thesis
      using step t lt
      by (auto simp: unpin_peer_def Let_def bind_eq_Some_conv arc_new_def arc_load_def arc_store_true_def
        nth_append dest!: allocate_key_generation_SomeD)
  qed
qed

text \<open>
  C2. Revocation is immediate and permanent: once the peer that sent an accepted frame is
  removed, forgotten or unpinned, no later state of the link layer, whatever is called before
  or after, accepts the evidence of that frame again, not even after the same key is
  configured anew.
\<close>

theorem link_revocation:
  assumes "reachable c (p, ll)"
    and "ll_receive c rx ll = Some (ll1, Inr af)"
    and "retires (pi_iid (af_sender af)) ev"
    and "ll_run c (es @ ev # es') (p, ll1) = Some (p2, ll2)"
  shows "\<not> accepts_authenticated_frame p2 ll2 af"
proof -
  note r = ll_receive_Inr [OF reachable_inv [OF assms(1)] assms(2)]
  obtain pa lla pb llb where a: "ll_run c es (p, ll1) = Some (pa, lla)"
    and b: "ll_step c ev (pa, lla) = Some (pb, llb)" and run: "ll_run c es' (pb, llb) = Some (p2, ll2)"
    using assms(4) by (auto simp: ll_run_append bind_eq_Some_conv)
  have ea: "ll_ext c (p, ll1) (pa, lla)" "ll_inv c (pa, lla)"
    using ll_run_ext [OF r(2) a] by simp_all
  have eb: "ll_ext c (pa, lla) (pb, llb)" "ll_inv c (pb, llb)"
    using ll_step_ext [OF ea(2) b] by simp_all
  have ec: "ll_ext c (pb, llb) (p2, ll2)"
    using ll_run_ext [OF eb(2) run] by simp
  let ?g = "af_peer_key_generation af"
  have g: "guarded c ?g (pi_pubkey (af_sender af)) (af_epoch af) (af_seqnum af) (pa, lla)"
    using ea(1) r(4) unfolding ll_ext_def by blast
  have "arc_load pb ?g"
  proof (cases "arc_load pa ?g")
    case True
    then show ?thesis
      using eb(1) g by (simp add: ll_ext_def arcs_le_def guarded_def)
  next
    case False
    then obtain t where "hm_get (ll_peers lla) (pi_iid (af_sender af)) = Some t" "tp_key_generation t = ?g"
      using g r(6) by (auto simp: guarded_def)
    then show ?thesis
      using retires_stores [OF ea(2) assms(3) b] by metis
  qed
  moreover have "?g < length (arcs pb)"
    using g eb(1) by (auto simp: guarded_def ll_ext_def arcs_le_def)
  ultimately have "arc_load p2 ?g"
    using ec by (simp add: ll_ext_def arcs_le_def)
  then show ?thesis
    by (simp add: accepts_authenticated_frame_def af_is_current_def)
qed


lemma clock_irrelevant [simp]:
  "local_eui64 (ll\<lparr>ll_receipt_clock := k\<rparr>) = local_eui64 ll"
  "wire_is_for_local (ll\<lparr>ll_receipt_clock := k\<rparr>) f = wire_is_for_local ll f"
  "sender_pinned_ok (ll\<lparr>ll_receipt_clock := k\<rparr>) sender = sender_pinned_ok ll sender"
  by (cases "f_addr_mode f"; simp add: local_eui64_def wire_is_for_local_def sender_pinned_ok_def)+

text \<open>
  C5. Memory bound: in every reachable state at most 64 peers are tracked, the replay table is
  never larger than the peer table, and no two tracked peers share a revocation token.
\<close>

theorem link_tables_bounded:
  assumes "reachable c (p, ll)"
  shows "peer_count ll \<le> 64 \<and> length (rp_peers (ll_replay ll)) \<le> peer_count ll
    \<and> distinct (map (\<lambda>(_, t). tp_key_generation t) (ll_peers ll))"
proof -
  have inv: "ll_inv0 c (p, ll)" "length (ll_peers ll) \<le> 64"
    using reachable_inv [OF assms] by (simp_all add: ll_inv_def)
  have wf: "hm_wf (ll_peers ll)" "hm_wf (rp_peers (ll_replay ll))" and gd: "gens_distinct (ll_peers ll)"
    using inv by (simp_all add: ll_inv0_def tables_ok_def rp_wf_def)
  have sub: "dom (hm_get (rp_peers (ll_replay ll))) \<subseteq> (\<lambda>(_, t). tp_pubkey t) ` set (ll_peers ll)"
    using inv by (force simp: ll_inv0_def replay_ok_def dest: hm_get_SomeD)
  have "length (rp_peers (ll_replay ll)) \<le> card (set (ll_peers ll))"
    using surj_card_le [OF finite_set sub] by (simp add: hm_length_dom [OF wf(2)])
  then have "length (rp_peers (ll_replay ll)) \<le> peer_count ll"
    using card_length [of "ll_peers ll"] by (simp add: peer_count_def)
  moreover have "distinct (ll_peers ll)"
    using wf(1) unfolding hm_wf_def by (rule distinct_map [THEN iffD1, THEN conjunct1])
  moreover have "inj_on (\<lambda>(_, t). tp_key_generation t) (set (ll_peers ll))"
  proof (rule inj_onI, clarify)
    fix i j t u
    assume "(i, t) \<in> set (ll_peers ll)" "(j, u) \<in> set (ll_peers ll)"
      and g: "tp_key_generation t = tp_key_generation u"
    then have get: "hm_get (ll_peers ll) i = Some t" "hm_get (ll_peers ll) j = Some u"
      using hm_get_mem [OF wf(1)] by simp_all
    then have "i = j"
      using gens_distinctD [OF gd get] g by blast
    with get show "i = j \<and> t = u" by simp
  qed
  ultimately show ?thesis
    using inv(2) by (simp add: distinct_map peer_count_def)
qed

lemma ll_receive_InrD:
  assumes inv: "ll_inv c (p, ll)" and rcv: "ll_receive c rx ll = Some (ll', Inr af)"
  obtains k f t where "authenticate_wire c (ll\<lparr>ll_receipt_clock := k\<rparr>) (rx_wire rx) = Inr (f, tp_identity t)"
    and "hm_get (ll_peers ll) (pi_iid (tp_identity t)) = Some t"
    and "wire_is_for_local ll f" and "sender_pinned_ok ll (tp_identity t)"
    and "af_sender af = tp_identity t" and "af_payload af = f_payload f" and "af_epoch af = f_epoch f"
    and "af_seqnum af = f_seqnum f" and "af_destination af = f_dst_addr f"
proof (cases rule: ll_receive_cases [of c rx ll])
  case (clock k e)
  then show thesis using rcv by simp
next
  case (process k receipt)
  let ?ll = "ll\<lparr>ll_receipt_clock := k\<rparr>"
  obtain f sender where fs: "authenticate_wire c ?ll (rx_wire rx) = Inr (f, sender)"
    using rcv by (cases "authenticate_wire c ?ll (rx_wire rx)")
      (auto simp: process receive_frame_with_receipt_def)
  obtain t where t: "hm_get (ll_peers ?ll) (pi_iid (tp_identity t)) = Some t" "tp_identity t = sender"
    using authenticate_wire_InrD [OF fs] by (auto simp: toggle_ul_id)
  have "Inr af = admit_result ?ll t f receipt"
    by (rule admit_frame_spec [OF clock_inv [OF inv] t(1), of f receipt])
      (use rcv fs t(2) in \<open>simp add: process receive_frame_with_receipt_def\<close>)
  then have "wire_is_for_local ll f" "sender_pinned_ok ll (tp_identity t)"
    "af_sender af = tp_identity t" "af_payload af = f_payload f" "af_epoch af = f_epoch f"
    "af_seqnum af = f_seqnum f" "af_destination af = f_dst_addr f"
    by (auto simp: admit_result_Inr_iff evidence_of_def dest!: sym [of "Inr af"])
  then show thesis
    using fs t by (intro that [of k f t]) simp_all
qed


text \<open>
  C3. Authenticity: a reception that hands out a frame parsed the wire bytes, found the signer
  in the peer table, verified the signature with that peer's key over exactly the delivered
  payload, destination, epoch and sequence number under the domain-separated message, was
  addressed to this node, and did not contradict a pinned key; the new state accepts the
  evidence it handed out.
\<close>

theorem link_receive_authentic:
  assumes "reachable c (p, ll)" and "ll_receive c rx ll = Some (ll', Inr af)"
  shows "\<exists>f t. frame_from_bytes (rx_wire rx) = Inr f
    \<and> hm_get (ll_peers ll) (pi_iid (af_sender af)) = Some t \<and> tp_identity t = af_sender af
    \<and> c_verify c (pi_pubkey (af_sender af)) (build_signable (rx_wire rx ! 0) (llsec_byte f) (f_epoch f)
        (f_seqnum f) (f_dst_addr f) (f_signer_eui64 f) (f_payload f)) (f_mic f)
    \<and> f_signer_eui64 f = toggle_ul (pi_iid (af_sender af))
    \<and> (af_payload af, af_destination af, af_epoch af, af_seqnum af)
        = (f_payload f, f_dst_addr f, f_epoch f, f_seqnum f)
    \<and> wire_is_for_local ll f
    \<and> hm_get (ll_pinned ll) (pi_iid (af_sender af)) \<in> {None, Some (pi_pubkey (af_sender af))}
    \<and> accepts_authenticated_frame p ll' af"
proof -
  note inv = reachable_inv [OF assms(1)]
  obtain k f t where a: "authenticate_wire c (ll\<lparr>ll_receipt_clock := k\<rparr>) (rx_wire rx) = Inr (f, tp_identity t)"
    and t: "hm_get (ll_peers ll) (pi_iid (tp_identity t)) = Some t"
    and f: "wire_is_for_local ll f" "sender_pinned_ok ll (tp_identity t)"
      "af_sender af = tp_identity t" "af_payload af = f_payload f" "af_epoch af = f_epoch f"
      "af_seqnum af = f_seqnum f" "af_destination af = f_dst_addr f"
    by (rule ll_receive_InrD [OF inv assms(2)])
  show ?thesis
    using authenticate_wire_InrD [OF a] t f ll_receive_Inr(3) [OF inv assms(2)]
    by (intro exI [of _ f] exI [of _ t]) (auto simp: sender_pinned_ok_def)
qed

lemma build_frame_Inr:
  assumes b: "build_frame_with_addr_mode c ll e s dst payload mode out = Some (Inr (out', n))"
  obtains sig f where "sign_frame (c_sign c) (of_nat (n - 1)) (llsec_byte f) e s dst (local_eui64 ll) payload
      (id_privkey (ll_identity ll)) (id_pubkey (ll_identity ll)) = Some sig"
    and "f = \<lparr>f_epoch = e, f_seqnum = s, f_dst_addr = dst, f_signer_eui64 = local_eui64 ll,
        f_payload = payload, f_mic = sig, f_addr_mode = mode, f_mic_length = Bits32,
        f_signature = SigPresent, f_encryption = Plaintext\<rparr>"
    and "frame_valid f" and "take n out' = frame_wire f" and "n = length (frame_wire f)"
proof -
  obtain r sig where len: "addr_len mode = length dst"
    and r: "required_frame_buffer_len (length dst) (length payload) = Inr r"
    and sig: "sign_frame (c_sign c) (of_nat (r - 1)) ((addr_mode_u8 mode OR push_bit 5 1) OR LLSEC_SI_BIT) e s dst
      (local_eui64 ll) payload (id_privkey (ll_identity ll)) (id_pubkey (ll_identity ll)) = Some sig"
    and w: "frame_write_to \<lparr>f_epoch = e, f_seqnum = s, f_dst_addr = dst, f_signer_eui64 = local_eui64 ll,
        f_payload = payload, f_mic = sig, f_addr_mode = mode, f_mic_length = Bits32,
        f_signature = SigPresent, f_encryption = Plaintext\<rparr> out = Inr (out', n)"
    (is "frame_write_to ?f out = _")
    using b by (auto simp: build_frame_with_addr_mode_def Let_def bind_eq_Some_conv
      split: if_splits sum.splits)
  have v: "frame_valid ?f" and out: "out' = splice out 0 (frame_wire ?f)" and n: "n = length (frame_wire ?f)"
    using w by (simp_all add: frame_write_to_Inr_iff)
  have "length (frame_body ?f) = r - 1"
    using r frame_body_slices(5) [OF v] len
    by (auto simp: required_frame_buffer_len_def usize_checked_add_def SIGNATURE_LENGTH_def frame_consts
      split: option.splits if_splits)
  then have rn: "r - 1 = n - 1" using n by (simp add: frame_wire_def)
  have ll: "llsec_byte ?f = (addr_mode_u8 mode OR push_bit 5 1) OR LLSEC_SI_BIT"
    by (cases mode) (simp_all add: llsec_byte_def is_present_def is_encrypted_def frame_consts LLSEC_SI_BIT_def)
  show thesis
  proof (rule that [OF _ refl v])
    show "sign_frame (c_sign c) (word_of_nat (n - 1)) (llsec_byte ?f) e s dst (local_eui64 ll) payload
        (id_privkey (ll_identity ll)) (id_pubkey (ll_identity ll)) = Some sig"
      using sig by (simp only: rn ll)
  qed (simp_all add: out n take_splice_0)
qed


text \<open>
  C4. Delivery between two link layers: a frame built by a sender whose key the receiver has
  configured, addressed to the receiver or to all, with a fresh epoch and sequence number and a
  monotonic clock reading, is accepted and yields the payload, the sender's identity and the
  counters. The signature scheme is assumed to verify what it signs, as \<open>schnorr48\<close> documents.
\<close>

theorem link_delivery:
  assumes "reachable c (p, ll)"
    and sender: "length (id_iid (ll_identity snd_ll)) = 8"
    and crypto: "\<And>m. c_verify c (id_pubkey (ll_identity snd_ll)) m
             (c_sign c (id_privkey (ll_identity snd_ll)) (id_pubkey (ll_identity snd_ll)) m)"
    and built: "build_frame_with_addr_mode c snd_ll e s dst payload mode out = Some (Inr (out', n))"
    and known: "hm_get (ll_peers ll) (id_iid (ll_identity snd_ll)) = Some t"
      "pi_pubkey (tp_identity t) = id_pubkey (ll_identity snd_ll)"
    and dest: "mode = AddrNone \<or> mode = AddrElided \<or> mode = AddrExtended \<and> dst = local_eui64 ll"
    and pin: "sender_pinned_ok ll (tp_identity t)"
    and fresh: "\<not> rp_blocks (ll_replay ll) (id_pubkey (ll_identity snd_ll)) e s"
    and clock: "rc_mode (ll_receipt_clock ll) \<in> {ModeUnset, ModeMillis}"
      "rc_last_ticks (ll_receipt_clock ll) \<le> millis"
  shows "\<exists>ll' af. receive_frame_at c (take n out') millis ll = Some (ll', Inr af)
    \<and> af_payload af = payload \<and> af_sender af = tp_identity t \<and> af_epoch af = e \<and> af_seqnum af = s"
proof -
  obtain sig f where sig: "sign_frame (c_sign c) (of_nat (n - 1)) (llsec_byte f) e s dst (local_eui64 snd_ll) payload
      (id_privkey (ll_identity snd_ll)) (id_pubkey (ll_identity snd_ll)) = Some sig"
    and f: "f = \<lparr>f_epoch = e, f_seqnum = s, f_dst_addr = dst, f_signer_eui64 = local_eui64 snd_ll,
        f_payload = payload, f_mic = sig, f_addr_mode = mode, f_mic_length = Bits32,
        f_signature = SigPresent, f_encryption = Plaintext\<rparr>"
    and v: "frame_valid f" and out: "take n out' = frame_wire f" and n: "n = length (frame_wire f)"
    by (rule build_frame_Inr [OF built])
  obtain k receipt where obs: "observe_millis (ll_receipt_clock ll) millis = (k, Inr receipt)"
    using clock by (auto simp: observe_millis_def select_mode_def not_less)
  define ll0 where "ll0 = ll\<lparr>ll_receipt_clock := k\<rparr>"
  note inv = reachable_inv [OF assms(1)]
  have inv0: "ll_inv c (p, ll0)" unfolding ll0_def by (rule clock_inv [OF inv])
  have iid: "pi_iid (tp_identity t) = id_iid (ll_identity snd_ll)"
    using inv known(1) by (auto simp: ll_inv_def ll_inv0_def peers_ok_def peer_ok_def)
  have eui: "length (local_eui64 snd_ll) = 8" "toggle_ul (local_eui64 snd_ll) = id_iid (ll_identity snd_ll)"
    using sender by (simp_all add: local_eui64_def toggle_ul_id) (simp add: toggle_ul_def)
  have sl: "length sig = 48" "length dst \<le> 8"
    using v by (auto simp: f frame_valid_def) (cases mode; simp)
  have body: "length (frame_body f) = 4 + length dst + 8 + length payload + 48" "length (frame_body f) \<le> 254"
    using frame_valid_body_len [OF v] eui sl by (simp_all add: f frame_body_def)
  have rx: "rx_frame_length (length dst) (length (local_eui64 snd_ll)) (length payload) = Inr (of_nat (n - 1))"
    using body n eui by (simp add: rx_frame_length_def usize_checked_add_def SIGNATURE_LENGTH_def frame_consts
      frame_wire_def)
  have ver: "verify_frame (c_verify c) (of_nat (n - 1)) (llsec_byte f) e s dst (local_eui64 snd_ll) payload sig
      (id_pubkey (ll_identity snd_ll))"
    using sig crypto sl eui
    by (auto simp: sign_frame_def verify_frame_def SIGNATURE_LENGTH_def split: if_splits)
  have auth: "authenticate_wire c ll0 (take n out') = Inr (f, tp_identity t)"
    unfolding authenticate_wire_def out frame_from_bytes_wire [OF v] sum.case
    using rx ver known eui sl iid
    by (simp add: f is_present_def SIGNATURE_LENGTH_def ll0_def local_eui64_def)
  have loc: "wire_is_for_local ll0 f"
    using dest by (auto simp: wire_is_for_local_def f ll0_def local_eui64_def)
  have t0: "hm_get (ll_peers ll0) (pi_iid (tp_identity t)) = Some t"
    using known iid by (simp add: ll0_def)
  have "admit_result ll0 t f receipt = Inr (evidence_of ll0 t f receipt)"
    using loc pin fresh known unfolding admit_result_Inr_iff
    by (simp add: ll0_def f sender_pinned_ok_def)
  then obtain ll' where "admit_frame ll0 f (tp_identity t) receipt = Some (ll', Inr (evidence_of ll0 t f receipt))"
    using admit_frame_spec [OF inv0 t0, of f receipt] by metis
  then show ?thesis
    using auth obs
    by (simp add: receive_frame_at_def receive_frame_with_receipt_def ll0_def evidence_of_def f)
qed

section \<open>A concrete pair of nodes\<close>

text \<open>
  Functions with the documented properties of the primitives, two nodes with keys of 32 equal
  bytes, and the frame the first sends: the inputs at which the theorems are instantiated.
\<close>

definition toy_crypto :: crypto where
  "toy_crypto = \<lparr>c_sha512 = (\<lambda>m. take 64 (m @ replicate 64 0)), c_sha256 = (\<lambda>m. take 32 (rev m @ replicate 32 5)),
     c_derive_keypair = (\<lambda>seed. (seed, seed)), c_sign = (\<lambda>sk pk m. replicate 48 7),
     c_verify = (\<lambda>pk m s. s = replicate 48 7)\<rparr>"

definition toy_key :: "u8 \<Rightarrow> bytes" where "toy_key k = replicate 32 k"

definition toy_identity :: "u8 \<Rightarrow> identity" where
  "toy_identity k = \<lparr>id_seed = toy_key k, id_privkey = toy_key k, id_pubkey = toy_key k, id_iid = replicate 8 k,
     id_ygg_addr = replicate 16 2\<rparr>"

definition toy_node :: "u8 \<Rightarrow> (process \<times> link_layer) option" where
  "toy_node k = link_layer_new (toy_identity k) process_start"

definition toy_wire :: "u16 \<Rightarrow> bytes" where
  "toy_wire s = (case toy_node 1 of
      Some (_, ll) \<Rightarrow> (case build_frame toy_crypto ll 3 s [] [42, 43] (replicate 128 0) of
        Some (Inr (out, n)) \<Rightarrow> take n out | _ \<Rightarrow> [])
    | None \<Rightarrow> [])"

lemma toy_evaluates:
  "(case Option.bind (toy_node 2) (ll_run toy_crypto [EvAddPeer (toy_key 1)]) of
     Some (p, ll) \<Rightarrow> (case ll_receive toy_crypto (RxMillis (toy_wire 5) 9) ll of
       Some (ll1, Inr af) \<Rightarrow> pi_iid (af_sender af) = replicate 8 1 \<and> af_payload af = [42, 43] \<and>
         (case ll_run toy_crypto [EvAddPeer (toy_key 9)] (p, ll1) of
            Some (p2, ll2) \<Rightarrow> af_is_current p2 af \<and>
              (case ll_receive toy_crypto (RxMillis (toy_wire 6) 9) ll2 of
                 Some (ll3, Inr af') \<Rightarrow> pi_pubkey (af_sender af') = pi_pubkey (af_sender af)
               | _ \<Rightarrow> False)
          | None \<Rightarrow> False) \<and>
         ll_run toy_crypto ([EvAddPeer (toy_key 9)] @ EvUnpinPeer (replicate 8 1) # [EvAddPeer (toy_key 1)]) (p, ll1) \<noteq> None
     | _ \<Rightarrow> False)
   | None \<Rightarrow> False)"
  by code_simp

lemma toy_history:
  obtains p ll ll1 af p2 ll2 ll3 af' s
  where "Option.bind (toy_node 2) (ll_run toy_crypto [EvAddPeer (toy_key 1)]) = Some (p, ll)"
    and "reachable toy_crypto (p, ll)"
    and "ll_receive toy_crypto (RxMillis (toy_wire 5) 9) ll = Some (ll1, Inr af)"
    and "pi_iid (af_sender af) = replicate 8 1" and "af_payload af = [42, 43]"
    and "ll_run toy_crypto [EvAddPeer (toy_key 9)] (p, ll1) = Some (p2, ll2)" and "af_is_current p2 af"
    and "ll_receive toy_crypto (RxMillis (toy_wire 6) 9) ll2 = Some (ll3, Inr af')"
    and "pi_pubkey (af_sender af') = pi_pubkey (af_sender af)"
    and "ll_run toy_crypto ([EvAddPeer (toy_key 9)] @ EvUnpinPeer (replicate 8 1) # [EvAddPeer (toy_key 1)]) (p, ll1)
      = Some s"
proof -
  obtain p ll where r: "Option.bind (toy_node 2) (ll_run toy_crypto [EvAddPeer (toy_key 1)]) = Some (p, ll)"
    using toy_evaluates by (auto split: option.splits)
  have reach: "reachable toy_crypto (p, ll)"
    using r reachable.start reachable_run by (force simp: bind_eq_Some_conv toy_node_def simp del: ll_run.simps)
  obtain ll1 af where rx: "ll_receive toy_crypto (RxMillis (toy_wire 5) 9) ll = Some (ll1, Inr af)"
    using toy_evaluates unfolding r by (auto simp del: ll_receive.simps split: option.splits sum.splits)
  note ev = toy_evaluates [unfolded r option.case prod.case rx sum.case]
  obtain p2 ll2 where run: "ll_run toy_crypto [EvAddPeer (toy_key 9)] (p, ll1) = Some (p2, ll2)"
    using ev by (auto simp del: ll_run.simps split: option.splits)
  obtain ll3 af' where rx': "ll_receive toy_crypto (RxMillis (toy_wire 6) 9) ll2 = Some (ll3, Inr af')"
    using ev unfolding run by (auto simp del: ll_receive.simps split: option.splits sum.splits)
  obtain s where fin: "ll_run toy_crypto
      ([EvAddPeer (toy_key 9)] @ EvUnpinPeer (replicate 8 1) # [EvAddPeer (toy_key 1)]) (p, ll1) = Some s"
    using ev by blast
  show thesis
    by (rule that [OF r reach rx _ _ run _ rx' _ fin])
      (use ev [unfolded run option.case prod.case rx' sum.case] in blast)+
qed

theorem link_no_replay_witness:
  "\<exists>p ll ll1 af p2 ll2 ll3 af'. reachable toy_crypto (p, ll)
     \<and> ll_receive toy_crypto (RxMillis (toy_wire 5) 9) ll = Some (ll1, Inr af)
     \<and> ll_run toy_crypto [EvAddPeer (toy_key 9)] (p, ll1) = Some (p2, ll2)
     \<and> ll_receive toy_crypto (RxMillis (toy_wire 6) 9) ll2 = Some (ll3, Inr af')
     \<and> (af_epoch af', af_seqnum af') \<noteq> (af_epoch af, af_seqnum af)"
proof (rule toy_history, goal_cases)
  case (1 p ll ll1 af p2 ll2 ll3 af' s)
  show ?case
    using 1(2,3,6,8) link_no_replay [OF 1(2,3,6-9)] by blast
qed

theorem link_revocation_witness:
  "\<exists>p ll ll1 af p2 ll2. reachable toy_crypto (p, ll)
     \<and> ll_receive toy_crypto (RxMillis (toy_wire 5) 9) ll = Some (ll1, Inr af)
     \<and> ll_run toy_crypto ([EvAddPeer (toy_key 9)] @ EvUnpinPeer (replicate 8 1) # [EvAddPeer (toy_key 1)]) (p, ll1)
        = Some (p2, ll2)
     \<and> \<not> accepts_authenticated_frame p2 ll2 af"
proof (rule toy_history, goal_cases)
  case (1 p ll ll1 af p2 ll2 ll3 af' s)
  have "retires (pi_iid (af_sender af)) (EvUnpinPeer (replicate 8 1))"
    by (simp add: retires_def 1(4))
  moreover obtain q m where "s = (q, m)" by (cases s)
  ultimately show ?case
    using link_revocation [OF 1(2,3) _ 1(10) [unfolded \<open>s = (q, m)\<close>]] 1(2,3,10) by metis
qed

theorem link_tables_bounded_witness:
  "\<exists>p ll. reachable toy_crypto (p, ll) \<and> peer_count ll \<le> 64 \<and> length (rp_peers (ll_replay ll)) \<le> peer_count ll"
proof (rule toy_history, goal_cases)
  case 1
  show ?case using link_tables_bounded [OF 1(2)] 1(2) by blast
qed

theorem link_receive_authentic_witness:
  "\<exists>p ll ll' af f. reachable toy_crypto (p, ll)
     \<and> ll_receive toy_crypto (RxMillis (toy_wire 5) 9) ll = Some (ll', Inr af)
     \<and> frame_from_bytes (toy_wire 5) = Inr f \<and> af_payload af = f_payload f
     \<and> accepts_authenticated_frame p ll' af"
proof (rule toy_history, goal_cases)
  case 1
  show ?case
    using link_receive_authentic [OF 1(2,3)] 1(2,3) by (simp del: ll_receive.simps) blast
qed

lemma toy_delivery_evaluates:
  "(case (toy_node 1, Option.bind (toy_node 2) (ll_run toy_crypto [EvAddPeer (toy_key 1)])) of
      (Some (_, sl), Some (p, ll)) \<Rightarrow>
        (case (build_frame_with_addr_mode toy_crypto sl 3 5 [] [42, 43] AddrNone (replicate 128 0),
               hm_get (ll_peers ll) (id_iid (ll_identity sl))) of
           (Some (Inr (out, n)), Some t) \<Rightarrow>
             length (id_iid (ll_identity sl)) = 8 \<and> pi_pubkey (tp_identity t) = id_pubkey (ll_identity sl) \<and>
             sender_pinned_ok ll (tp_identity t) \<and> \<not> rp_blocks (ll_replay ll) (id_pubkey (ll_identity sl)) 3 5 \<and>
             rc_mode (ll_receipt_clock ll) = ModeUnset \<and> rc_last_ticks (ll_receipt_clock ll) \<le> 9
         | _ \<Rightarrow> False)
    | _ \<Rightarrow> False)"
  by code_simp

theorem link_delivery_witness:
  "\<exists>sl ll out n ll' af. build_frame_with_addr_mode toy_crypto sl 3 5 [] [42, 43] AddrNone (replicate 128 0)
       = Some (Inr (out, n))
     \<and> receive_frame_at toy_crypto (take n out) 9 ll = Some (ll', Inr af) \<and> af_payload af = [42, 43]"
proof (rule toy_history, goal_cases)
  case (1 p ll)
  obtain q sl where sl: "toy_node 1 = Some (q, sl)"
    using toy_delivery_evaluates by (auto split: option.splits)
  note ev = toy_delivery_evaluates [unfolded sl 1(1) option.case prod.case]
  obtain out n t where b: "build_frame_with_addr_mode toy_crypto sl 3 5 [] [42, 43] AddrNone (replicate 128 0)
       = Some (Inr (out, n))" and t: "hm_get (ll_peers ll) (id_iid (ll_identity sl)) = Some t"
    using ev by (auto split: option.splits sum.splits)
  have ev2: "length (id_iid (ll_identity sl)) = 8" "pi_pubkey (tp_identity t) = id_pubkey (ll_identity sl)"
    "sender_pinned_ok ll (tp_identity t)" "\<not> rp_blocks (ll_replay ll) (id_pubkey (ll_identity sl)) 3 5"
    "rc_mode (ll_receipt_clock ll) \<in> {ModeUnset, ModeMillis}" "rc_last_ticks (ll_receipt_clock ll) \<le> 9"
    using ev [unfolded b t option.case prod.case sum.case] by blast+
  have ver: "c_verify toy_crypto (id_pubkey (ll_identity sl)) m
      (c_sign toy_crypto (id_privkey (ll_identity sl)) (id_pubkey (ll_identity sl)) m)" for m
    by (simp add: toy_crypto_def)
  show ?case
    using link_delivery [OF 1(2) ev2(1) ver b t ev2(2) _ ev2(3-6)] b by blast
qed

end
