(* ===== verification/Trust_State.thy ===== *)
theory Trust_State
  imports Link_History
begin

text \<open>
  Sealed trust state (\<open>persist_peer_trust_state\<close> and \<open>restore_peer_trust_state\<close> of
  \<open>lichen-link/src/link_layer.rs\<close>): the durable generations of tracked peers are always those
  derived from their serials, and a record sealed before a restart restores the peer with the
  replay state it had.
\<close>

unbundle bit_operations_syntax

section \<open>Durable generations\<close>

definition peer_durable_ok :: "crypto \<Rightarrow> link_layer \<Rightarrow> tracked_peer \<Rightarrow> bool" where
  "peer_durable_ok c ll t \<longleftrightarrow> 0 < tp_durable_generation_serial t \<and>
     tp_durable_generation_serial t < ll_next_durable_generation ll \<and>
     durable_generation_for c (id_pubkey (ll_identity ll)) (tp_pubkey t) (tp_durable_generation_serial t)
       = Some (tp_durable_key_generation t)"

definition durable_ok :: "crypto \<Rightarrow> link_layer \<Rightarrow> bool" where
  "durable_ok c ll \<longleftrightarrow> 0 < ll_next_durable_generation ll \<and>
     (\<forall>iid t. hm_get (ll_peers ll) iid = Some t \<longrightarrow> peer_durable_ok c ll t)"

lemma durable_okI:
  assumes "durable_ok c ll" and "ll_identity ll' = ll_identity ll"
    and "ll_next_durable_generation ll \<le> ll_next_durable_generation ll'"
    and "\<And>iid t'. hm_get (ll_peers ll') iid = Some t' \<Longrightarrow> peer_durable_ok c ll' t' \<or>
      (\<exists>t. hm_get (ll_peers ll) iid = Some t \<and> tp_identity t' = tp_identity t \<and>
        tp_durable_generation_serial t' = tp_durable_generation_serial t \<and>
        tp_durable_key_generation t' = tp_durable_key_generation t)"
  shows "durable_ok c ll'"
proof -
  have "0 < ll_next_durable_generation ll'"
    using assms(1,3) unfolding durable_ok_def by (meson less_le_trans)
  moreover have "peer_durable_ok c ll' t'" if "hm_get (ll_peers ll') iid = Some t'" for iid t'
    using assms(4) [OF that]
  proof (elim disjE exE conjE)
    fix t
    assume t: "hm_get (ll_peers ll) iid = Some t" "tp_identity t' = tp_identity t"
      "tp_durable_generation_serial t' = tp_durable_generation_serial t"
      "tp_durable_key_generation t' = tp_durable_key_generation t"
    then have "peer_durable_ok c ll t" using assms(1) by (simp add: durable_ok_def)
    then show ?thesis
      using t assms(2,3) by (auto simp: peer_durable_ok_def intro: less_le_trans)
  qed
  ultimately show ?thesis by (simp add: durable_ok_def)
qed

lemma retire_peer_durable: "durable_ok c (snd s) \<Longrightarrow> durable_ok c (snd (retire_peer iid t s))"
  by (cases s, rule durable_okI, assumption)
    (auto simp: retire_peer_def hm_get_remove split: if_splits)

lemma ll_evict_durable: "durable_ok c (snd s) \<Longrightarrow> durable_ok c (snd (fst (ll_evict_if_needed s ev)))"
proof (induction s ev rule: ll_evict_if_needed.induct)
  case (1 s ev)
  show ?case
  proof (cases "ll_max_peers (snd s) < length (ll_peers (snd s))")
    case True
    let ?min = "min_by_key (\<lambda>(_, e). tp_last_access e) (ll_peers (snd s))"
    obtain iid t where m: "?min = Some (iid, t)"
      using True by (cases ?min) auto
    then show ?thesis
      using True 1(1) [OF True m refl] retire_peer_durable [OF 1(2)]
      by (simp add: ll_evict_if_needed.simps [of s])
  qed (use 1 in \<open>simp add: ll_evict_if_needed.simps [of s]\<close>)
qed

lemma remove_peer_durable: "durable_ok c (snd s) \<Longrightarrow> durable_ok c (snd (remove_peer iid s))"
  by (cases s, rule durable_okI, assumption)
    (auto simp: remove_peer_def Let_def hm_get_remove split: if_splits option.splits)

lemma forget_peer_durable: "durable_ok c (snd s) \<Longrightarrow> durable_ok c (snd (forget_peer iid s))"
  by (cases s, rule durable_okI, assumption)
    (auto simp: forget_peer_def Let_def hm_get_remove split: if_splits option.splits)

lemma allocate_durable_props:
  assumes "allocate_durable_generation c pk ll = Some (ll', d, n)" and "durable_ok c ll"
  shows "\<exists>m. ll' = ll\<lparr>ll_next_durable_generation := m\<rparr> \<and> n < m \<and> ll_next_durable_generation ll \<le> m \<and> 0 < n \<and>
    durable_generation_for c (id_pubkey (ll_identity ll)) pk n = Some d"
  using assms
  by (auto simp: allocate_durable_generation_def Let_def bind_eq_Some_conv checked_add_Some_iff durable_ok_def
    word_less_nat_alt word_le_nat_alt unat_add_no_overflow)

lemma unpin_peer_durable:
  assumes "durable_ok c ll" and "unpin_peer c iid (p, ll) = Some s'"
  shows "durable_ok c (snd s')"
proof (cases "hm_get (ll_peers ll) iid")
  case None
  then show ?thesis
    using assms by (auto simp: unpin_peer_def Let_def durable_ok_def peer_durable_ok_def)
next
  case (Some t)
  let ?ll0 = "ll\<lparr>ll_pinned := hm_remove iid (ll_pinned ll)\<rparr>"
  have d0: "durable_ok c ?ll0"
    using assms(1) by (simp add: durable_ok_def peer_durable_ok_def)
  obtain p1 ll1 d n gid x where dur: "allocate_durable_generation c (tp_pubkey t) ?ll0 = Some (ll1, d, n)"
    and s': "s' = (p1, ll1\<lparr>ll_peers := hm_insert iid (t\<lparr>tp_key_generation := x,
        tp_key_generation_id := gid, tp_durable_key_generation := d,
        tp_durable_generation_serial := n, tp_required_schc_floor_commitment := None\<rparr>) (ll_peers ll1)\<rparr>)"
    using assms(2) Some by (auto simp: unpin_peer_def Let_def bind_eq_Some_conv arc_new_def)
  show ?thesis
    using allocate_durable_props [OF dur d0]
    by (intro durable_okI [OF d0]) (auto simp: s' hm_get_insert peer_durable_ok_def split: if_splits)
qed

lemma add_peer_durable:
  assumes "durable_ok c ll" and "add_peer c pk (p, ll) = Some (s', r)"
  shows "durable_ok c (snd s')"
proof -
  define peer where "peer = peer_from_pubkey c pk"
  define ll0 where "ll0 = ll\<lparr>ll_access_counter := sat_add (ll_access_counter ll) 1\<rparr>"
  have peer: "pi_pubkey peer = pk" by (simp add: peer_def peer_from_pubkey_def)
  have d0: "durable_ok c ll0"
    using assms(1) by (simp add: ll0_def durable_ok_def peer_durable_ok_def)
  show ?thesis
  proof (cases "refreshes ll0 peer")
    case (Some t)
    then have t: "hm_get (ll_peers ll0) (pi_iid peer) = Some t"
      by (auto simp: refreshes_def split: option.splits if_splits)
    have "snd s' = ll0\<lparr>ll_peers := hm_insert (pi_iid peer)
        (t\<lparr>tp_last_access := ll_access_counter ll0\<rparr>) (ll_peers ll0)\<rparr>"
      using assms(2) Some by (auto simp: add_peer_def Let_def peer_def [symmetric] ll0_def)
    then show ?thesis
      using t by (intro durable_okI [OF d0]) (auto simp: hm_get_insert split: if_splits)
  next
    case None
    obtain p1 ll1 d n t where dur: "allocate_durable_generation c pk ll0 = Some (ll1, d, n)"
      and t: "tp_identity t = peer" "tp_durable_generation_serial t = n" "tp_durable_key_generation t = d"
      and s': "s' = fst (ll_evict_if_needed (insert_tracked (pi_iid peer) t (p1, ll1)) None)"
      using assms(2) None
      by (auto simp: add_peer_def Let_def peer_def [symmetric] ll0_def peer bind_eq_Some_conv arc_new_def)
        (metis tracked_peer.select_convs(1,5,6))
    have "durable_ok c (snd (insert_tracked (pi_iid peer) t (p1, ll1)))"
      using allocate_durable_props [OF dur d0] t peer
      by (intro durable_okI [OF d0])
        (auto simp: insert_tracked_def Let_def hm_get_insert peer_durable_ok_def split: if_splits option.splits)
    then show ?thesis
      unfolding s' by (rule ll_evict_durable)
  qed
qed


lemma admit_frame_durable:
  assumes "durable_ok c ll" and "admit_frame ll f sender receipt = Some (ll', res)"
  shows "durable_ok c ll'"
  by (rule durable_okI [OF assms(1)])
    (use assms(2) in \<open>auto simp: admit_frame_def Let_def bind_eq_Some_conv hm_get_insert
      split: if_splits option.splits\<close>)

lemma ll_receive_durable:
  assumes "durable_ok c ll" and "ll_receive c rx ll = Some (ll', res)"
  shows "durable_ok c ll'"
proof -
  have k: "durable_ok c (ll\<lparr>ll_receipt_clock := k\<rparr>)" for k
    using assms(1) by (simp add: durable_ok_def peer_durable_ok_def)
  show ?thesis
  proof (cases rule: ll_receive_cases [of c rx ll])
    case (process k' receipt)
    then show ?thesis
      using assms(2) k [of k']
      by (auto simp: receive_frame_with_receipt_def split: sum.splits intro: admit_frame_durable [OF _ sym])
  qed (use assms(2) k in auto)
qed

lemma parse_trust_record_InrD:
  assumes "parse_trust_record c ll rcd minrev = Inr tr"
  shows "0 < tr_serial tr" "tr_serial tr < tr_next_serial tr"
    "durable_generation_for c (id_pubkey (ll_identity ll)) (tr_peer_key tr) (tr_serial tr) = Some (tr_durable tr)"
  using assms
  by (auto simp: parse_trust_record_def Let_def word_gt_0 not_le split: if_splits option.splits)

lemma restore_durable:
  assumes "durable_ok c ll"
  shows "durable_ok c (snd (fst (restore_peer_trust_state c rcd minrev (p, ll))))"
proof (cases "parse_trust_record c ll rcd minrev")
  case (Inr tr)
  define peer where "peer = peer_from_pubkey c (tr_peer_key tr)"
  have "durable_ok c (snd (install_restored tr peer gid (p', ll)))" for p' gid
    using parse_trust_record_InrD [OF Inr]
    by (intro durable_okI [OF assms])
      (auto simp: install_restored_def Let_def arc_new_def hm_get_insert peer_durable_ok_def peer_def
        peer_from_pubkey_def less_max_iff_disj split: if_splits)
  then show ?thesis
    using assms Inr by (auto simp: restore_peer_trust_state_def Let_def peer_def split: option.split)
qed (use assms in \<open>simp add: restore_peer_trust_state_def\<close>)

lemma ll_step_durable:
  assumes "durable_ok c (snd s)" and "ll_step c ev s = Some s'"
  shows "durable_ok c (snd s')"
  using assms
  by (cases s; cases ev)
    (auto intro!: remove_peer_durable forget_peer_durable
      dest: add_peer_durable unpin_peer_durable ll_receive_durable restore_durable
      simp del: ll_receive.simps)

lemma reachable_durable: "reachable c s \<Longrightarrow> durable_ok c (snd s)"
proof (induction rule: reachable.induct)
  case (start ident p s)
  then show ?case
    by (auto simp: link_layer_new_def arc_new_def receipt_clock_new_def durable_ok_def Let_def
      split: option.splits sum.splits)
qed (rule ll_step_durable)

section \<open>Sealing and restoring\<close>

text \<open>The sealed record is a concatenation of fixed-width fields, read back at their offsets.\<close>

lemma durable_generation_for_length:
  "durable_generation_for c me pk sr = Some d \<Longrightarrow> (\<And>m. length (c_sha256 c m) = 32) \<Longrightarrow> length d = 16"
  by (auto simp: durable_generation_for_def durable_from_owner_bytes_def Let_def split: if_splits)

lemma persist_InrD:
  assumes "persist_peer_trust_state c ll iid rv floor out = Inr (out', n)"
  obtains t st where "rv \<noteq> 0" and "hm_get (ll_peers ll) iid = Some t"
    and "hm_get (ll_pinned ll) iid = Some (tp_pubkey t)"
    and "hm_get (rp_peers (ll_replay ll)) (tp_pubkey t) = Some st" and "initialised (prs_window st)"
    and "length (c_sign c (id_privkey (ll_identity ll)) (id_pubkey (ll_identity ll))
        (trust_state_body c ll t rv floor (last_epoch st) (last_seq (prs_window st)) (window (prs_window st)))) = 48
      \<Longrightarrow> take n out' = trust_state_body c ll t rv floor (last_epoch st) (last_seq (prs_window st)) (window (prs_window st))
        @ c_sign c (id_privkey (ll_identity ll)) (id_pubkey (ll_identity ll))
            (trust_state_body c ll t rv floor (last_epoch st) (last_seq (prs_window st)) (window (prs_window st)))"
  using assms
  by (auto simp: persist_peer_trust_state_def Let_def persistent_parts_def sign_digest_def TRUST_STATE_SIGNATURE_LEN_def
      splice_def intro!: that split: if_splits option.splits)

lemma parse_trust_state_body:
  assumes me: "me = id_pubkey (ll_identity ll)" and b: "b = trust_state_body c ll t rv floor e s w"
    and len: "length me = 32" "length (tp_pubkey t) = 32" "length (tp_durable_key_generation t) = 16"
      "\<And>m. length (c_sha256 c m) = 32" "length sg = 48"
    and same: "id_pubkey (ll_identity l2) = me"
    and ver: "c_verify c me b sg"
    and rv: "rv \<noteq> 0" "minrev \<le> rv"
    and dur: "peer_durable_ok c ll t"
    and win: "bit w 0"
  shows "parse_trust_record c l2 (b @ sg) minrev = Inr \<lparr>tr_revision = rv, tr_peer_key = tp_pubkey t,
    tr_durable = tp_durable_key_generation t, tr_serial = tp_durable_generation_serial t,
    tr_next_serial = ll_next_durable_generation ll, tr_floor = map_option (c_sha256 c) floor, tr_last_epoch = e,
    tr_window = \<lparr>last_seq = s, window = w, initialised = True, rw_state = RwTracking\<rparr>\<rparr>"
proof -
  obtain flag com where fc: "b = TRUST_STATE_DOMAIN @ [1] @ be_bytes 8 rv @ me @ tp_pubkey t
      @ tp_durable_key_generation t @ be_bytes 8 (tp_durable_generation_serial t)
      @ be_bytes 8 (ll_next_durable_generation ll) @ [flag] @ com @ [e] @ be_bytes 2 s @ be_bytes 4 w"
    "length com = 32" "(flag = 0 \<and> com = replicate 32 0 \<and> floor = None) \<or> (flag = 1 \<and> floor \<noteq> None)"
    "floor \<noteq> None \<Longrightarrow> map_option (c_sha256 c) floor = Some com"
    using len(4) by (cases floor) (auto simp: b me trust_state_body_def Let_def)
  have dom: "length TRUST_STATE_DOMAIN = 21" by (simp add: TRUST_STATE_DOMAIN_def)
  have bl: "length b = 166"
    using len dom by (simp add: fc)
  have sl: "b ! 21 = 1" "slice 22 30 b = be_bytes 8 rv" "slice 30 62 b = me" "slice 62 94 b = tp_pubkey t"
    "slice 94 110 b = tp_durable_key_generation t" "slice 110 118 b = be_bytes 8 (tp_durable_generation_serial t)"
    "slice 118 126 b = be_bytes 8 (ll_next_durable_generation ll)" "b ! 126 = flag" "slice 127 159 b = com"
    "b ! 159 = e" "slice 160 162 b = be_bytes 2 s" "slice 162 166 b = be_bytes 4 w"
    using len dom fc(2) by (simp_all add: fc(1) slice_def nth_append)
  have odd: "w \<noteq> 0" "w AND 1 \<noteq> 0"
    using win by (auto simp: bit_0 and_one_eq odd_iff_mod_2_eq_one)
  have gen: "durable_from_owner_bytes (tp_durable_key_generation t) = Some (tp_durable_key_generation t)"
    "tp_durable_generation_serial t \<noteq> 0" "\<not> ll_next_durable_generation ll \<le> tp_durable_generation_serial t"
    "durable_generation_for c me (tp_pubkey t) (tp_durable_generation_serial t) = Some (tp_durable_key_generation t)"
    using dur me by (auto simp: peer_durable_ok_def durable_generation_for_def durable_from_owner_bytes_def Let_def
      split: if_splits)
  show ?thesis
    using bl len(5) same ver rv gen odd fc(3,4) sl
    by (auto simp: parse_trust_record_def Let_def TRUST_STATE_SIGNATURE_LEN_def TAIL_LEN_def dom
      verify_profile_message_def SIGNATURE_LENGTH_def from_persistent_parts_def)
qed

text \<open>
  C24. A node survives a restart without reopening its replay window: trust state sealed by a
  reachable link layer is accepted by a fresh link layer with the same identity (unless it is
  older than the required revision) and restores the peer, its pin, its durable generation,
  the commitment to the floor record, and a replay state that refuses exactly the frames the
  old one refused. The signature scheme is assumed to verify what it signs; keys and digests
  have the widths of their Rust types.
\<close>

theorem trust_state_survives_restart:
  assumes "reachable c (p, ll)"
    and sizes: "length (id_pubkey (ll_identity ll)) = 32"
      "\<And>i t. hm_get (ll_peers ll) i = Some t \<Longrightarrow> length (tp_pubkey t) = 32"
    and crypto: "\<And>m. length (c_sha256 c m) = 32"
      "\<And>m. length (c_sign c (id_privkey (ll_identity ll)) (id_pubkey (ll_identity ll)) m) = 48"
      "\<And>m. c_verify c (id_pubkey (ll_identity ll)) m
         (c_sign c (id_privkey (ll_identity ll)) (id_pubkey (ll_identity ll)) m)"
    and sealed: "persist_peer_trust_state c ll iid rv floor out = Inr (out', n)"
    and restart: "link_layer_new (ll_identity ll) q = Some (q1, ll1)" "allocate_key_generation q1 \<noteq> None"
    and rv: "minrev \<le> rv"
  shows "\<exists>q2 ll2 t t2. restore_peer_trust_state c (take n out') minrev (q1, ll1) = ((q2, ll2), Inr rv)
    \<and> hm_get (ll_peers ll) iid = Some t \<and> hm_get (ll_peers ll2) iid = Some t2
    \<and> tp_identity t2 = tp_identity t \<and> hm_get (ll_pinned ll2) iid = Some (tp_pubkey t)
    \<and> tp_durable_key_generation t2 = tp_durable_key_generation t
    \<and> tp_required_schc_floor_commitment t2 = map_option (c_sha256 c) floor
    \<and> (\<forall>e s. rp_blocks (ll_replay ll2) (tp_pubkey t) e s = rp_blocks (ll_replay ll) (tp_pubkey t) e s)"
proof -
  obtain t st where r0: "rv \<noteq> 0" and t: "hm_get (ll_peers ll) iid = Some t"
    and st: "hm_get (rp_peers (ll_replay ll)) (tp_pubkey t) = Some st" "initialised (prs_window st)"
    and out: "take n out' = trust_state_body c ll t rv floor (last_epoch st) (last_seq (prs_window st)) (window (prs_window st))
        @ c_sign c (id_privkey (ll_identity ll)) (id_pubkey (ll_identity ll))
            (trust_state_body c ll t rv floor (last_epoch st) (last_seq (prs_window st)) (window (prs_window st)))"
    using persist_InrD [OF sealed] crypto(2) by metis
  have inv: "ll_inv0 c (p, ll)" using reachable_inv [OF assms(1)] by (simp add: ll_inv_def)
  have iid: "pi_iid (tp_identity t) = iid" "iid_from_pubkey c (tp_pubkey t) = iid"
    using inv t by (simp_all add: ll_inv0_def peers_ok_def peer_ok_def)
  have dur: "peer_durable_ok c ll t"
    using reachable_durable [OF assms(1)] t by (simp add: durable_ok_def)
  then have dl: "length (tp_durable_key_generation t) = 16"
    using crypto(1) by (auto simp: peer_durable_ok_def intro: durable_generation_for_length)
  have wf: "rw_wf (prs_window st)"
    using inv st by (auto simp: ll_inv0_def tables_ok_def intro: rp_wf_get)
  have ll1: "ll_identity ll1 = ll_identity ll" "ll_peers ll1 = []" "ll_pinned ll1 = []"
    "rp_peers (ll_replay ll1) = []" "ll_max_peers ll1 = 64" "rp_max_peers (ll_replay ll1) = 64"
    using restart(1) by (auto simp: link_layer_new_def Let_def arc_new_def replay_protector_new_def
      split: sum.splits)
  have win: "bit (window (prs_window st)) 0" using wf st(2) by (simp add: rw_wf_def)
  have tr: "parse_trust_record c ll1 (take n out') minrev = Inr \<lparr>tr_revision = rv, tr_peer_key = tp_pubkey t,
      tr_durable = tp_durable_key_generation t, tr_serial = tp_durable_generation_serial t,
      tr_next_serial = ll_next_durable_generation ll, tr_floor = map_option (c_sha256 c) floor,
      tr_last_epoch = last_epoch st, tr_window = \<lparr>last_seq = last_seq (prs_window st),
        window = window (prs_window st), initialised = True, rw_state = RwTracking\<rparr>\<rparr>"
    unfolding out
    by (rule parse_trust_state_body [OF refl refl]) (use sizes t dl crypto ll1 r0 rv dur win in simp_all)
  obtain q2 g where gen: "allocate_key_generation q1 = Some (q2, g)"
    using restart(2) by auto
  have pi: "pi_iid (peer_from_pubkey c (tp_pubkey t)) = iid" "pi_pubkey (peer_from_pubkey c (tp_pubkey t)) = tp_pubkey t"
    "peer_from_pubkey c (tp_pubkey t) = tp_identity t"
    using iid by (simp_all add: peer_from_pubkey_def)
  show ?thesis
    using t pi st
    by (simp add: restore_peer_trust_state_def tr gen ll1 install_restored_def Let_def arc_new_def rp_blocks_def rw_blocks_def)
qed

lemma toy_sealed_evaluates:
  "(case Option.bind (toy_node 2) (ll_run toy_crypto [EvAddPeer (toy_key 1), EvReceive (RxMillis (toy_wire 5) 9)]) of
      Some (p, ll) \<Rightarrow>
        length (id_pubkey (ll_identity ll)) = 32 \<and> list_all (\<lambda>(_, t). length (tp_pubkey t) = 32) (ll_peers ll) \<and>
        (case persist_peer_trust_state toy_crypto ll (replicate 8 1) 4 None (replicate 220 0) of
           Inr (out, n) \<Rightarrow> (case link_layer_new (ll_identity ll) process_start of
             Some (q, _) \<Rightarrow> allocate_key_generation q \<noteq> None | None \<Rightarrow> False)
         | Inl _ \<Rightarrow> False)
    | None \<Rightarrow> False)"
  by code_simp

theorem trust_state_survives_restart_witness:
  "\<exists>p ll out n q ll1 s2. reachable toy_crypto (p, ll)
     \<and> persist_peer_trust_state toy_crypto ll (replicate 8 1) 4 None (replicate 220 0) = Inr (out, n)
     \<and> link_layer_new (ll_identity ll) process_start = Some (q, ll1)
     \<and> restore_peer_trust_state toy_crypto (take n out) 3 (q, ll1) = (s2, Inr 4)"
proof -
  let ?es = "[EvAddPeer (toy_key 1), EvReceive (RxMillis (toy_wire 5) 9)]"
  obtain p ll where r: "Option.bind (toy_node 2) (ll_run toy_crypto ?es) = Some (p, ll)"
    using toy_sealed_evaluates by (auto simp del: ll_run.simps split: option.splits)
  note ev = toy_sealed_evaluates [unfolded r option.case prod.case]
  obtain out n q ll1 where b: "persist_peer_trust_state toy_crypto ll (replicate 8 1) 4 None (replicate 220 0) = Inr (out, n)"
    "link_layer_new (ll_identity ll) process_start = Some (q, ll1)" "allocate_key_generation q \<noteq> None"
    using ev by (auto split: option.splits sum.splits)
  have reach: "reachable toy_crypto (p, ll)"
    using r reachable.start reachable_run by (force simp: bind_eq_Some_conv toy_node_def simp del: ll_run.simps)
  have sz: "length (tp_pubkey t) = 32" if "hm_get (ll_peers ll) i = Some t" for i t
    using ev that by (auto simp: list_all_iff dest: hm_get_SomeD)
  have c: "length (c_sha256 toy_crypto m) = 32" "length (c_sign toy_crypto sk pk m) = 48"
    "c_verify toy_crypto pk m (c_sign toy_crypto sk pk m)" for m sk pk
    by (simp_all add: toy_crypto_def)
  have "\<exists>q2 ll2. restore_peer_trust_state toy_crypto (take n out) 3 (q, ll1) = ((q2, ll2), Inr 4)"
    using trust_state_survives_restart [where minrev = 3, OF reach _ _ c b] sz ev by auto
  then show ?thesis
    using reach b by blast
qed

end
