(* ===== verification/Link_Relay.thy ===== *)
theory Link_Relay
  imports Link_History
begin

text \<open>
  Hop-by-hop relaying (\<open>lichen-link/src/relay.rs\<close>): an inbound frame is received as any other, and
  only a frame that was accepted is sent on, under this node's own signature. The output buffer
  is returned with the result.
\<close>

datatype relay_error = RelayInbound link_rx_error | RelayOutbound frame_error

record relay_outcome =
  ro_len :: nat
  ro_upstream :: peer_identity

definition relay_verified_frame ::
  "crypto \<Rightarrow> bytes \<Rightarrow> bytes \<Rightarrow> addr_mode \<Rightarrow> bytes option \<Rightarrow> u8 \<Rightarrow> link_seqnum \<Rightarrow> bytes \<Rightarrow> link_layer \<Rightarrow>
   (link_layer \<times> bytes \<times> (relay_error + relay_outcome)) option" where
  "relay_verified_frame c inbound_wire next_dst next_addr_mode payload_override epoch seqnum out ll =
     (case receive_frame c inbound_wire ll of
        None \<Rightarrow> None
      | Some (ll, Inl e) \<Rightarrow> Some (ll, out, Inl (RelayInbound e))
      | Some (ll, Inr verified) \<Rightarrow>
          let upstream = af_sender verified;
              outbound_payload = (case payload_override of Some mutated \<Rightarrow> mutated | None \<Rightarrow> af_payload verified)
          in case build_frame_with_addr_mode c ll epoch seqnum next_dst outbound_payload next_addr_mode out of
               None \<Rightarrow> None
             | Some (Inl e) \<Rightarrow> Some (ll, out, Inl (RelayOutbound e))
             | Some (Inr (out, len)) \<Rightarrow> Some (ll, out, Inr \<lparr>ro_len = len, ro_upstream = upstream\<rparr>))"

text \<open>
  A relay changes the link layer exactly as the reception of the inbound frame does, so the
  guarantees over histories of receptions cover it.
\<close>

lemma relay_is_reception:
  "relay_verified_frame c wire dst mode ov e s out ll = Some (ll', out', res) \<Longrightarrow>
     map_option fst (receive_frame c wire ll) = Some ll'"
  by (auto simp: relay_verified_frame_def Let_def split: option.splits sum.splits)

text \<open>
  What a relay emits parses as a frame with this node as signer, the given counters and next hop
  and the payload of an inbound frame that was accepted, or the caller's mutation of it; a frame
  that is not accepted leaves the output buffer as it was.
\<close>

lemma relay_emits_verified:
  assumes "relay_verified_frame c wire dst mode ov e s out ll = Some (ll', out', Inr oc)"
  shows "\<exists>af f. receive_frame c wire ll = Some (ll', Inr af) \<and> ro_upstream oc = af_sender af \<and>
    frame_from_bytes (take (ro_len oc) out') = Inr f \<and> f_signer_eui64 f = local_eui64 ll' \<and> f_epoch f = e \<and>
    f_seqnum f = s \<and> f_dst_addr f = dst \<and> f_payload f = (case ov of Some p \<Rightarrow> p | None \<Rightarrow> af_payload af)"
proof -
  obtain af where af: "receive_frame c wire ll = Some (ll', Inr af)" "ro_upstream oc = af_sender af"
    and b: "build_frame_with_addr_mode c ll' e s dst (case ov of Some p \<Rightarrow> p | None \<Rightarrow> af_payload af) mode out =
      Some (Inr (out', ro_len oc))"
    using assms by (auto simp: relay_verified_frame_def Let_def split: option.splits sum.splits)
  from build_frame_Inr [OF b] show ?thesis
    using af frame_from_bytes_wire by (metis lichen_frame.select_convs)
qed

lemma relay_rejects_untouched:
  "relay_verified_frame c wire dst mode ov e s out ll = Some (ll', out', Inl err) \<Longrightarrow> out' = out"
  by (auto simp: relay_verified_frame_def Let_def split: option.splits sum.splits)

end
