(* ===== verification/Airtime.thy ===== *)
theory Airtime
  imports Complex_Main LichenPrelude
begin

text \<open>
  Packet airtime of the SX127x modem (\<open>lichen-core/src/airtime.rs\<close>): the integer computation
  and its agreement with the real-valued formula of the data sheet. The \<open>i32\<close> intermediates
  are integers, the \<open>u32\<close> and \<open>u64\<close> ones are words.
\<close>

unbundle bit_operations_syntax

definition SUPPORTED_BANDWIDTHS_HZ :: "u32 list" where
  "SUPPORTED_BANDWIDTHS_HZ =
     [7800, 10400, 15600, 20800, 31250, 41700, 62500, 125000, 250000, 500000]"

definition MIN_PREAMBLE_SYMBOLS :: u16 where "MIN_PREAMBLE_SYMBOLS = 6"

datatype airtime_error =
    InvalidPayloadLength u16
  | InvalidSpreadingFactor u8
  | Sf6RequiresImplicitHeader
  | InvalidBandwidth u32
  | InvalidCodingRate u8
  | InvalidPreamble u16

record airtime_config =
  spreading_factor :: u8
  bandwidth_hz :: u32
  coding_rate :: u8
  preamble_symbols :: u16
  crc_enabled :: bool
  implicit_header :: bool
  low_data_rate_optimization :: "bool option"

definition airtime_config_default :: airtime_config where
  "airtime_config_default = \<lparr>spreading_factor = 10, bandwidth_hz = 125000, coding_rate = 5,
     preamble_symbols = 8, crc_enabled = True, implicit_header = False,
     low_data_rate_optimization = None\<rparr>"

definition low_data_rate_optimization_enabled :: "airtime_config \<Rightarrow> bool" where
  "low_data_rate_optimization_enabled cfg =
     (case low_data_rate_optimization cfg of
        Some enabled \<Rightarrow> enabled
      | None \<Rightarrow> push_bit (unat (spreading_factor cfg)) 1 * 1000 \<ge> 16 * bandwidth_hz cfg)"

definition airtime_validate :: "airtime_config \<Rightarrow> u16 \<Rightarrow> airtime_error + unit" where
  "airtime_validate cfg payload_len =
     (if payload_len > 255 then Inl (InvalidPayloadLength payload_len)
      else if spreading_factor cfg < 6 \<or> spreading_factor cfg > 12
        then Inl (InvalidSpreadingFactor (spreading_factor cfg))
      else if spreading_factor cfg = 6 \<and> \<not> implicit_header cfg then Inl Sf6RequiresImplicitHeader
      else if bandwidth_hz cfg \<notin> set SUPPORTED_BANDWIDTHS_HZ
        then Inl (InvalidBandwidth (bandwidth_hz cfg))
      else if coding_rate cfg < 5 \<or> coding_rate cfg > 8 then Inl (InvalidCodingRate (coding_rate cfg))
      else if preamble_symbols cfg < MIN_PREAMBLE_SYMBOLS
        then Inl (InvalidPreamble (preamble_symbols cfg))
      else Inr ())"

text \<open>The divisor of the block count is positive for every validated configuration.\<close>

definition airtime_us_with_config :: "u16 \<Rightarrow> airtime_config \<Rightarrow> airtime_error + u64" where
  "airtime_us_with_config payload_len cfg =
     (case airtime_validate cfg payload_len of
        Inl e \<Rightarrow> Inl e
      | Inr _ \<Rightarrow>
          let sf = uint (spreading_factor cfg);
              de = of_bool (low_data_rate_optimization_enabled cfg);
              ih = of_bool (implicit_header cfg);
              crc = of_bool (crc_enabled cfg);
              payload_numerator = 8 * uint payload_len - 4 * sf + 28 + 16 * crc - 20 * ih;
              payload_denominator = 4 * (sf - 2 * de);
              coded_blocks = (if payload_numerator \<le> 0 then 0
                 else (payload_numerator + payload_denominator - 1) div payload_denominator);
              payload_symbols = 8 + word_of_int coded_blocks * ucast (coding_rate cfg);
              quarter_symbols = 4 * ucast (preamble_symbols cfg) + 17 + 4 * payload_symbols;
              numerator = quarter_symbols * push_bit (unat (spreading_factor cfg)) 1 * 1000000;
              denominator = 4 * ucast (bandwidth_hz cfg)
          in Inr (numerator div denominator))"

definition airtime_us :: "u16 \<Rightarrow> airtime_error + u64" where
  "airtime_us payload_len = airtime_us_with_config payload_len airtime_config_default"

section \<open>The formula of the data sheet\<close>

definition semtech_coded :: "u16 \<Rightarrow> airtime_config \<Rightarrow> int" where
  "semtech_coded len cfg =
     (let sf = real (unat (spreading_factor cfg)) in
      max 0 (\<lceil>(8 * real (unat len) - 4 * sf + 28 + 16 * of_bool (crc_enabled cfg)
               - 20 * of_bool (implicit_header cfg))
             / (4 * (sf - 2 * of_bool (low_data_rate_optimization_enabled cfg)))\<rceil>
         * int (unat (coding_rate cfg))))"

definition semtech_airtime :: "u16 \<Rightarrow> airtime_config \<Rightarrow> int" where
  "semtech_airtime len cfg =
     \<lfloor>(real (unat (preamble_symbols cfg)) + 4.25 + 8 + real_of_int (semtech_coded len cfg))
      * 2 ^ unat (spreading_factor cfg) / real (unat (bandwidth_hz cfg)) * 1000000\<rfloor>"

lemma ceiling_div_eq:
  assumes "0 < (d :: int)"
  shows "\<lceil>real_of_int n / real_of_int d\<rceil> = (n + d - 1) div d"
proof -
  define q r where "q = (n + d - 1) div d" and "r = (n + d - 1) mod d"
  have "n + d - 1 = d * q + r" "0 \<le> r" "r < d"
    using assms by (simp_all add: q_def r_def)
  then have "- n = d * (- q) + (d - 1 - r)" by simp
  then have "(- n) div d = - q"
    by (rule int_div_pos_eq) (use \<open>0 \<le> r\<close> \<open>r < d\<close> in simp_all)
  then show ?thesis
    by (simp add: ceiling_divide_eq_div q_def)
qed

lemma airtime_validate_Inr:
  "airtime_validate cfg len = Inr u \<longleftrightarrow>
     len \<le> 255 \<and> 6 \<le> spreading_factor cfg \<and> spreading_factor cfg \<le> 12
     \<and> (spreading_factor cfg = 6 \<longrightarrow> implicit_header cfg) \<and> bandwidth_hz cfg \<in> set SUPPORTED_BANDWIDTHS_HZ
     \<and> 5 \<le> coding_rate cfg \<and> coding_rate cfg \<le> 8 \<and> 6 \<le> preamble_symbols cfg"
  by (auto simp: airtime_validate_def MIN_PREAMBLE_SYMBOLS_def)

lemma bandwidth_range:
  "b \<in> set SUPPORTED_BANDWIDTHS_HZ \<Longrightarrow> 7800 \<le> unat b \<and> unat b \<le> 500000"
  by (auto simp: SUPPORTED_BANDWIDTHS_HZ_def)

lemma semtech_coded_eq:
  assumes "airtime_validate cfg len = Inr u"
  defines "sf \<equiv> uint (spreading_factor cfg)"
  defines "num \<equiv> 8 * uint len - 4 * sf + 28 + 16 * of_bool (crc_enabled cfg) - 20 * of_bool (implicit_header cfg)"
  defines "den \<equiv> 4 * (sf - 2 * of_bool (low_data_rate_optimization_enabled cfg))"
  obtains k where "(if num \<le> 0 then 0 else (num + den - 1) div den) = int k" and "k \<le> 2108"
    and "semtech_coded len cfg = int (k * unat (coding_rate cfg))"
proof -
  have sf: "6 \<le> sf" "sf \<le> 12" and len: "0 \<le> uint len" "uint len \<le> 255"
    using assms(1) by (auto simp: airtime_validate_Inr sf_def word_le_def)
  have den: "16 \<le> den" "den \<le> 48"
    using sf by (auto simp: den_def)
  have num: "num \<le> 2060"
    using sf len by (auto simp: num_def)
  have coded: "semtech_coded len cfg = max 0 (\<lceil>real_of_int num / real_of_int den\<rceil> * int (unat (coding_rate cfg)))"
    by (simp add: semtech_coded_def Let_def num_def den_def sf_def)
  show thesis
  proof (cases "num \<le> 0")
    case True
    then have "real_of_int num / real_of_int den \<le> 0"
      using den by (simp add: divide_le_0_iff)
    then have "\<lceil>real_of_int num / real_of_int den\<rceil> \<le> 0" by simp
    then show thesis
      using True by (intro that [of 0]) (simp_all add: coded mult_nonpos_nonneg)
  next
    case False
    let ?k = "(num + den - 1) div den"
    have k: "0 \<le> ?k" "?k \<le> num + den - 1"
      using False den int_div_less_self [of "num + den - 1" den] by (simp_all add: pos_imp_zdiv_nonneg_iff)
    have "\<lceil>real_of_int num / real_of_int den\<rceil> = ?k"
      by (rule ceiling_div_eq) (use den in simp)
    then show thesis
      using False k num den by (intro that [of "nat ?k"]) (simp_all add: coded nat_mult_distrib)
  qed
qed

text \<open>
  C39. The integer-only airtime computation is the data-sheet formula: for every configuration
  that passes validation, the returned microsecond count is the floor of
  \<open>(Npreamble + 4.25 + 8 + Ncoded) * 2^SF / BW\<close> evaluated over the reals. In particular no
  64-bit intermediate wraps around.
\<close>

theorem airtime_us_semtech:
  assumes "airtime_validate cfg len = Inr u"
  shows "\<exists>t. airtime_us_with_config len cfg = Inr t \<and> int (unat t) = semtech_airtime len cfg"
proof -
  obtain k where k: "(let sf = uint (spreading_factor cfg);
          num = 8 * uint len - 4 * sf + 28 + 16 * of_bool (crc_enabled cfg) - 20 * of_bool (implicit_header cfg);
          den = 4 * (sf - 2 * of_bool (low_data_rate_optimization_enabled cfg))
        in if num \<le> 0 then 0 else (num + den - 1) div den) = int k" "k \<le> 2108"
      "semtech_coded len cfg = int (k * unat (coding_rate cfg))"
    unfolding Let_def using semtech_coded_eq [OF assms] by metis
  define Q where "Q = 4 * unat (preamble_symbols cfg) + 17 + 4 * (8 + k * unat (coding_rate cfg))"
  define N where "N = Q * 2 ^ unat (spreading_factor cfg) * 1000000"
  define D where "D = 4 * unat (bandwidth_hz cfg)"
  have cr: "unat (coding_rate cfg) \<le> 8" and sf: "unat (spreading_factor cfg) \<le> 12"
    and bw: "7800 \<le> unat (bandwidth_hz cfg)" "unat (bandwidth_hz cfg) \<le> 500000"
    using assms bandwidth_range by (auto simp: airtime_validate_Inr word_le_nat_alt)
  have pre: "unat (preamble_symbols cfg) < 65536"
    using unat_bound [of "preamble_symbols cfg"] by simp
  have "k * unat (coding_rate cfg) \<le> 2108 * 8"
    using k(2) cr by (rule mult_le_mono)
  then have Q: "Q \<le> 329645" using pre by (simp add: Q_def)
  moreover have p: "(2::nat) ^ unat (spreading_factor cfg) \<le> 4096"
    using power_increasing [OF sf, of "2::nat"] by simp
  ultimately have "Q * 2 ^ unat (spreading_factor cfg) \<le> 329645 * 4096"
    by (rule mult_le_mono)
  then have N: "N < 2 ^ 64" by (simp add: N_def)
  have D: "D < 2 ^ 64" using bw by (simp add: D_def)
  have airtime: "airtime_us_with_config len cfg = Inr (word_of_nat N div word_of_nat D)"
    using assms k(1) unfolding airtime_us_with_config_def Let_def
    by (simp add: N_def D_def Q_def push_bit_eq_mult)
  have u: "unat (word_of_nat N div word_of_nat D :: u64) = N div D"
    using N D by (simp add: unat_div_distrib unat_of_nat_small)
  have "semtech_airtime len cfg = \<lfloor>real N / real D\<rfloor>"
    using bw by (simp add: semtech_airtime_def k(3) N_def D_def Q_def field_simps)
  then have "int (unat (word_of_nat N div word_of_nat D :: u64)) = semtech_airtime len cfg"
    by (simp only: u floor_divide_of_nat_eq)
  with airtime show ?thesis by blast
qed

theorem airtime_us_semtech_witness:
  "airtime_us 60 = Inr 698368 \<and> semtech_airtime 60 airtime_config_default = 698368"
proof -
  have v: "airtime_validate airtime_config_default 60 = Inr ()"
    by (simp add: airtime_validate_Inr airtime_config_default_def SUPPORTED_BANDWIDTHS_HZ_def)
  have a: "airtime_us 60 = Inr 698368" by code_simp
  then show ?thesis
    using airtime_us_semtech [OF v] by (auto simp: airtime_us_def)
qed

end
