(* ===== verification/Heapless.thy ===== *)
theory Heapless
  imports LichenPrelude
begin

text \<open>
  The containers of the third-party crate \<open>heapless\<close>, as parameters: a record of the operations
  the code calls, and the behaviour the crate documents for them as a predicate that theorems
  about clients assume. The list instances at the end satisfy the predicates and run.
\<close>

section \<open>Double-ended queues of fixed capacity\<close>

record ('a, 'q) deque_ops =
  dq_new :: 'q
  dq_push_back :: "'a \<Rightarrow> 'q \<Rightarrow> 'q option"
  dq_front :: "'q \<Rightarrow> 'a option"
  dq_pop_front :: "'q \<Rightarrow> 'q"
  dq_iter :: "'q \<Rightarrow> 'a list"
  dq_clear :: "'q \<Rightarrow> 'q"

text \<open>
  \<open>push_back\<close> appends unless the deque holds \<open>n\<close> elements, and then reports an error;
  \<open>front\<close>, \<open>pop_front\<close> and \<open>iter\<close> see the elements in insertion order.
\<close>

definition deque_laws :: "('a, 'q) deque_ops \<Rightarrow> nat \<Rightarrow> bool" where
  "deque_laws dq n \<longleftrightarrow>
     dq_iter dq (dq_new dq) = [] \<and>
     (\<forall>x q. case dq_push_back dq x q of
        Some q' \<Rightarrow> length (dq_iter dq q) < n \<and> dq_iter dq q' = dq_iter dq q @ [x]
      | None \<Rightarrow> n \<le> length (dq_iter dq q)) \<and>
     (\<forall>q. dq_front dq q = (case dq_iter dq q of [] \<Rightarrow> None | x # _ \<Rightarrow> Some x)) \<and>
     (\<forall>q. dq_iter dq (dq_pop_front dq q) = tl (dq_iter dq q)) \<and>
     (\<forall>q. dq_iter dq (dq_clear dq q) = [])"

lemma deque_lawsD:
  assumes "deque_laws dq n"
  shows deque_new: "dq_iter dq (dq_new dq) = []"
    and deque_front: "dq_front dq q = (case dq_iter dq q of [] \<Rightarrow> None | x # _ \<Rightarrow> Some x)"
    and deque_pop: "dq_iter dq (dq_pop_front dq q) = tl (dq_iter dq q)"
    and deque_clear: "dq_iter dq (dq_clear dq q) = []"
    and deque_push: "dq_push_back dq x q = Some q' \<Longrightarrow> dq_iter dq q' = dq_iter dq q @ [x]"
    and deque_push_Some: "(\<exists>q'. dq_push_back dq x q = Some q') \<longleftrightarrow> length (dq_iter dq q) < n"
proof -
  note d = assms [unfolded deque_laws_def]
  have push: "case dq_push_back dq x q of
        Some q' \<Rightarrow> length (dq_iter dq q) < n \<and> dq_iter dq q' = dq_iter dq q @ [x]
      | None \<Rightarrow> n \<le> length (dq_iter dq q)"
    using d by blast
  show "dq_push_back dq x q = Some q' \<Longrightarrow> dq_iter dq q' = dq_iter dq q @ [x]"
    "(\<exists>q'. dq_push_back dq x q = Some q') \<longleftrightarrow> length (dq_iter dq q) < n"
    using push by (auto split: option.splits)
qed (use assms in \<open>simp_all add: deque_laws_def\<close>)

definition list_deque :: "nat \<Rightarrow> ('a, 'a list) deque_ops" where
  "list_deque n = \<lparr>dq_new = [], dq_push_back = (\<lambda>x q. if length q < n then Some (q @ [x]) else None),
     dq_front = (\<lambda>q. case q of [] \<Rightarrow> None | x # _ \<Rightarrow> Some x), dq_pop_front = tl, dq_iter = (\<lambda>q. q),
     dq_clear = (\<lambda>_. [])\<rparr>"

lemma list_deque_laws: "deque_laws (list_deque n) n"
  by (simp add: deque_laws_def list_deque_def)

section \<open>Vectors of fixed capacity\<close>

record ('a, 'v) vec_ops =
  vc_new :: 'v
  vc_push :: "'a \<Rightarrow> 'v \<Rightarrow> 'v option"
  vc_extend :: "'a list \<Rightarrow> 'v \<Rightarrow> 'v option"
  vc_iter :: "'v \<Rightarrow> 'a list"

text \<open>\<open>push\<close> and \<open>extend_from_slice\<close> append, or fail when the result would exceed the capacity.\<close>

definition vec_laws :: "('a, 'v) vec_ops \<Rightarrow> nat \<Rightarrow> bool" where
  "vec_laws vc n \<longleftrightarrow>
     vc_iter vc (vc_new vc) = [] \<and>
     (\<forall>x v. case vc_push vc x v of
        Some v' \<Rightarrow> length (vc_iter vc v) < n \<and> vc_iter vc v' = vc_iter vc v @ [x]
      | None \<Rightarrow> n \<le> length (vc_iter vc v)) \<and>
     (\<forall>xs v. case vc_extend vc xs v of
        Some v' \<Rightarrow> length (vc_iter vc v) + length xs \<le> n \<and> vc_iter vc v' = vc_iter vc v @ xs
      | None \<Rightarrow> n < length (vc_iter vc v) + length xs)"

lemma vec_lawsD:
  assumes "vec_laws vc n"
  shows vec_new: "vc_iter vc (vc_new vc) = []"
    and vec_push: "vc_push vc x v = Some v' \<Longrightarrow> vc_iter vc v' = vc_iter vc v @ [x]"
    and vec_push_Some: "(\<exists>v'. vc_push vc x v = Some v') \<longleftrightarrow> length (vc_iter vc v) < n"
    and vec_extend: "vc_extend vc xs v = Some v' \<Longrightarrow> vc_iter vc v' = vc_iter vc v @ xs"
    and vec_extend_Some: "(\<exists>v'. vc_extend vc xs v = Some v') \<longleftrightarrow> length (vc_iter vc v) + length xs \<le> n"
proof -
  note d = assms [unfolded vec_laws_def]
  show "vc_iter vc (vc_new vc) = []" using d by blast
  have push: "case vc_push vc x v of
        Some v' \<Rightarrow> length (vc_iter vc v) < n \<and> vc_iter vc v' = vc_iter vc v @ [x]
      | None \<Rightarrow> n \<le> length (vc_iter vc v)"
    and extend: "case vc_extend vc xs v of
        Some v' \<Rightarrow> length (vc_iter vc v) + length xs \<le> n \<and> vc_iter vc v' = vc_iter vc v @ xs
      | None \<Rightarrow> n < length (vc_iter vc v) + length xs"
    using d by blast+
  show "vc_push vc x v = Some v' \<Longrightarrow> vc_iter vc v' = vc_iter vc v @ [x]"
    "(\<exists>v'. vc_push vc x v = Some v') \<longleftrightarrow> length (vc_iter vc v) < n"
    using push by (auto split: option.splits)
  show "vc_extend vc xs v = Some v' \<Longrightarrow> vc_iter vc v' = vc_iter vc v @ xs"
    "(\<exists>v'. vc_extend vc xs v = Some v') \<longleftrightarrow> length (vc_iter vc v) + length xs \<le> n"
    using extend by (auto split: option.splits)
qed

definition list_vec :: "nat \<Rightarrow> ('a, 'a list) vec_ops" where
  "list_vec n = \<lparr>vc_new = [], vc_push = (\<lambda>x v. if length v < n then Some (v @ [x]) else None),
     vc_extend = (\<lambda>xs v. if length v + length xs \<le> n then Some (v @ xs) else None), vc_iter = (\<lambda>v. v)\<rparr>"

lemma list_vec_laws: "vec_laws (list_vec n) n"
  by (simp add: vec_laws_def list_vec_def)

section \<open>Binary max-heaps of fixed capacity\<close>

record ('a, 'h) heap_ops =
  hp_new :: 'h
  hp_push :: "'a \<Rightarrow> 'h \<Rightarrow> 'h option"
  hp_pop :: "'h \<Rightarrow> ('a \<times> 'h) option"
  hp_peek :: "'h \<Rightarrow> 'a option"
  hp_iter :: "'h \<Rightarrow> 'a list"

text \<open>The comparison is a total preorder on a collection of elements.\<close>

definition cmp_total_on :: "('a \<Rightarrow> 'a \<Rightarrow> rordering) \<Rightarrow> 'a set \<Rightarrow> bool" where
  "cmp_total_on cmp A \<longleftrightarrow>
     (\<forall>x\<in>A. \<forall>y\<in>A. cmp x y = OLess \<longleftrightarrow> cmp y x = OGreater) \<and>
     (\<forall>x\<in>A. \<forall>y\<in>A. \<forall>z\<in>A. cmp x y \<noteq> OLess \<longrightarrow> cmp y z \<noteq> OLess \<longrightarrow> cmp x z \<noteq> OLess)"

text \<open>
  \<open>push\<close> adds an element unless the heap is at capacity, \<open>pop\<close> removes one, which is greatest if
  the comparison is a total preorder on the contents, \<open>peek\<close> shows what \<open>pop\<close> would
  return, and \<open>iter\<close> visits the contents in some order.
\<close>

definition heap_laws :: "('a \<Rightarrow> 'a \<Rightarrow> rordering) \<Rightarrow> ('a, 'h) heap_ops \<Rightarrow> nat \<Rightarrow> bool" where
  "heap_laws cmp hp n \<longleftrightarrow>
     hp_iter hp (hp_new hp) = [] \<and>
     (\<forall>x h. case hp_push hp x h of
        Some h' \<Rightarrow> length (hp_iter hp h) < n \<and> mset (hp_iter hp h') = add_mset x (mset (hp_iter hp h))
      | None \<Rightarrow> n \<le> length (hp_iter hp h)) \<and>
     (\<forall>h. case hp_pop hp h of
        None \<Rightarrow> hp_iter hp h = []
      | Some (x, h') \<Rightarrow> mset (hp_iter hp h) = add_mset x (mset (hp_iter hp h')) \<and>
          (cmp_total_on cmp (set (hp_iter hp h)) \<longrightarrow> (\<forall>y\<in>set (hp_iter hp h). cmp x y \<noteq> OLess))) \<and>
     (\<forall>h. hp_peek hp h = map_option fst (hp_pop hp h))"

lemma heap_lawsD:
  assumes "heap_laws cmp hp n"
  shows heap_new: "hp_iter hp (hp_new hp) = []"
    and heap_push: "hp_push hp x h = Some h' \<Longrightarrow> mset (hp_iter hp h') = add_mset x (mset (hp_iter hp h))"
    and heap_push_Some: "(\<exists>h'. hp_push hp x h = Some h') \<longleftrightarrow> length (hp_iter hp h) < n"
    and heap_pop_None: "hp_pop hp h = None \<longleftrightarrow> hp_iter hp h = []"
    and heap_pop: "hp_pop hp h = Some (x, h') \<Longrightarrow> mset (hp_iter hp h) = add_mset x (mset (hp_iter hp h'))"
    and heap_pop_greatest: "hp_pop hp h = Some (x, h') \<Longrightarrow> cmp_total_on cmp (set (hp_iter hp h))
      \<Longrightarrow> y \<in> set (hp_iter hp h) \<Longrightarrow> cmp x y \<noteq> OLess"
    and heap_peek: "hp_peek hp h = map_option fst (hp_pop hp h)"
proof -
  note d = assms [unfolded heap_laws_def]
  have push: "case hp_push hp x h of
        Some h' \<Rightarrow> length (hp_iter hp h) < n \<and> mset (hp_iter hp h') = add_mset x (mset (hp_iter hp h))
      | None \<Rightarrow> n \<le> length (hp_iter hp h)" and
    pop: "case hp_pop hp h of
        None \<Rightarrow> hp_iter hp h = []
      | Some (x, h') \<Rightarrow> mset (hp_iter hp h) = add_mset x (mset (hp_iter hp h')) \<and>
          (cmp_total_on cmp (set (hp_iter hp h)) \<longrightarrow> (\<forall>y\<in>set (hp_iter hp h). cmp x y \<noteq> OLess))"
    using d by blast+
  show "hp_iter hp (hp_new hp) = []" "hp_peek hp h = map_option fst (hp_pop hp h)"
    using d by blast+
  show "hp_push hp x h = Some h' \<Longrightarrow> mset (hp_iter hp h') = add_mset x (mset (hp_iter hp h))"
    "(\<exists>h'. hp_push hp x h = Some h') \<longleftrightarrow> length (hp_iter hp h) < n"
    using push by (auto split: option.splits)
  show "hp_pop hp h = None \<longleftrightarrow> hp_iter hp h = []"
    "hp_pop hp h = Some (x, h') \<Longrightarrow> mset (hp_iter hp h) = add_mset x (mset (hp_iter hp h'))"
    "hp_pop hp h = Some (x, h') \<Longrightarrow> cmp_total_on cmp (set (hp_iter hp h))
      \<Longrightarrow> y \<in> set (hp_iter hp h) \<Longrightarrow> cmp x y \<noteq> OLess"
    using pop by (auto split: option.splits)
qed

fun list_max :: "('a \<Rightarrow> 'a \<Rightarrow> rordering) \<Rightarrow> 'a \<Rightarrow> 'a list \<Rightarrow> 'a" where
  "list_max cmp m [] = m"
| "list_max cmp m (x # xs) = list_max cmp (if cmp m x = OLess then x else m) xs"

definition list_heap :: "('a \<Rightarrow> 'a \<Rightarrow> rordering) \<Rightarrow> nat \<Rightarrow> ('a, 'a list) heap_ops" where
  "list_heap cmp n = \<lparr>hp_new = [], hp_push = (\<lambda>x h. if length h < n then Some (h @ [x]) else None),
     hp_pop = (\<lambda>h. case h of [] \<Rightarrow> None | x # xs \<Rightarrow> let m = list_max cmp x xs in Some (m, remove1 m h)),
     hp_peek = (\<lambda>h. case h of [] \<Rightarrow> None | x # xs \<Rightarrow> Some (list_max cmp x xs)), hp_iter = (\<lambda>h. h)\<rparr>"

lemma list_max_in: "list_max cmp m xs \<in> insert m (set xs)"
  by (induction cmp m xs rule: list_max.induct) auto

lemma list_max_greatest:
  assumes "cmp_total_on cmp A" and "insert m (set xs) \<subseteq> A" and "y \<in> insert m (set xs)"
  shows "cmp (list_max cmp m xs) y \<noteq> OLess"
  using assms(2,3)
proof (induction xs arbitrary: m y)
  case Nil
  then show ?case
    using assms(1) by (auto simp: cmp_total_on_def dest!: bspec)
next
  case (Cons x xs)
  define m' where "m' = (if cmp m x = OLess then x else m)"
  have sym: "cmp a b = OLess \<longleftrightarrow> cmp b a = OGreater" if "a \<in> A" "b \<in> A" for a b
    using assms(1) that by (simp add: cmp_total_on_def)
  have trans: "cmp a b \<noteq> OLess \<Longrightarrow> cmp b c \<noteq> OLess \<Longrightarrow> cmp a c \<noteq> OLess" if "a \<in> A" "b \<in> A" "c \<in> A" for a b c
    using assms(1) that unfolding cmp_total_on_def by blast
  have A: "m \<in> A" "x \<in> A" "m' \<in> A" "set xs \<subseteq> A"
    using Cons.prems(1) by (auto simp: m'_def)
  have IH: "cmp (list_max cmp m' xs) z \<noteq> OLess" if "z \<in> insert m' (set xs)" for z
    using that A by (intro Cons.IH) auto
  have mx: "list_max cmp m' xs \<in> A"
    using list_max_in [of cmp m' xs] A(3,4) by auto
  have m': "cmp m' m \<noteq> OLess" "cmp m' x \<noteq> OLess"
    using A sym [of m x] sym [of m m] sym [of x x] by (auto simp: m'_def)
  have "cmp (list_max cmp m' xs) y \<noteq> OLess"
    using Cons.prems(2) IH trans [OF mx A(3,1)] trans [OF mx A(3,2)] m' by auto
  then show ?case by (simp add: m'_def)
qed

lemma list_heap_laws: "heap_laws cmp (list_heap cmp n) n"
proof -
  have "mset h = add_mset y (mset h') \<and>
      (cmp_total_on cmp (set h) \<longrightarrow> (\<forall>z\<in>set h. cmp y z \<noteq> OLess))"
    if pop: "hp_pop (list_heap cmp n) h = Some (y, h')" for h y h'
  proof -
    obtain x xs where h: "h = x # xs" "y = list_max cmp x xs" "h' = remove1 y h"
      using pop by (cases h) (auto simp: list_heap_def Let_def)
    have "y \<in># mset h" using list_max_in [of cmp x xs] h by simp
    then have "mset h = add_mset y (mset h')"
      unfolding h(3) mset_remove1 by (rule insert_DiffM [symmetric])
    then show ?thesis
      using list_max_greatest [of cmp "set h" x xs] h(1,2) by simp
  qed
  moreover have "hp_pop (list_heap cmp n) h = None \<Longrightarrow> hp_iter (list_heap cmp n) h = []"
    "hp_peek (list_heap cmp n) h = map_option fst (hp_pop (list_heap cmp n) h)" for h
    by (cases h; simp add: list_heap_def Let_def)+
  moreover have "hp_iter (list_heap cmp n) h = h" for h
    by (simp add: list_heap_def)
  moreover have "hp_push (list_heap cmp n) x h = (if length h < n then Some (h @ [x]) else None)"
    "hp_new (list_heap cmp n) = []" for x h
    by (simp_all add: list_heap_def)
  ultimately show ?thesis
    unfolding heap_laws_def by (simp split: option.split)
qed

end
