(* ===== verification/Duty_Cycle.thy ===== *)
theory Duty_Cycle
  imports Heapless
begin

text \<open>
  Duty-cycle accounting (\<open>lichen-core/src/duty_cycle.rs\<close>) over a bounded deque of transmission
  records, the congestion levels derived from it, and the traffic priorities of
  \<open>lichen-core/src/tx_queue.rs\<close> that they gate. Operations that evict stale records return the
  tracker they leave behind.
\<close>

section \<open>Limits and congestion levels\<close>

definition WINDOW_MS :: u64 where "WINDOW_MS = 3600000"
definition DEFAULT_DUTY_PERMILLE :: u16 where "DEFAULT_DUTY_PERMILLE = 10"
definition REGION_US :: u8 where "REGION_US = 1"
definition US915_FCC_MAX_DWELL_MS :: u32 where "US915_FCC_MAX_DWELL_MS = 400"

datatype duty_cycle_region = Eu868 | Us915

record regional_duty_cycle_limit =
  rl_duty_permille :: u16
  rl_max_dwell_time_ms :: "u32 option"

fun region_limit :: "duty_cycle_region \<Rightarrow> regional_duty_cycle_limit" where
  "region_limit Eu868 = \<lparr>rl_duty_permille = 10, rl_max_dwell_time_ms = None\<rparr>"
| "region_limit Us915 =
     \<lparr>rl_duty_permille = 1000, rl_max_dwell_time_ms = Some US915_FCC_MAX_DWELL_MS\<rparr>"

definition limit_from_parts :: "u16 \<Rightarrow> u32 option \<Rightarrow> regional_duty_cycle_limit option" where
  "limit_from_parts permille max_dwell =
     (if permille = 0 \<or> permille > 1000 then None
      else if max_dwell = Some 0 then None
      else Some \<lparr>rl_duty_permille = permille, rl_max_dwell_time_ms = max_dwell\<rparr>)"

datatype congestion_level = CongNormal | CongElevated | CongCritical | CongExhausted

fun congestion_level_u8 :: "congestion_level \<Rightarrow> u8" where
  "congestion_level_u8 CongNormal = 0"
| "congestion_level_u8 CongElevated = 1"
| "congestion_level_u8 CongCritical = 2"
| "congestion_level_u8 CongExhausted = 3"

definition allows_any :: "congestion_level \<Rightarrow> bool" where
  "allows_any l \<longleftrightarrow> l \<noteq> CongExhausted"

definition is_at_least :: "congestion_level \<Rightarrow> congestion_level \<Rightarrow> bool" where
  "is_at_least l other \<longleftrightarrow> congestion_level_u8 l \<ge> congestion_level_u8 other"

definition congestion_level_from_permille :: "u16 \<Rightarrow> congestion_level" where
  "congestion_level_from_permille usage =
     (if usage > 950 then CongExhausted
      else if usage \<ge> 800 then CongCritical
      else if usage \<ge> 500 then CongElevated
      else CongNormal)"

datatype tx_priority = Sos | Routing | Urgent | PNormal | Bulk

fun priority_u8 :: "tx_priority \<Rightarrow> u8" where
  "priority_u8 Sos = 0"
| "priority_u8 Routing = 1"
| "priority_u8 Urgent = 2"
| "priority_u8 PNormal = 3"
| "priority_u8 Bulk = 4"

definition priority_from_u8 :: "u8 \<Rightarrow> tx_priority option" where
  "priority_from_u8 v =
     (if v = 0 then Some Sos else if v = 1 then Some Routing else if v = 2 then Some Urgent
      else if v = 3 then Some PNormal else if v = 4 then Some Bulk else None)"

fun check_congestion_allows :: "congestion_level \<Rightarrow> tx_priority \<Rightarrow> bool" where
  "check_congestion_allows CongNormal _ = True"
| "check_congestion_allows CongElevated p = (priority_u8 p \<le> priority_u8 Urgent)"
| "check_congestion_allows CongCritical p = (priority_u8 p \<le> priority_u8 Routing)"
| "check_congestion_allows CongExhausted _ = False"

definition adaptive_duty_permille :: "u8 \<Rightarrow> u8 \<Rightarrow> u16" where
  "adaptive_duty_permille density region =
     (let strict_region = (region \<noteq> REGION_US) in
      if density > 10 then (if strict_region then 5 else 10)
      else if density < 3 then (if strict_region then 20 else 50)
      else (if strict_region then 10 else 20))"

section \<open>The tracker\<close>

record tx_record =
  timestamp_ms :: u64
  duration_ms :: u32

record 'q duty_cycle_tracker =
  records :: 'q
  duty_permille :: u16
  max_dwell_time_ms :: "u32 option"

type_synonym 'q record_deque = "(tx_record, 'q) deque_ops"

definition tracker_new :: "'q record_deque \<Rightarrow> 'q duty_cycle_tracker" where
  "tracker_new dq = \<lparr>records = dq_new dq, duty_permille = DEFAULT_DUTY_PERMILLE, max_dwell_time_ms = None\<rparr>"

text \<open>The debug assertions on the argument are the \<open>None\<close> branch.\<close>

definition with_duty_permille :: "'q record_deque \<Rightarrow> u16 \<Rightarrow> 'q duty_cycle_tracker option" where
  "with_duty_permille dq permille =
     (if permille > 0 \<and> permille \<le> 1000
      then Some \<lparr>records = dq_new dq, duty_permille = permille, max_dwell_time_ms = None\<rparr> else None)"

definition with_regional_limit ::
  "'q record_deque \<Rightarrow> regional_duty_cycle_limit \<Rightarrow> 'q duty_cycle_tracker" where
  "with_regional_limit dq limit =
     \<lparr>records = dq_new dq, duty_permille = rl_duty_permille limit,
      max_dwell_time_ms = rl_max_dwell_time_ms limit\<rparr>"

definition with_region :: "'q record_deque \<Rightarrow> duty_cycle_region \<Rightarrow> 'q duty_cycle_tracker" where
  "with_region dq region = with_regional_limit dq (region_limit region)"

definition configure_regional_limit ::
  "regional_duty_cycle_limit \<Rightarrow> 'q duty_cycle_tracker \<Rightarrow> 'q duty_cycle_tracker" where
  "configure_regional_limit limit t =
     t\<lparr>duty_permille := rl_duty_permille limit, max_dwell_time_ms := rl_max_dwell_time_ms limit\<rparr>"

definition configure_region ::
  "duty_cycle_region \<Rightarrow> 'q duty_cycle_tracker \<Rightarrow> 'q duty_cycle_tracker" where
  "configure_region region t = configure_regional_limit (region_limit region) t"

definition set_from_density :: "u8 \<Rightarrow> u8 \<Rightarrow> 'q duty_cycle_tracker \<Rightarrow> 'q duty_cycle_tracker" where
  "set_from_density density region t =
     t\<lparr>duty_permille := adaptive_duty_permille density region,
       max_dwell_time_ms := (if region = REGION_US then Some US915_FCC_MAX_DWELL_MS else None)\<rparr>"

definition tx_end :: "tx_record \<Rightarrow> u64" where
  "tx_end r = sat_add (timestamp_ms r) (ucast (duration_ms r))"

text \<open>
  The \<open>while let\<close> loop pops one record per turn, so the number of records bounds its turns:
  that is the fuel of \<open>evict_loop\<close>.
\<close>

fun evict_loop :: "'q record_deque \<Rightarrow> u64 \<Rightarrow> nat \<Rightarrow> 'q \<Rightarrow> 'q" where
  "evict_loop dq window_start 0 q = q"
| "evict_loop dq window_start (Suc n) q =
     (case dq_front dq q of
        None \<Rightarrow> q
      | Some front \<Rightarrow>
          if tx_end front \<le> window_start then evict_loop dq window_start n (dq_pop_front dq q) else q)"

definition evict_stale :: "'q record_deque \<Rightarrow> u64 \<Rightarrow> 'q duty_cycle_tracker \<Rightarrow> 'q duty_cycle_tracker" where
  "evict_stale dq now t =
     (let window_start = sat_sub now WINDOW_MS in
      t\<lparr>records := evict_loop dq window_start (length (dq_iter dq (records t))) (records t)\<rparr>)"

definition record_tx ::
  "'q record_deque \<Rightarrow> u64 \<Rightarrow> u32 \<Rightarrow> 'q duty_cycle_tracker \<Rightarrow> 'q duty_cycle_tracker \<times> bool" where
  "record_tx dq now duration t =
     (let t = evict_stale dq now t in
      case dq_push_back dq \<lparr>timestamp_ms = now, duration_ms = duration\<rparr> (records t) of
        Some q \<Rightarrow> (t\<lparr>records := q\<rparr>, True)
      | None \<Rightarrow> (t, False))"

text \<open>One turn of the summing loop, and the loop over the records in order.\<close>

definition tally :: "u64 \<Rightarrow> u32 \<Rightarrow> tx_record \<Rightarrow> u32" where
  "tally window_start acc r =
     (if timestamp_ms r \<ge> window_start then sat_add acc (duration_ms r)
      else if tx_end r > window_start then sat_add acc (ucast (tx_end r - window_start))
      else acc)"

definition total_tx :: "tx_record list \<Rightarrow> u64 \<Rightarrow> u32" where
  "total_tx rs now = foldl (tally (sat_sub now WINDOW_MS)) 0 rs"

definition total_tx_in_window :: "'q record_deque \<Rightarrow> u64 \<Rightarrow> 'q duty_cycle_tracker \<Rightarrow> u32" where
  "total_tx_in_window dq now t = total_tx (dq_iter dq (records t)) now"

definition max_tx_ms :: "'q duty_cycle_tracker \<Rightarrow> u32" where
  "max_tx_ms t = (ucast WINDOW_MS div 1000) * ucast (duty_permille t)"

definition remaining_ms ::
  "'q record_deque \<Rightarrow> u64 \<Rightarrow> 'q duty_cycle_tracker \<Rightarrow> 'q duty_cycle_tracker \<times> u32" where
  "remaining_ms dq now t =
     (let t = evict_stale dq now t in (t, sat_sub (max_tx_ms t) (total_tx_in_window dq now t)))"

definition usage_permille ::
  "'q record_deque \<Rightarrow> u64 \<Rightarrow> 'q duty_cycle_tracker \<Rightarrow> 'q duty_cycle_tracker \<times> u16" where
  "usage_permille dq now t =
     (let t = evict_stale dq now t in
      (t, ucast (ucast (total_tx_in_window dq now t) * 1000 div WINDOW_MS)))"

definition congestion_level_at ::
  "'q record_deque \<Rightarrow> u64 \<Rightarrow> 'q duty_cycle_tracker \<Rightarrow> 'q duty_cycle_tracker \<times> congestion_level" where
  "congestion_level_at dq now t =
     (let (t, usage) = usage_permille dq now t in (t, congestion_level_from_permille usage))"

fun next_tx_loop :: "u32 \<Rightarrow> u32 \<Rightarrow> tx_record list \<Rightarrow> u64" where
  "next_tx_loop needed freed [] = - 1"
| "next_tx_loop needed freed (r # rs) =
     (let freed = sat_add freed (duration_ms r) in
      if freed \<ge> needed then sat_add (tx_end r) WINDOW_MS else next_tx_loop needed freed rs)"

definition next_tx_available_ms ::
  "'q record_deque \<Rightarrow> u64 \<Rightarrow> u32 \<Rightarrow> 'q duty_cycle_tracker \<Rightarrow> 'q duty_cycle_tracker \<times> u64" where
  "next_tx_available_ms dq now duration t =
     (let t = evict_stale dq now t in
      if (case max_dwell_time_ms t of Some max_dwell \<Rightarrow> duration > max_dwell | None \<Rightarrow> False)
      then (t, - 1)
      else let max_tx = max_tx_ms t; used = total_tx_in_window dq now t in
        if sat_add used duration \<le> max_tx then (t, now)
        else let needed = sat_sub (sat_add used duration) max_tx in
          (t, next_tx_loop needed 0 (dq_iter dq (records t))))"

record congestion_state =
  cs_level :: congestion_level
  cs_retry_after_ms :: "u32 option"

definition congestion_state_at ::
  "'q record_deque \<Rightarrow> u64 \<Rightarrow> 'q duty_cycle_tracker \<Rightarrow> 'q duty_cycle_tracker \<times> congestion_state" where
  "congestion_state_at dq now t =
     (let (t, usage) = usage_permille dq now t;
          level = congestion_level_from_permille usage in
      if level \<noteq> CongNormal then
        let (t, next_tx) = next_tx_available_ms dq now 1 t in
        (t, \<lparr>cs_level = level,
             cs_retry_after_ms = (if next_tx = - 1 then None
               else if next_tx \<le> now then Some 0 else Some (ucast (next_tx - now)))\<rparr>)
      else (t, \<lparr>cs_level = level, cs_retry_after_ms = None\<rparr>))"

text \<open>\<open>&&\<close> evaluates the budget, and evicts, only within the dwell limit.\<close>

definition can_transmit ::
  "'q record_deque \<Rightarrow> u64 \<Rightarrow> u32 \<Rightarrow> 'q duty_cycle_tracker \<Rightarrow> 'q duty_cycle_tracker \<times> bool" where
  "can_transmit dq now duration t =
     (let within_dwell_limit =
        (case max_dwell_time_ms t of Some max_dwell \<Rightarrow> duration \<le> max_dwell | None \<Rightarrow> True) in
      if within_dwell_limit then let (t, rest) = remaining_ms dq now t in (t, rest \<ge> duration)
      else (t, False))"

definition try_record_tx ::
  "'q record_deque \<Rightarrow> u64 \<Rightarrow> u32 \<Rightarrow> 'q duty_cycle_tracker \<Rightarrow> 'q duty_cycle_tracker \<times> bool" where
  "try_record_tx dq now duration t =
     (let (t, ok) = can_transmit dq now duration t in
      if ok then record_tx dq now duration t else (t, False))"

definition clear_records :: "'q record_deque \<Rightarrow> 'q duty_cycle_tracker \<Rightarrow> 'q duty_cycle_tracker" where
  "clear_records dq t = t\<lparr>records := dq_clear dq (records t)\<rparr>"

section \<open>What the accounting means\<close>

text \<open>
  \<open>ends r\<close> is the end of a transmission, \<open>tx_after a rs\<close> the time on air after the instant \<open>a\<close>,
  and \<open>tx_between a b rs\<close> the time on air between two instants, all as unbounded numbers.
\<close>

definition ends :: "tx_record \<Rightarrow> nat" where
  "ends r = unat (timestamp_ms r) + unat (duration_ms r)"

definition tx_after :: "nat \<Rightarrow> tx_record list \<Rightarrow> nat" where
  "tx_after a rs = sum_list (map (\<lambda>r. ends r - max (unat (timestamp_ms r)) a) rs)"

definition tx_between :: "nat \<Rightarrow> nat \<Rightarrow> tx_record list \<Rightarrow> nat" where
  "tx_between a b rs = sum_list (map (\<lambda>r. min (ends r) b - max (unat (timestamp_ms r)) a) rs)"

lemma evict_loop_iter:
  assumes "deque_laws dq n"
  shows "length (dq_iter dq q) \<le> fuel \<Longrightarrow>
    dq_iter dq (evict_loop dq ws fuel q) = dropWhile (\<lambda>r. tx_end r \<le> ws) (dq_iter dq q)"
proof (induction fuel arbitrary: q)
  case (Suc fuel)
  then show ?case
    using deque_pop [OF assms, of q] deque_front [OF assms, of q]
    by (cases "dq_iter dq q") auto
qed simp

lemma evict_stale_iter:
  assumes "deque_laws dq n"
  shows "dq_iter dq (records (evict_stale dq now t)) =
    dropWhile (\<lambda>r. tx_end r \<le> sat_sub now WINDOW_MS) (dq_iter dq (records t))"
  using evict_loop_iter [OF assms order_refl] by (simp add: evict_stale_def Let_def)

lemma evict_stale_limits [simp]:
  "duty_permille (evict_stale dq now t) = duty_permille t"
  "max_dwell_time_ms (evict_stale dq now t) = max_dwell_time_ms t"
  "max_tx_ms (evict_stale dq now t) = max_tx_ms t"
  by (simp_all add: evict_stale_def Let_def max_tx_ms_def)

lemma unat_tx_end: "ends r < 2 ^ 64 \<Longrightarrow> unat (tx_end r) = ends r"
  by (simp add: tx_end_def sat_add_def ends_def unat_ucast_up unat_add_no_overflow)

lemma unat_window_start: "unat (sat_sub now WINDOW_MS) = unat now - 3600000"
  by (simp add: sat_sub_def WINDOW_MS_def unat_sub word_le_nat_alt word_less_nat_alt not_less)

lemma unat_tally:
  assumes "ends r < 2 ^ 64"
  shows "unat (tally ws acc r) = min (2 ^ 32 - 1) (unat acc + (ends r - max (unat (timestamp_ms r)) (unat ws)))"
proof (cases "timestamp_ms r \<ge> ws")
  case True
  then show ?thesis
    by (simp add: tally_def unat_sat_add ends_def word_le_nat_alt max_def)
next
  case False
  then have lt: "unat (timestamp_ms r) < unat ws" by (simp add: word_le_nat_alt)
  have acc: "unat acc \<le> 2 ^ 32 - 1" using unat_bound [of acc] by simp
  show ?thesis
  proof (cases "tx_end r > ws")
    case True
    then have gt: "unat ws < ends r" by (simp add: word_less_nat_alt unat_tx_end [OF assms])
    have "unat (tx_end r - ws) = ends r - unat ws"
      using True by (simp add: unat_sub less_imp_le unat_tx_end [OF assms])
    moreover have "ends r - unat ws < 2 ^ 32"
      using lt unat_bound [of "duration_ms r"] by (simp add: ends_def)
    ultimately have "unat (ucast (tx_end r - ws) :: u32) = ends r - unat ws"
      by (simp add: unat_ucast)
    then show ?thesis
      using True False lt by (simp add: tally_def unat_sat_add max_def)
  next
    case False2: False
    then have "ends r \<le> unat ws" by (simp add: word_less_nat_alt unat_tx_end [OF assms])
    then show ?thesis
      using False False2 lt acc by (simp add: tally_def max_def)
  qed
qed

lemma min_absorb_add: "min m (min m a + b) = min m (a + b :: nat)"
  by simp

lemma unat_foldl_tally:
  assumes "\<forall>r\<in>set rs. ends r < 2 ^ 64"
  shows "unat (foldl (tally ws) acc rs) = min (2 ^ 32 - 1) (unat acc + tx_after (unat ws) rs)"
  using assms
proof (induction rs arbitrary: acc)
  case Nil
  then show ?case using unat_bound [of acc] by (simp add: tx_after_def)
next
  case (Cons r rs)
  then show ?case by (simp add: unat_tally tx_after_def min_absorb_add add.assoc)
qed

lemma unat_total_tx:
  assumes "\<forall>r\<in>set rs. ends r < 2 ^ 64"
  shows "unat (total_tx rs now) = min (2 ^ 32 - 1) (tx_after (unat now - 3600000) rs)"
  unfolding total_tx_def unat_foldl_tally [OF assms] unat_window_start by simp

lemma tx_after_antimono: "a \<le> b \<Longrightarrow> tx_after b rs \<le> tx_after a rs"
  unfolding tx_after_def by (rule sum_list_mono) auto

lemma tx_between_le_after: "tx_between a b rs \<le> tx_after a rs"
  unfolding tx_between_def tx_after_def by (rule sum_list_mono) auto

lemma tx_after_dropWhile:
  assumes "\<forall>r\<in>set rs. ends r < 2 ^ 64" and "unat ws \<le> a"
  shows "tx_after a (dropWhile (\<lambda>r. tx_end r \<le> ws) rs) = tx_after a rs"
  using assms(1)
proof (induction rs)
  case (Cons r rs)
  have "ends r - max (unat (timestamp_ms r)) a = 0" if "tx_end r \<le> ws"
    using that Cons.prems assms(2) by (simp add: word_le_nat_alt unat_tx_end)
  then show ?case using Cons by (simp add: tx_after_def)
qed simp

lemma unat_max_tx_ms: "unat (max_tx_ms t) = 3600 * unat (duty_permille t)"
proof -
  have "(ucast WINDOW_MS :: u32) div 1000 = 3600" by (simp add: WINDOW_MS_def)
  moreover have "3600 * unat (duty_permille t) < 2 ^ 32"
    using unat_bound [of "duty_permille t"] by simp
  ultimately show ?thesis
    by (simp add: max_tx_ms_def unat_word_ariths unat_ucast_up)
qed

section \<open>Histories of a tracker\<close>

text \<open>The calls of the public interface that can change a tracker.\<close>

datatype duty_event =
    TryTx u64 u32
  | RecordTx u64 u32
  | Remaining u64
  | Usage u64
  | Congestion u64
  | CongestionSnapshot u64
  | NextTx u64 u32
  | CanTx u64 u32
  | ClearRecords
  | ConfigureRegion duty_cycle_region
  | ConfigureLimit regional_duty_cycle_limit
  | SetFromDensity u8 u8

fun event_time :: "duty_event \<Rightarrow> u64 option" where
  "event_time (TryTx now _) = Some now"
| "event_time (RecordTx now _) = Some now"
| "event_time (Remaining now) = Some now"
| "event_time (Usage now) = Some now"
| "event_time (Congestion now) = Some now"
| "event_time (CongestionSnapshot now) = Some now"
| "event_time (NextTx now _) = Some now"
| "event_time (CanTx now _) = Some now"
| "event_time _ = None"

text \<open>The clock after a call: the time it was given, if it takes one.\<close>

definition clock :: "u64 \<Rightarrow> duty_event \<Rightarrow> u64" where
  "clock till e = (case event_time e of None \<Rightarrow> till | Some now \<Rightarrow> now)"

primrec timed :: "u64 \<Rightarrow> duty_event list \<Rightarrow> bool" where
  "timed till [] \<longleftrightarrow> True"
| "timed till (e # es) \<longleftrightarrow> till \<le> clock till e \<and> timed (clock till e) es"

text \<open>
  A step changes the tracker and the log of the transmissions recorded since the records were
  last cleared.
\<close>

fun duty_step ::
  "'q record_deque \<Rightarrow> duty_event \<Rightarrow> 'q duty_cycle_tracker \<times> tx_record list \<Rightarrow>
   'q duty_cycle_tracker \<times> tx_record list" where
  "duty_step dq (TryTx now d) (t, log) =
     (let (t, ok) = try_record_tx dq now d t in
      (t, log @ (if ok then [\<lparr>timestamp_ms = now, duration_ms = d\<rparr>] else [])))"
| "duty_step dq (RecordTx now d) (t, log) =
     (let (t, ok) = record_tx dq now d t in
      (t, log @ (if ok then [\<lparr>timestamp_ms = now, duration_ms = d\<rparr>] else [])))"
| "duty_step dq (Remaining now) (t, log) = (fst (remaining_ms dq now t), log)"
| "duty_step dq (Usage now) (t, log) = (fst (usage_permille dq now t), log)"
| "duty_step dq (Congestion now) (t, log) = (fst (congestion_level_at dq now t), log)"
| "duty_step dq (CongestionSnapshot now) (t, log) = (fst (congestion_state_at dq now t), log)"
| "duty_step dq (NextTx now d) (t, log) = (fst (next_tx_available_ms dq now d t), log)"
| "duty_step dq (CanTx now d) (t, log) = (fst (can_transmit dq now d t), log)"
| "duty_step dq ClearRecords (t, log) = (clear_records dq t, [])"
| "duty_step dq (ConfigureRegion region) (t, log) = (configure_region region t, log)"
| "duty_step dq (ConfigureLimit limit) (t, log) = (configure_regional_limit limit t, log)"
| "duty_step dq (SetFromDensity density region) (t, log) = (set_from_density density region t, log)"

definition duty_run ::
  "'q record_deque \<Rightarrow> duty_event list \<Rightarrow> 'q duty_cycle_tracker \<Rightarrow> 'q duty_cycle_tracker \<times> tx_record list" where
  "duty_run dq es t = fold (duty_step dq) es (t, [])"

text \<open>A recorded transmission ends before the 64-bit clock does.\<close>

definition event_ok :: "duty_event \<Rightarrow> bool" where
  "event_ok e = (case e of TryTx now d \<Rightarrow> unat now + unat d < 2 ^ 64
     | RecordTx now d \<Rightarrow> unat now + unat d < 2 ^ 64 | _ \<Rightarrow> True)"

text \<open>
  A call that keeps to a limit of \<open>p\<close> permille: it records through \<open>try_record_tx\<close> only, forgets
  nothing, and configures no greater limit.
\<close>

definition gated :: "u16 \<Rightarrow> duty_event \<Rightarrow> bool" where
  "gated p e = (case e of RecordTx _ _ \<Rightarrow> False | ClearRecords \<Rightarrow> False
     | ConfigureRegion region \<Rightarrow> rl_duty_permille (region_limit region) \<le> p
     | ConfigureLimit limit \<Rightarrow> rl_duty_permille limit \<le> p
     | SetFromDensity density region \<Rightarrow> adaptive_duty_permille density region \<le> p
     | _ \<Rightarrow> True)"

text \<open>
  The tracker keeps of the history what later windows can see, and the history respects the
  budget in every window, past or future.
\<close>

definition accounts :: "'q record_deque \<Rightarrow> 'q duty_cycle_tracker \<Rightarrow> tx_record list \<Rightarrow> u64 \<Rightarrow> bool" where
  "accounts dq t log till \<longleftrightarrow>
     (\<forall>r\<in>set (dq_iter dq (records t)). ends r < 2 ^ 64) \<and>
     (\<forall>a \<ge> unat till - 3600000. tx_after a (dq_iter dq (records t)) = tx_after a log)"

definition within_budget :: "nat \<Rightarrow> tx_record list \<Rightarrow> u64 \<Rightarrow> bool" where
  "within_budget budget log till \<longleftrightarrow>
     tx_after (unat till - 3600000) log \<le> budget \<and> (\<forall>a. tx_between a (a + 3600000) log \<le> budget)"

lemma accounts_later:
  "accounts dq t log till \<Longrightarrow> till \<le> now \<Longrightarrow> accounts dq t log now"
  by (auto simp: accounts_def word_le_nat_alt)

lemma accounts_evict:
  assumes "deque_laws dq n" and "accounts dq t log till" and "till \<le> now"
  shows "accounts dq (evict_stale dq now t) log now"
  using accounts_later [OF assms(2,3)] tx_after_dropWhile [of "dq_iter dq (records t)" "sat_sub now WINDOW_MS"]
  unfolding accounts_def evict_stale_iter [OF assms(1)] unat_window_start
  by (auto dest: set_dropWhileD)

lemma accounts_total:
  assumes "accounts dq t log now"
  shows "unat (total_tx_in_window dq now t) = min (2 ^ 32 - 1) (tx_after (unat now - 3600000) log)"
  using assms unat_total_tx [of "dq_iter dq (records t)" now]
  by (simp add: accounts_def total_tx_in_window_def)

lemma unat_remaining:
  assumes "accounts dq t log now"
  shows "unat (sat_sub (max_tx_ms t0) (total_tx_in_window dq now t)) = unat (max_tx_ms t0) - tx_after (unat now - 3600000) log"
proof -
  have "unat (max_tx_ms t0) \<le> 2 ^ 32 - 1" using unat_bound [of "max_tx_ms t0"] by simp
  then show ?thesis using accounts_total [OF assms] by (simp add: unat_sat_sub)
qed

lemma evict_only:
  "fst (remaining_ms dq now t) = evict_stale dq now t"
  "fst (usage_permille dq now t) = evict_stale dq now t"
  "fst (congestion_level_at dq now t) = evict_stale dq now t"
  "fst (next_tx_available_ms dq now d t) = evict_stale dq now t"
  "fst (congestion_state_at dq now t) \<in> {evict_stale dq now t, evict_stale dq now (evict_stale dq now t)}"
  "fst (can_transmit dq now d t) \<in> {t, evict_stale dq now t}"
  by (simp_all add: remaining_ms_def usage_permille_def congestion_level_at_def next_tx_available_ms_def
    congestion_state_at_def can_transmit_def Let_def split: prod.split)

lemma evict_only_limits:
  "duty_permille (fst (remaining_ms dq now t)) = duty_permille t"
  "duty_permille (fst (usage_permille dq now t)) = duty_permille t"
  "duty_permille (fst (congestion_level_at dq now t)) = duty_permille t"
  "duty_permille (fst (next_tx_available_ms dq now d t)) = duty_permille t"
  "duty_permille (fst (congestion_state_at dq now t)) = duty_permille t"
  "duty_permille (fst (can_transmit dq now d t)) = duty_permille t"
  using evict_only(5) [of dq now t] evict_only(6) [of dq now d t] by (auto simp: evict_only(1-4))

lemma within_budget_later:
  assumes "within_budget b log till" and "till \<le> now"
  shows "within_budget b log now"
proof -
  have "tx_after (unat now - 3600000) log \<le> tx_after (unat till - 3600000) log"
    using assms(2) by (intro tx_after_antimono diff_le_mono) (simp add: word_le_nat_alt)
  with assms(1) show ?thesis by (simp add: within_budget_def)
qed

lemma within_budget_admit:
  assumes "within_budget b log now" and "tx_after (unat now - 3600000) log + unat (duration_ms r) \<le> b"
    and "timestamp_ms r = now"
  shows "within_budget b (log @ [r]) now"
proof -
  have after: "tx_after c (log @ [r]) = tx_after c log + (ends r - max (unat now) c)" for c
    by (simp add: tx_after_def assms(3))
  have "tx_between a (a + 3600000) (log @ [r]) \<le> b" for a
  proof (cases "a + 3600000 \<le> unat now")
    case True
    then have "tx_between a (a + 3600000) (log @ [r]) = tx_between a (a + 3600000) log"
      by (simp add: tx_between_def assms(3))
    then show ?thesis using assms(1) by (simp add: within_budget_def)
  next
    case False
    have "tx_between a (a + 3600000) (log @ [r]) \<le> tx_between a (a + 3600000) log + unat (duration_ms r)"
      by (simp add: tx_between_def assms(3) ends_def)
    also have "tx_between a (a + 3600000) log \<le> tx_after (unat now - 3600000) log"
      using False by (intro order_trans [OF tx_between_le_after tx_after_antimono]) simp
    finally show ?thesis using assms(2) by simp
  qed
  then show ?thesis
    using assms(2) by (simp add: within_budget_def after ends_def assms(3))
qed

lemma can_transmit_True:
  "can_transmit dq now d t = (t1, True) \<Longrightarrow> t1 = evict_stale dq now t
     \<and> d \<le> sat_sub (max_tx_ms t) (total_tx_in_window dq now (evict_stale dq now t))"
  by (auto simp: can_transmit_def remaining_ms_def Let_def split: if_splits)

lemma try_record_tx_cases:
  assumes "try_record_tx dq now d t = (t', b)"
  obtains (refused) "b = False" "t' \<in> {t, evict_stale dq now t, evict_stale dq now (evict_stale dq now t)}"
  | (admitted) q where "b = True"
      "dq_push_back dq \<lparr>timestamp_ms = now, duration_ms = d\<rparr>
         (records (evict_stale dq now (evict_stale dq now t))) = Some q"
      "t' = (evict_stale dq now (evict_stale dq now t))\<lparr>records := q\<rparr>"
      "d \<le> sat_sub (max_tx_ms t) (total_tx_in_window dq now (evict_stale dq now t))"
proof -
  obtain t1 ok where can: "can_transmit dq now d t = (t1, ok)" by (cases "can_transmit dq now d t")
  show thesis
  proof (cases ok)
    case False
    then show thesis
      using assms can evict_only(6) [of dq now d t] by (intro refused) (auto simp: try_record_tx_def)
  next
    case True
    then have t1: "t1 = evict_stale dq now t"
      "d \<le> sat_sub (max_tx_ms t) (total_tx_in_window dq now (evict_stale dq now t))"
      using can_transmit_True [of dq now d t t1] can by simp_all
    have tr: "record_tx dq now d t1 = (t', b)"
      using assms can True by (simp add: try_record_tx_def)
    show thesis
    proof (cases "dq_push_back dq \<lparr>timestamp_ms = now, duration_ms = d\<rparr>
         (records (evict_stale dq now (evict_stale dq now t)))")
      case None
      then show thesis using tr by (intro refused) (simp_all add: record_tx_def Let_def t1)
    next
      case (Some q)
      then show thesis using tr t1(2) by (intro admitted) (auto simp: record_tx_def Let_def t1)
    qed
  qed
qed

lemma try_record_tx_limits: "try_record_tx dq now d t = (t', b) \<Longrightarrow> duty_permille t' = duty_permille t"
  by (erule try_record_tx_cases) (auto simp: evict_stale_def Let_def)

lemma accounts_push:
  assumes dq: "deque_laws dq n" and acc: "accounts dq t log now" and ok: "unat now + unat d < 2 ^ 64"
    and push: "dq_push_back dq \<lparr>timestamp_ms = now, duration_ms = d\<rparr> (records t) = Some q"
  shows "accounts dq (t\<lparr>records := q\<rparr>) (log @ [\<lparr>timestamp_ms = now, duration_ms = d\<rparr>]) now"
  using acc ok deque_push [OF dq push] by (auto simp: accounts_def tx_after_def ends_def)

lemma record_tx_accounts:
  assumes dq: "deque_laws dq n" and acc: "accounts dq t log till" and now: "till \<le> now"
    and ok: "unat now + unat d < 2 ^ 64" and step: "record_tx dq now d t = (t', b)"
  shows "accounts dq t' (log @ (if b then [\<lparr>timestamp_ms = now, duration_ms = d\<rparr>] else [])) now"
proof -
  note acc' = accounts_evict [OF dq acc now]
  show ?thesis
    using step acc' accounts_push [OF dq acc' ok]
    by (auto simp: record_tx_def Let_def split: option.splits)
qed

lemma try_record_tx_accounts:
  assumes dq: "deque_laws dq n" and acc: "accounts dq t log till" and now: "till \<le> now"
    and ok: "unat now + unat d < 2 ^ 64" and step: "try_record_tx dq now d t = (t', b)"
  defines "log' \<equiv> log @ (if b then [\<lparr>timestamp_ms = now, duration_ms = d\<rparr>] else [])"
  shows "accounts dq t' log' now \<and> max_tx_ms t' = max_tx_ms t \<and>
    (b \<longrightarrow> unat d \<le> unat (max_tx_ms t) - tx_after (unat now - 3600000) log)"
proof -
  let ?t = "evict_stale dq now t"
  note acc' = accounts_evict [OF dq acc now]
  note acc'' = accounts_evict [OF dq acc' order_refl]
  show ?thesis
    using step
  proof (cases rule: try_record_tx_cases)
    case refused
    then show ?thesis using accounts_later [OF acc now] acc' acc'' unfolding log'_def by auto
  next
    case (admitted q)
    have "unat d \<le> unat (max_tx_ms t) - tx_after (unat now - 3600000) log"
      using admitted(4) unat_remaining [OF acc', of t] by (simp add: word_le_nat_alt)
    moreover have "accounts dq t' log' now"
      using accounts_push [OF dq acc'' ok admitted(2)] admitted(1,3) by (simp add: log'_def)
    ultimately show ?thesis
      using admitted(3) by (simp add: max_tx_ms_def evict_stale_def Let_def)
  qed
qed

text \<open>The calls that only evict.\<close>

definition queries :: "duty_event \<Rightarrow> bool" where
  "queries e = (case e of TryTx _ _ \<Rightarrow> False | RecordTx _ _ \<Rightarrow> False | _ \<Rightarrow> event_time e \<noteq> None)"

lemma query_step:
  assumes "queries e" and "duty_step dq e (t, log) = (t', log')"
  shows "log' = log \<and> t' \<in> {t, evict_stale dq (clock till e) t, evict_stale dq (clock till e) (evict_stale dq (clock till e) t)}"
  using assms evict_only [where dq = dq and now = "clock till e" and t = t]
  by (cases e) (auto simp: queries_def clock_def)

lemma configure_step:
  assumes "\<not> queries e" and "event_time e = None" and "e \<noteq> ClearRecords" and "duty_step dq e (t, log) = (t', log')"
  shows "log' = log \<and> records t' = records t"
  using assms by (cases e) (auto simp: configure_region_def configure_regional_limit_def set_from_density_def)

lemma duty_step_accounts:
  assumes dq: "deque_laws dq n" and acc: "accounts dq t log till" and now: "till \<le> clock till e"
    and ok: "event_ok e" and step: "duty_step dq e (t, log) = (t', log')"
  shows "accounts dq t' log' (clock till e)"
proof (cases "queries e")
  case True
  note acc' = accounts_evict [OF dq acc now]
  show ?thesis
    using query_step [OF True step, of till] accounts_later [OF acc now] acc' accounts_evict [OF dq acc' order_refl] by auto
next
  case False
  then consider now d where "e = TryTx now d" | now d where "e = RecordTx now d" | "e = ClearRecords"
    | "event_time e = None" "e \<noteq> ClearRecords"
    by (cases e) (auto simp: queries_def)
  then show ?thesis
  proof cases
    case 1
    then show ?thesis
      using try_record_tx_accounts [OF dq acc] now ok step by (auto simp: clock_def event_ok_def split: prod.splits)
  next
    case 2
    then show ?thesis
      using record_tx_accounts [OF dq acc] now ok step by (auto simp: clock_def event_ok_def split: prod.splits)
  next
    case 3
    then show ?thesis
      using step deque_clear [OF dq] by (auto simp: accounts_def clear_records_def clock_def tx_after_def)
  next
    case 4
    then show ?thesis using configure_step [OF False 4 step] acc by (simp add: accounts_def clock_def)
  qed
qed

lemma duty_fold_accounts:
  assumes "deque_laws dq n"
  shows "accounts dq t log till \<Longrightarrow> timed till es \<Longrightarrow> \<forall>e\<in>set es. event_ok e \<Longrightarrow>
    fold (duty_step dq) es (t, log) = (t', log') \<Longrightarrow> accounts dq t' log' (foldl clock till es)"
proof (induction es arbitrary: t log till)
  case (Cons e es)
  obtain t1 l1 where s1: "duty_step dq e (t, log) = (t1, l1)" by (cases "duty_step dq e (t, log)")
  have "accounts dq t1 l1 (clock till e)" using duty_step_accounts [OF assms Cons.prems(1) _ _ s1] Cons.prems(2,3) by simp
  then show ?case using Cons.IH [of t1 l1 "clock till e"] Cons.prems s1 by simp
qed simp

lemma duty_history:
  assumes "deque_laws dq n" and "timed 0 es" and "\<forall>e\<in>set es. event_ok e"
    and "duty_run dq es (with_regional_limit dq lim) = (t, log)" and "foldl clock 0 es \<le> now"
  shows "accounts dq (evict_stale dq now t) log now"
proof -
  have "accounts dq (with_regional_limit dq lim) [] 0"
    by (simp add: accounts_def with_regional_limit_def deque_new [OF assms(1)] tx_after_def)
  then have "accounts dq t log (foldl clock 0 es)"
    using duty_fold_accounts [OF assms(1) _ assms(2,3)] assms(4) by (simp add: duty_run_def)
  then show ?thesis using accounts_evict [OF assms(1) _ assms(5)] by blast
qed

text \<open>Under a gated call the budget is kept.\<close>

lemma gated_step:
  assumes dq: "deque_laws dq n" and acc: "accounts dq t log till" and bud: "within_budget (3600 * unat p) log till"
    and lim: "duty_permille t \<le> p" and now: "till \<le> clock till e" and ok: "event_ok e" and g: "gated p e"
    and step: "duty_step dq e (t, log) = (t', log')"
  shows "within_budget (3600 * unat p) log' (clock till e) \<and> duty_permille t' \<le> p"
proof (cases "\<exists>now d. e = TryTx now d")
  case True
  then obtain now d where e: "e = TryTx now d" by blast
  let ?r = "\<lparr>timestamp_ms = now, duration_ms = d\<rparr>"
  obtain t1 b where tr: "try_record_tx dq now d t = (t1, b)" by (cases "try_record_tx dq now d t")
  have r: "t' = t1" "log' = log @ (if b then [?r] else [])" and le: "till \<le> now" using step now tr by (auto simp: e clock_def)
  note adm = try_record_tx_accounts [OF dq acc le _ tr]
  have o: "unat now + unat d < 2 ^ 64" using ok by (simp add: e event_ok_def)
  have p: "unat (max_tx_ms t) \<le> 3600 * unat p" using lim by (simp add: unat_max_tx_ms word_le_nat_alt)
  have dp: "duty_permille t' = duty_permille t"
    using try_record_tx_limits [OF tr] r(1) by simp
  note bud' = within_budget_later [OF bud le]
  have "within_budget (3600 * unat p) log' now"
  proof (cases b)
    case True
    have after: "tx_after (unat now - 3600000) log \<le> 3600 * unat p" using bud' by (simp add: within_budget_def)
    have "tx_after (unat now - 3600000) log + unat (duration_ms ?r) \<le> 3600 * unat p"
      using adm [OF o] True p after by (cases "unat d = 0") auto
    then show ?thesis using within_budget_admit [OF bud', of ?r] r(2) True by simp
  qed (use bud' r(2) in simp)
  then show ?thesis using lim dp by (simp add: e clock_def)
next
  case False
  have "log' = log \<and> duty_permille t' \<le> p"
    using False g lim step
    by (cases e) (auto simp: gated_def configure_region_def configure_regional_limit_def set_from_density_def
        evict_only_limits)
  then show ?thesis using within_budget_later [OF bud now] by simp
qed

lemma gated_run:
  assumes "deque_laws dq n"
  shows "accounts dq t log till \<Longrightarrow> within_budget (3600 * unat p) log till \<Longrightarrow> duty_permille t \<le> p \<Longrightarrow> timed till es \<Longrightarrow>
    \<forall>e\<in>set es. event_ok e \<Longrightarrow> \<forall>e\<in>set es. gated p e \<Longrightarrow> fold (duty_step dq) es (t, log) = (t', log') \<Longrightarrow>
    within_budget (3600 * unat p) log' (foldl clock till es)"
proof (induction es arbitrary: t log till)
  case (Cons e es)
  obtain t1 l1 where s1: "duty_step dq e (t, log) = (t1, l1)" by (cases "duty_step dq e (t, log)")
  have "accounts dq t1 l1 (clock till e)" using duty_step_accounts [OF assms Cons.prems(1) _ _ s1] Cons.prems(4,5) by simp
  moreover have "within_budget (3600 * unat p) l1 (clock till e) \<and> duty_permille t1 \<le> p"
    using gated_step [OF assms Cons.prems(1-3) _ _ _ s1] Cons.prems(4-6) by simp
  ultimately show ?case using Cons.IH [of t1 l1 "clock till e"] Cons.prems s1 by simp
qed simp

text \<open>
  C22. The regulatory limit holds in every rolling hour: after any calls, at non-decreasing times,
  that record through \<open>try_record_tx\<close> (not through the unconditional \<open>record_tx\<close>), do not clear the
  records and configure no limit above \<open>p\<close> permille, the recorded transmissions occupy at most
  \<open>p\<close> permille of any interval of one hour. The deque is any implementation that behaves as
  \<open>heapless\<close> documents; transmissions end before the 64-bit clock does.
\<close>

theorem duty_cycle_budget:
  assumes "deque_laws dq n" and "timed 0 es" and "\<forall>e\<in>set es. event_ok e" and "\<forall>e\<in>set es. gated p e"
    and "rl_duty_permille lim \<le> p" and "duty_run dq es (with_regional_limit dq lim) = (t, log)"
  shows "tx_between a (a + 3600000) log \<le> 3600 * unat p"
proof -
  let ?t0 = "with_regional_limit dq lim"
  have "accounts dq ?t0 [] 0" "within_budget (3600 * unat p) [] 0" "duty_permille ?t0 \<le> p"
    using assms(5) by (simp_all add: accounts_def within_budget_def with_regional_limit_def deque_new [OF assms(1)]
        tx_after_def tx_between_def)
  then have "within_budget (3600 * unat p) log (foldl clock 0 es)"
    using gated_run [OF assms(1) _ _ _ assms(2-4)] assms(6) by (simp add: duty_run_def)
  then show ?thesis by (simp add: within_budget_def)
qed

text \<open>
  C23. Admission is exact: after any calls of the public interface at non-decreasing times,
  unconditional recording, clearing and reconfiguration included, \<open>try_record_tx\<close> admits a
  transmission exactly when it respects the dwell limit in force, fits into what the limit in
  force leaves beside the airtime recorded in the last hour since the records were cleared, and
  the deque has room once stale records are evicted. Eviction is not observable: the airtime is
  that of the whole history. Recorded transmissions end before the 64-bit clock does.
\<close>

theorem duty_admission_exact:
  assumes "deque_laws dq n" and "timed 0 es" and "\<forall>e\<in>set es. event_ok e"
    and "duty_run dq es (with_regional_limit dq lim) = (t, log)" and "foldl clock 0 es \<le> now"
  shows "snd (try_record_tx dq now d t) \<longleftrightarrow>
    (\<forall>m. max_dwell_time_ms t = Some m \<longrightarrow> d \<le> m) \<and>
    unat d \<le> 3600 * unat (duty_permille t) - tx_after (unat now - 3600000) log \<and>
    length (dq_iter dq (records (evict_stale dq now t))) < n"
proof -
  let ?t = "evict_stale dq now t" and ?r = "\<lparr>timestamp_ms = now, duration_ms = d\<rparr>"
  have acc: "accounts dq ?t log now" by (rule duty_history [OF assms])
  have rest: "unat (sat_sub (max_tx_ms t) (total_tx_in_window dq now ?t)) =
      3600 * unat (duty_permille t) - tx_after (unat now - 3600000) log"
    using unat_remaining [OF acc, of t] by (simp add: unat_max_tx_ms)
  have idem: "dq_iter dq (records (evict_stale dq now ?t)) = dq_iter dq (records ?t)"
    by (simp add: evict_stale_iter [OF assms(1)] dropWhile_idem)
  have push: "snd (record_tx dq now d ?t) \<longleftrightarrow> length (dq_iter dq (records ?t)) < n"
    using deque_push_Some [OF assms(1), of ?r "records (evict_stale dq now ?t)"] idem
    by (auto simp: record_tx_def Let_def split: option.splits)
  show ?thesis
    using rest push
    by (auto simp: try_record_tx_def can_transmit_def remaining_ms_def Let_def word_le_nat_alt split: option.splits if_splits)
qed

text \<open>
  C40. The congestion level measures the share of the whole hour, whatever limit is configured:
  after any calls of the public interface at non-decreasing times, it is Normal below 50 percent of
  airtime in the last hour, Elevated from 50, Critical from 80 and Exhausted from 95.1 percent. So
  a tracker with a limit below 50 percent that respects it never leaves Normal. The airtime
  recorded in the hour is assumed below the \<open>65536\<close> permille at which the 16-bit usage wraps.
\<close>

theorem congestion_level_exact:
  assumes "deque_laws dq n" and "timed 0 es" and "\<forall>e\<in>set es. event_ok e"
    and "duty_run dq es (with_regional_limit dq lim) = (t, log)" and "foldl clock 0 es \<le> now"
    and "tx_after (unat now - 3600000) log < 65536 * 3600"
  shows "snd (congestion_level_at dq now t) =
    (let airtime = tx_after (unat now - 3600000) log in
     if airtime < 1800000 then CongNormal else if airtime < 2880000 then CongElevated
     else if airtime < 3423600 then CongCritical else CongExhausted)"
proof -
  let ?u = "total_tx_in_window dq now (evict_stale dq now t)" and ?a = "tx_after (unat now - 3600000) log"
  have u: "unat ?u = ?a" using accounts_total [OF duty_history [OF assms(1-5)]] assms(6) by simp
  have "unat (ucast ?u * 1000 :: u64) = ?a * 1000"
    using u assms(6) by (simp add: unat_word_ariths unat_ucast_up)
  then have "unat (ucast ?u * 1000 div WINDOW_MS) = ?a div 3600"
    by (simp add: unat_div_distrib WINDOW_MS_def)
  moreover have "?a div 3600 < 65536" using assms(6) by (simp add: div_less_iff_less_mult)
  ultimately have "unat (ucast (ucast ?u * 1000 div WINDOW_MS) :: u16) = ?a div 3600"
    by (simp add: unat_ucast)
  then show ?thesis
    by (auto simp: congestion_level_at_def usage_permille_def Let_def congestion_level_from_permille_def
      word_less_nat_alt word_le_nat_alt less_eq_div_iff_mult_less_eq div_less_iff_less_mult)
qed

text \<open>
  \<open>next_tx_available_ms\<close> can name a time at which the transmission is still refused: it
  counts the full duration of a record of which only a part lies in the window. After 30 s on
  air at time 0 and 26 s at 3620 s under the EU868 limit, it reports that 15 s are possible at
  3630 s, and \<open>can_transmit\<close> refuses them then.
\<close>

lemma next_tx_available_too_early:
  "(let dq = list_deque 4;
        t = fst (duty_run dq [TryTx 0 30000, TryTx 3620000 26000] (with_region dq Eu868));
        (t, time) = next_tx_available_ms dq 3620000 15000 t
    in length (records t) = 2 \<and> time = 3630000 \<and> \<not> snd (can_transmit dq time 15000 t))"
  by code_simp

section \<open>A concrete history\<close>

definition sample_events :: "duty_event list" where
  "sample_events = [TryTx 0 30000, CanTx 10 100, SetFromDensity 12 0, ConfigureRegion Eu868, TryTx 3620000 26000, TryTx 3620001 1]"

definition busy_events :: "duty_event list" where
  "busy_events = [RecordTx 0 40000, ClearRecords, RecordTx 10 1900000, TryTx 3000000 5, ConfigureRegion Us915]"

lemma sample_history:
  "duty_run (list_deque 4) sample_events (with_regional_limit (list_deque 4) (region_limit Eu868)) =
    (\<lparr>records = [\<lparr>timestamp_ms = 0, duration_ms = 30000\<rparr>, \<lparr>timestamp_ms = 3620000, duration_ms = 26000\<rparr>,
        \<lparr>timestamp_ms = 3620001, duration_ms = 1\<rparr>], duty_permille = 10, max_dwell_time_ms = None\<rparr>,
     [\<lparr>timestamp_ms = 0, duration_ms = 30000\<rparr>, \<lparr>timestamp_ms = 3620000, duration_ms = 26000\<rparr>,
      \<lparr>timestamp_ms = 3620001, duration_ms = 1\<rparr>])"
  "duty_run (list_deque 4) busy_events (with_regional_limit (list_deque 4) (region_limit Eu868)) =
    (\<lparr>records = [\<lparr>timestamp_ms = 10, duration_ms = 1900000\<rparr>], duty_permille = 1000, max_dwell_time_ms = Some 400\<rparr>,
     [\<lparr>timestamp_ms = 10, duration_ms = 1900000\<rparr>])"
  by code_simp+

lemma sample_events_ok:
  "timed 0 sample_events" "\<forall>e\<in>set sample_events. event_ok e" "\<forall>e\<in>set sample_events. gated 10 e"
  "timed 0 busy_events" "\<forall>e\<in>set busy_events. event_ok e" "foldl clock 0 busy_events \<le> 3000000"
  by (simp_all add: sample_events_def busy_events_def event_ok_def clock_def gated_def adaptive_duty_permille_def REGION_US_def)

theorem duty_cycle_budget_witness:
  "tx_between 20000 (20000 + 3600000) (snd (duty_run (list_deque 4) sample_events
     (with_regional_limit (list_deque 4) (region_limit Eu868)))) \<le> 36000"
  unfolding sample_history
  using duty_cycle_budget [OF list_deque_laws sample_events_ok(1-3) _ sample_history(1), of 20000] by simp

theorem duty_admission_exact_witness:
  "snd (try_record_tx (list_deque 4) 3000000 400 (fst (duty_run (list_deque 4) busy_events
     (with_regional_limit (list_deque 4) (region_limit Eu868)))))"
proof -
  have "length (dq_iter (list_deque 4) (records (evict_stale (list_deque 4) 3000000 (fst (duty_run (list_deque 4) busy_events
     (with_regional_limit (list_deque 4) (region_limit Eu868))))))) < 4" by code_simp
  then show ?thesis
    using duty_admission_exact [OF list_deque_laws sample_events_ok(4,5) sample_history(2) sample_events_ok(6), of 400]
    unfolding sample_history(2) by (simp add: tx_after_def ends_def)
qed

theorem congestion_level_exact_witness:
  "snd (congestion_level_at (list_deque 4) 3000000 (fst (duty_run (list_deque 4) busy_events
     (with_regional_limit (list_deque 4) (region_limit Eu868))))) = CongElevated"
  unfolding sample_history(2)
  using congestion_level_exact [OF list_deque_laws sample_events_ok(4,5) sample_history(2) sample_events_ok(6)]
  by (simp add: tx_after_def ends_def)

end
