(* ===== verification/Tx_Queue.thy ===== *)
theory Tx_Queue
  imports Duty_Cycle "HOL-Library.Monad_Syntax"
begin

text \<open>
  Channel access and the transmit queue (\<open>lichen-core/src/tx_queue.rs\<close>): the CSMA/CA state
  machine, and the priority queue of four packets with deadlines, preemption and statistics.
  The containers of \<open>heapless\<close> are a parameter; a result \<open>None\<close> of an operation is a
  failed arithmetic check (a subtraction below zero).
\<close>

unbundle bit_operations_syntax

section \<open>CSMA/CA\<close>

definition CSMA_BACKOFF_UNIT_MS :: u32 where "CSMA_BACKOFF_UNIT_MS = 10"
definition CSMA_BACKOFF_MAX :: u8 where "CSMA_BACKOFF_MAX = 5"
definition CSMA_RETRY_LIMIT :: u8 where "CSMA_RETRY_LIMIT = 3"

datatype cad_observation = CadIdle | CadBusy

datatype csma_action = CsmaTransmit | CsmaBackoff u8 u32 | RetryExhausted

definition tx_allowed :: "csma_action \<Rightarrow> bool" where
  "tx_allowed a \<longleftrightarrow> a = CsmaTransmit"

datatype csma_state_error = BackoffExponentOutOfRange | RetryCountOutOfRange

record csma_state =
  backoff_exponent :: u8
  retries :: u8

definition csma_new :: csma_state where
  "csma_new = \<lparr>backoff_exponent = 0, retries = 0\<rparr>"

definition csma_from_parts :: "u8 \<Rightarrow> u8 \<Rightarrow> csma_state_error + csma_state" where
  "csma_from_parts be rt =
     (if be > CSMA_BACKOFF_MAX then Inl BackoffExponentOutOfRange
      else if rt > CSMA_RETRY_LIMIT + 1 then Inl RetryCountOutOfRange
      else Inr \<lparr>backoff_exponent = be, retries = rt\<rparr>)"

definition csma_is_exhausted :: "csma_state \<Rightarrow> bool" where
  "csma_is_exhausted s \<longleftrightarrow> retries s > CSMA_RETRY_LIMIT"

definition contention_window :: "csma_state \<Rightarrow> u8" where
  "contention_window s = ucast (push_bit (unat (backoff_exponent s)) (1 :: u32) - 1)"

definition csma_reset :: "csma_state \<Rightarrow> csma_state" where
  "csma_reset s = s\<lparr>backoff_exponent := 0, retries := 0\<rparr>"

definition on_cad :: "cad_observation \<Rightarrow> u32 \<Rightarrow> csma_state \<Rightarrow> csma_state \<times> csma_action" where
  "on_cad observation random_draw s =
     (if observation = CadIdle then (csma_reset s, CsmaTransmit)
      else if csma_is_exhausted s then (s, RetryExhausted)
      else let s = s\<lparr>retries := retries s + 1\<rparr> in
        if csma_is_exhausted s then (s, RetryExhausted)
        else let s = s\<lparr>backoff_exponent := min (sat_add (backoff_exponent s) 1) CSMA_BACKOFF_MAX\<rparr>;
                 slots = ucast (random_draw AND ucast (contention_window s));
                 delay_ms = ucast slots * CSMA_BACKOFF_UNIT_MS
             in (s, CsmaBackoff slots delay_ms))"

definition checked_csma_backoff_ms :: "u32 \<Rightarrow> u32 option" where
  "checked_csma_backoff_ms slots = checked_mul slots CSMA_BACKOFF_UNIT_MS"

section \<open>Queue items\<close>

datatype tx_queue_error = QueueFull | PayloadTooLarge | DeadlineExpired

definition TX_QUEUE_CAPACITY :: nat where "TX_QUEUE_CAPACITY = 4"
definition TX_ITEM_MAX_PAYLOAD :: nat where "TX_ITEM_MAX_PAYLOAD = 255"

record 'b tx_item =
  priority :: tx_priority
  item_sequence :: u32
  deadline_ms :: u64
  enqueue_time_ms :: u64
  item_data :: 'b

record ('b, 't, 'h) txq_ops =
  tq_data :: "(u8, 'b) vec_ops"
  tq_temp :: "('b tx_item, 't) vec_ops"
  tq_heap :: "('b tx_item, 'h) heap_ops"

definition tx_item_new ::
  "('b, 't, 'h) txq_ops \<Rightarrow> tx_priority \<Rightarrow> u32 \<Rightarrow> u64 \<Rightarrow> u64 \<Rightarrow> bytes \<Rightarrow> 'b tx_item option" where
  "tx_item_new ops p seq deadline enqueue_time data =
     do { vec \<leftarrow> vc_extend (tq_data ops) data (vc_new (tq_data ops));
          Some \<lparr>priority = p, item_sequence = seq, deadline_ms = deadline,
                enqueue_time_ms = enqueue_time, item_data = vec\<rparr> }"

definition item_is_expired :: "'b tx_item \<Rightarrow> u64 \<Rightarrow> bool" where
  "item_is_expired it now \<longleftrightarrow> now \<ge> deadline_ms it"

definition item_len :: "('b, 't, 'h) txq_ops \<Rightarrow> 'b tx_item \<Rightarrow> nat" where
  "item_len ops it = length (vc_iter (tq_data ops) (item_data it))"

definition cmp_linorder :: "'a::linorder \<Rightarrow> 'a \<Rightarrow> rordering" where
  "cmp_linorder a b = (if a < b then OLess else if a = b then OEqual else OGreater)"

text \<open>\<open>Ord\<close>: lower priority value first, then the wrapped distance of the sequence numbers.\<close>

definition tx_item_cmp :: "'b tx_item \<Rightarrow> 'b tx_item \<Rightarrow> rordering" where
  "tx_item_cmp self other =
     (case cmp_linorder (priority_u8 (priority other)) (priority_u8 (priority self)) of
        OEqual \<Rightarrow> cmp_linorder (sint (item_sequence other - item_sequence self)) 0
      | ord \<Rightarrow> ord)"

section \<open>The queue\<close>

record 'h tx_queue =
  heap :: 'h
  sequence :: u32
  bytes_pending :: nat
  by_priority :: "nat list"
  packets_queued :: u32
  packets_dropped_deadline :: u32
  packets_dropped_full :: u32
  packets_preempted :: u32
  max_latency_ms :: u32
  avg_latency_scaled :: u32
  observed_now_ms :: u64

definition tx_queue_new :: "('b, 't, 'h) txq_ops \<Rightarrow> 'h tx_queue" where
  "tx_queue_new ops = \<lparr>heap = hp_new (tq_heap ops), sequence = 0, bytes_pending = 0,
     by_priority = replicate 5 0, packets_queued = 0, packets_dropped_deadline = 0,
     packets_dropped_full = 0, packets_preempted = 0, max_latency_ms = 0, avg_latency_scaled = 0,
     observed_now_ms = 0\<rparr>"

definition prio_index :: "'b tx_item \<Rightarrow> nat" where
  "prio_index it = unat (priority_u8 (priority it))"

text \<open>\<open>bytes_pending -= item.len(); by_priority[..] -= 1\<close>, and the counterpart of a push.\<close>

definition account_remove :: "('b, 't, 'h) txq_ops \<Rightarrow> 'b tx_item \<Rightarrow> 'h tx_queue \<Rightarrow> 'h tx_queue option" where
  "account_remove ops it q =
     (if item_len ops it \<le> bytes_pending q \<and> 1 \<le> by_priority q ! prio_index it
      then Some (q\<lparr>bytes_pending := bytes_pending q - item_len ops it,
                   by_priority := (by_priority q)[prio_index it := by_priority q ! prio_index it - 1]\<rparr>)
      else None)"

definition account_push ::
  "('b, 't, 'h) txq_ops \<Rightarrow> 'b tx_item \<Rightarrow> bytes \<Rightarrow> 'h tx_queue \<Rightarrow> 'h tx_queue" where
  "account_push ops it data q =
     q\<lparr>heap := (case hp_push (tq_heap ops) it (heap q) of Some h \<Rightarrow> h | None \<Rightarrow> heap q),
       sequence := sequence q + 1,
       bytes_pending := bytes_pending q + length data,
       by_priority := (by_priority q)[prio_index it := by_priority q ! prio_index it + 1],
       packets_queued := sat_add (packets_queued q) 1\<rparr>"

definition temp_push :: "('b, 't, 'h) txq_ops \<Rightarrow> 'b tx_item \<Rightarrow> 't \<Rightarrow> 't" where
  "temp_push ops it temp = (case vc_push (tq_temp ops) it temp of Some v \<Rightarrow> v | None \<Rightarrow> temp)"

definition put_back :: "('b, 't, 'h) txq_ops \<Rightarrow> 't \<Rightarrow> 'h tx_queue \<Rightarrow> 'h tx_queue" where
  "put_back ops temp q =
     fold (\<lambda>it q. q\<lparr>heap := (case hp_push (tq_heap ops) it (heap q) of Some h \<Rightarrow> h | None \<Rightarrow> heap q)\<rparr>)
       (vc_iter (tq_temp ops) temp) q"

text \<open>The loops pop one item per turn; the number of items in the heap is their fuel.\<close>

definition heap_fuel :: "('b, 't, 'h) txq_ops \<Rightarrow> 'h tx_queue \<Rightarrow> nat" where
  "heap_fuel ops q = length (hp_iter (tq_heap ops) (heap q))"

fun expire_loop ::
  "('b, 't, 'h) txq_ops \<Rightarrow> u64 \<Rightarrow> nat \<Rightarrow> 'h tx_queue \<times> 't \<times> nat \<Rightarrow> ('h tx_queue \<times> 't \<times> nat) option" where
  "expire_loop ops now 0 s = Some s"
| "expire_loop ops now (Suc n) (q, temp, expired_count) =
     (case hp_pop (tq_heap ops) (heap q) of
        None \<Rightarrow> Some (q, temp, expired_count)
      | Some (it, h) \<Rightarrow>
          let q = q\<lparr>heap := h\<rparr> in
          if item_is_expired it now then
            do { q \<leftarrow> account_remove ops it q;
                 let q = q\<lparr>packets_dropped_deadline := sat_add (packets_dropped_deadline q) 1\<rparr>;
                 expire_loop ops now n (q, temp, expired_count + 1) }
          else expire_loop ops now n (q, temp_push ops it temp, expired_count))"

definition expire_before ::
  "('b, 't, 'h) txq_ops \<Rightarrow> u64 \<Rightarrow> 'h tx_queue \<Rightarrow> ('h tx_queue \<times> nat) option" where
  "expire_before ops now q =
     (let q = q\<lparr>observed_now_ms := max (observed_now_ms q) now\<rparr>;
          effective_now_ms = observed_now_ms q in
      do { (q, temp, expired_count) \<leftarrow>
             expire_loop ops effective_now_ms (heap_fuel ops q) (q, vc_new (tq_temp ops), 0);
           Some (put_back ops temp q, expired_count) })"

definition worst_priority :: "'b tx_item list \<Rightarrow> u8" where
  "worst_priority its = foldl (\<lambda>w it. max w (priority_u8 (priority it))) 0 its"

definition oldest_at :: "u8 \<Rightarrow> 'b tx_item list \<Rightarrow> u32 option" where
  "oldest_at worst its =
     foldl (\<lambda>oldest it.
         if priority_u8 (priority it) = worst then
           (case oldest of
              None \<Rightarrow> Some (item_sequence it)
            | Some seq \<Rightarrow> if sint (item_sequence it - seq) < 0 then Some (item_sequence it) else oldest)
         else oldest) None its"

fun preempt_loop ::
  "('b, 't, 'h) txq_ops \<Rightarrow> u8 \<Rightarrow> u32 \<Rightarrow> nat \<Rightarrow> 'h tx_queue \<times> 't \<times> bool \<Rightarrow> ('h tx_queue \<times> 't \<times> bool) option" where
  "preempt_loop ops worst target 0 s = Some s"
| "preempt_loop ops worst target (Suc n) (q, temp, removed) =
     (case hp_pop (tq_heap ops) (heap q) of
        None \<Rightarrow> Some (q, temp, removed)
      | Some (it, h) \<Rightarrow>
          let q = q\<lparr>heap := h\<rparr> in
          if \<not> removed \<and> priority_u8 (priority it) = worst \<and> item_sequence it = target then
            do { q \<leftarrow> account_remove ops it q;
                 let q = q\<lparr>packets_preempted := sat_add (packets_preempted q) 1\<rparr>;
                 preempt_loop ops worst target n (q, temp, True) }
          else preempt_loop ops worst target n (q, temp_push ops it temp, removed))"

definition try_preempt ::
  "('b, 't, 'h) txq_ops \<Rightarrow> tx_priority \<Rightarrow> 'h tx_queue \<Rightarrow> ('h tx_queue \<times> bool) option" where
  "try_preempt ops new_priority q =
     (let its = hp_iter (tq_heap ops) (heap q); worst = worst_priority its in
      if priority_u8 new_priority \<ge> worst then Some (q, False)
      else case oldest_at worst its of
        None \<Rightarrow> Some (q, False)
      | Some target_seq \<Rightarrow>
          do { (q, temp, removed) \<leftarrow>
                 preempt_loop ops worst target_seq (heap_fuel ops q) (q, vc_new (tq_temp ops), False);
               Some (put_back ops temp q, removed) })"

definition push ::
  "('b, 't, 'h) txq_ops \<Rightarrow> tx_priority \<Rightarrow> u64 \<Rightarrow> u64 \<Rightarrow> bytes \<Rightarrow> 'h tx_queue \<Rightarrow>
   ('h tx_queue \<times> (tx_queue_error + unit)) option" where
  "push ops p deadline now data q =
     do { (q, _) \<leftarrow> expire_before ops now q;
          let effective_now_ms = observed_now_ms q;
          if deadline \<le> effective_now_ms then Some (q, Inl DeadlineExpired)
          else case tx_item_new ops p (sequence q) deadline effective_now_ms data of
            None \<Rightarrow> Some (q, Inl PayloadTooLarge)
          | Some it \<Rightarrow>
              if length (hp_iter (tq_heap ops) (heap q)) < TX_QUEUE_CAPACITY
              then Some (account_push ops it data q, Inr ())
              else do { (q, preempted) \<leftarrow> try_preempt ops p q;
                        if preempted then Some (account_push ops it data q, Inr ())
                        else Some (q\<lparr>packets_dropped_full := sat_add (packets_dropped_full q) 1\<rparr>,
                                   Inl QueueFull) } }"

text \<open>The latency statistics of a removed item.\<close>

definition track_latency :: "'b tx_item \<Rightarrow> 'h tx_queue \<Rightarrow> 'h tx_queue" where
  "track_latency it q =
     (let latency_ms = ucast (min (sat_sub (observed_now_ms q) (enqueue_time_ms it)) (ucast (- 1 :: u32)));
          q = (if latency_ms > max_latency_ms q then q\<lparr>max_latency_ms := latency_ms\<rparr> else q)
      in q\<lparr>avg_latency_scaled :=
            sat_add (sat_sub (avg_latency_scaled q) (avg_latency_scaled q div 8)) latency_ms\<rparr>)"

definition pop ::
  "('b, 't, 'h) txq_ops \<Rightarrow> u64 \<Rightarrow> 'h tx_queue \<Rightarrow> ('h tx_queue \<times> 'b tx_item option) option" where
  "pop ops now q =
     do { (q, _) \<leftarrow> expire_before ops now q;
          case hp_pop (tq_heap ops) (heap q) of
            None \<Rightarrow> Some (q, None)
          | Some (it, h) \<Rightarrow>
              do { q \<leftarrow> account_remove ops it (q\<lparr>heap := h\<rparr>);
                   Some (track_latency it q, Some it) } }"

fun allowed_loop ::
  "('b, 't, 'h) txq_ops \<Rightarrow> congestion_level \<Rightarrow> nat \<Rightarrow> 'h tx_queue \<times> 't \<times> 'b tx_item option \<Rightarrow>
   ('h tx_queue \<times> 't \<times> 'b tx_item option) option" where
  "allowed_loop ops level 0 s = Some s"
| "allowed_loop ops level (Suc n) (q, temp, found) =
     (case hp_pop (tq_heap ops) (heap q) of
        None \<Rightarrow> Some (q, temp, found)
      | Some (it, h) \<Rightarrow>
          let q = q\<lparr>heap := h\<rparr> in
          if found = None \<and> check_congestion_allows level (priority it) then
            do { q \<leftarrow> account_remove ops it q;
                 allowed_loop ops level n (track_latency it q, temp, Some it) }
          else allowed_loop ops level n (q, temp_push ops it temp, found))"

definition pop_if_allowed ::
  "('b, 't, 'h) txq_ops \<Rightarrow> u64 \<Rightarrow> congestion_level \<Rightarrow> 'h tx_queue \<Rightarrow>
   ('h tx_queue \<times> 'b tx_item option) option" where
  "pop_if_allowed ops now level q =
     do { (q, _) \<leftarrow> expire_before ops now q;
          if level = CongExhausted then Some (q, None)
          else if (case hp_peek (tq_heap ops) (heap q) of
                     Some first \<Rightarrow> check_congestion_allows level (priority first) | None \<Rightarrow> False)
          then pop ops now q
          else do { (q, temp, found) \<leftarrow>
                      allowed_loop ops level (heap_fuel ops q) (q, vc_new (tq_temp ops), None);
                    Some (put_back ops temp q, found) } }"

definition pop_after_csma ::
  "('b, 't, 'h) txq_ops \<Rightarrow> u64 \<Rightarrow> congestion_level \<Rightarrow> csma_action \<Rightarrow> 'h tx_queue \<Rightarrow>
   ('h tx_queue \<times> 'b tx_item option) option" where
  "pop_after_csma ops now level action q =
     (if \<not> tx_allowed action then Some (q, None) else pop_if_allowed ops now level q)"

definition has_allowed ::
  "('b, 't, 'h) txq_ops \<Rightarrow> u64 \<Rightarrow> congestion_level \<Rightarrow> 'h tx_queue \<Rightarrow> ('h tx_queue \<times> bool) option" where
  "has_allowed ops now level q =
     do { (q, _) \<leftarrow> expire_before ops now q;
          if level = CongExhausted then Some (q, False)
          else Some (q, list_ex (\<lambda>it. check_congestion_allows level (priority it))
                          (hp_iter (tq_heap ops) (heap q))) }"

definition tx_peek ::
  "('b, 't, 'h) txq_ops \<Rightarrow> u64 \<Rightarrow> 'h tx_queue \<Rightarrow> ('h tx_queue \<times> 'b tx_item option) option" where
  "tx_peek ops now q =
     do { (q, _) \<leftarrow> expire_before ops now q; Some (q, hp_peek (tq_heap ops) (heap q)) }"

definition tx_count :: "('b, 't, 'h) txq_ops \<Rightarrow> u64 \<Rightarrow> 'h tx_queue \<Rightarrow> ('h tx_queue \<times> nat) option" where
  "tx_count ops now q =
     do { (q, _) \<leftarrow> expire_before ops now q; Some (q, length (hp_iter (tq_heap ops) (heap q))) }"

definition tx_is_empty :: "('b, 't, 'h) txq_ops \<Rightarrow> u64 \<Rightarrow> 'h tx_queue \<Rightarrow> ('h tx_queue \<times> bool) option" where
  "tx_is_empty ops now q = do { (q, n) \<leftarrow> tx_count ops now q; Some (q, n = 0) }"

definition tx_is_full :: "('b, 't, 'h) txq_ops \<Rightarrow> u64 \<Rightarrow> 'h tx_queue \<Rightarrow> ('h tx_queue \<times> bool) option" where
  "tx_is_full ops now q =
     do { (q, _) \<leftarrow> expire_before ops now q;
          Some (q, length (hp_iter (tq_heap ops) (heap q)) \<ge> TX_QUEUE_CAPACITY) }"

record tx_queue_stats =
  st_depth :: nat
  st_bytes_pending :: nat
  st_by_priority :: "nat list"
  st_packets_queued :: u32
  st_packets_dropped_deadline :: u32
  st_packets_dropped_full :: u32
  st_packets_preempted :: u32
  st_max_latency_ms :: u32
  st_avg_latency_ms :: u32

definition tx_stats :: "('b, 't, 'h) txq_ops \<Rightarrow> 'h tx_queue \<Rightarrow> tx_queue_stats" where
  "tx_stats ops q = \<lparr>st_depth = length (hp_iter (tq_heap ops) (heap q)), st_bytes_pending = bytes_pending q,
     st_by_priority = by_priority q, st_packets_queued = packets_queued q,
     st_packets_dropped_deadline = packets_dropped_deadline q,
     st_packets_dropped_full = packets_dropped_full q, st_packets_preempted = packets_preempted q,
     st_max_latency_ms = max_latency_ms q, st_avg_latency_ms = avg_latency_scaled q div 8\<rparr>"

definition estimated_drain_time_ms :: "u32 \<Rightarrow> 'h tx_queue \<Rightarrow> u64" where
  "estimated_drain_time_ms airtime_per_byte_us q =
     (let total_us = of_nat (bytes_pending q) * ucast airtime_per_byte_us in
      if total_us mod 1000 = 0 then total_us div 1000 else total_us div 1000 + 1)"

section \<open>Channel access\<close>

primrec csma_run :: "(cad_observation \<times> u32) list \<Rightarrow> csma_state \<Rightarrow> csma_state \<times> csma_action list" where
  "csma_run [] s = (s, [])"
| "csma_run (c # cs) s =
     (let (s, a) = on_cad (fst c) (snd c) s; (s, as) = csma_run cs s in (s, a # as))"

text \<open>What the \<open>k\<close>-th busy channel in a row leads to.\<close>

definition busy_action :: "nat \<Rightarrow> csma_action \<Rightarrow> bool" where
  "busy_action k a \<longleftrightarrow>
     (if k \<le> 3 then \<exists>slots. a = CsmaBackoff slots (10 * ucast slots) \<and> unat slots < 2 ^ k
      else a = RetryExhausted)"

text \<open>The state after \<open>k\<close> busy channels in a row, counting from the last idle one.\<close>

definition csma_after :: "nat \<Rightarrow> csma_state" where
  "csma_after k = \<lparr>backoff_exponent = of_nat (min k 3), retries = of_nat (min k 4)\<rparr>"

lemma csma_after_0: "csma_after 0 = csma_new"
  by (simp add: csma_after_def csma_new_def)

lemma unat_ucast_and_le: "unat (ucast ((x :: u32) AND y) :: u8) \<le> unat y"
proof -
  have "x AND y \<le> y" by (rule word_and_le1)
  then show ?thesis unfolding unsigned_ucast_eq word_le_nat_alt
    by (metis mod_less_eq_dividend order_trans take_bit_eq_mod unsigned_take_bit_eq)
qed

lemma on_cad_busy:
  "\<exists>a. on_cad CadBusy d (csma_after k) = (csma_after (Suc k), a) \<and> busy_action (Suc k) a"
proof (cases "k < 3")
  case True
  then consider "k = 0" | "k = 1" | "k = 2" by linarith
  then show ?thesis
    using unat_ucast_and_le [of d 1] unat_ucast_and_le [of d 3] unat_ucast_and_le [of d 7]
    by cases (simp_all add: on_cad_def csma_after_def busy_action_def csma_is_exhausted_def contention_window_def
      CSMA_RETRY_LIMIT_def CSMA_BACKOFF_MAX_def CSMA_BACKOFF_UNIT_MS_def sat_add_def Let_def)
next
  case False
  then have "min k 4 = 3 \<or> min k 4 = 4" "min k 3 = 3" "min (Suc k) 4 = 4" "min (Suc k) 3 = 3" by linarith+
  then show ?thesis
    using False by (auto simp: on_cad_def csma_after_def busy_action_def csma_is_exhausted_def CSMA_RETRY_LIMIT_def)
qed

lemma on_cad_idle: "on_cad CadIdle d s = (csma_new, CsmaTransmit)"
  by (simp add: on_cad_def csma_reset_def csma_new_def)

fun busy_streak :: "nat \<Rightarrow> (cad_observation \<times> u32) list \<Rightarrow> nat" where
  "busy_streak k [] = k"
| "busy_streak k ((CadBusy, _) # cs) = busy_streak (Suc k) cs"
| "busy_streak k ((CadIdle, _) # cs) = busy_streak 0 cs"

lemma csma_run_state: "fst (csma_run cs (csma_after k)) = csma_after (busy_streak k cs)"
proof (induction k cs rule: busy_streak.induct)
  case (2 k d cs)
  obtain a where "on_cad CadBusy d (csma_after k) = (csma_after (Suc k), a)" using on_cad_busy by blast
  then show ?case using 2 by (auto split: prod.splits)
next
  case (3 k d cs)
  then show ?case by (auto simp: on_cad_idle csma_after_0 split: prod.splits)
qed simp

text \<open>
  C38. Channel access: whatever the radio has reported so far, the number \<open>k\<close> of busy channels
  since the last idle one decides what the next busy channel leads to: for the first three, a
  backoff of fewer than \<open>2 ^ k\<close> slots of 10 ms; from the fourth on, failure. An idle channel
  always allows the transmission and resets the state. The state never leaves the range that
  \<open>from_parts\<close> accepts.
\<close>

theorem csma_backoff_bounds:
  "let s = fst (csma_run cs csma_new) in
     busy_action (Suc (busy_streak 0 cs)) (snd (on_cad CadBusy d s))
     \<and> on_cad CadIdle d s = (csma_new, CsmaTransmit)
     \<and> csma_from_parts (backoff_exponent s) (retries s) = Inr s"
proof -
  define k where "k = busy_streak 0 cs"
  have s: "fst (csma_run cs csma_new) = csma_after k"
    using csma_run_state [of cs 0] by (simp add: csma_after_0 k_def)
  have "csma_from_parts (backoff_exponent (csma_after k)) (retries (csma_after k)) = Inr (csma_after k)"
    by (auto simp: csma_from_parts_def csma_after_def CSMA_BACKOFF_MAX_def CSMA_RETRY_LIMIT_def min_def
      word_less_nat_alt unat_of_nat)
  then show ?thesis
    unfolding s Let_def using on_cad_busy [of d k] by (auto simp: on_cad_idle k_def)
qed

section \<open>The contents of the queue and its statistics\<close>

definition txq_laws :: "('b, 't, 'h) txq_ops \<Rightarrow> bool" where
  "txq_laws ops \<longleftrightarrow> vec_laws (tq_data ops) 255 \<and> vec_laws (tq_temp ops) 4 \<and> heap_laws tx_item_cmp (tq_heap ops) 4"

definition contents :: "('b, 't, 'h) txq_ops \<Rightarrow> 'h tx_queue \<Rightarrow> 'b tx_item multiset" where
  "contents ops q = mset (hp_iter (tq_heap ops) (heap q))"

definition stats_ok :: "('b, 't, 'h) txq_ops \<Rightarrow> 'h tx_queue \<Rightarrow> 'b tx_item multiset \<Rightarrow> bool" where
  "stats_ok ops q M \<longleftrightarrow> bytes_pending q = (\<Sum>it\<in>#M. item_len ops it) \<and> length (by_priority q) = 5 \<and>
     (\<forall>i<5. by_priority q ! i = size (filter_mset (\<lambda>it. prio_index it = i) M))"

definition txq_inv :: "('b, 't, 'h) txq_ops \<Rightarrow> 'h tx_queue \<Rightarrow> bool" where
  "txq_inv ops q \<longleftrightarrow> stats_ok ops q (contents ops q) \<and> size (contents ops q) \<le> 4"

text \<open>Everything but the heap, the counters of its contents and the loss statistics.\<close>

definition same_clock :: "'h tx_queue \<Rightarrow> 'h tx_queue \<Rightarrow> bool" where
  "same_clock q q' \<longleftrightarrow> sequence q' = sequence q \<and> observed_now_ms q' = observed_now_ms q"

lemma same_clock_refl [simp]: "same_clock q q"
  by (simp add: same_clock_def)

lemma same_clock_trans: "same_clock q q' \<Longrightarrow> same_clock q' q'' \<Longrightarrow> same_clock q q''"
  by (simp add: same_clock_def)

lemma prio_index_less [simp]: "prio_index it < 5"
  by (cases "priority it") (simp_all add: prio_index_def)

lemma stats_ok_cong:
  "bytes_pending q' = bytes_pending q \<Longrightarrow> by_priority q' = by_priority q \<Longrightarrow> stats_ok ops q' M = stats_ok ops q M"
  by (simp add: stats_ok_def)

lemma account_remove_ok:
  assumes "stats_ok ops q (add_mset it M)"
  obtains q' where "account_remove ops it q = Some q'" and "stats_ok ops q' M" and "heap q' = heap q"
    and "same_clock q q'"
proof -
  have c: "by_priority q ! prio_index it = Suc (size (filter_mset (\<lambda>x. prio_index x = prio_index it) M))"
    using assms by (simp add: stats_ok_def)
  define q' where "q' = q\<lparr>bytes_pending := bytes_pending q - item_len ops it,
      by_priority := (by_priority q)[prio_index it := by_priority q ! prio_index it - 1]\<rparr>"
  have "account_remove ops it q = Some q'"
    using assms c by (simp add: account_remove_def q'_def stats_ok_def)
  moreover have "stats_ok ops q' M"
    using assms c by (auto simp: stats_ok_def q'_def nth_list_update)
  ultimately show thesis
    by (rule that) (simp_all add: q'_def same_clock_def)
qed

lemma txq_lawsD:
  assumes "txq_laws ops"
  shows "vec_laws (tq_data ops) 255" and "vec_laws (tq_temp ops) 4" and "heap_laws tx_item_cmp (tq_heap ops) 4"
  using assms by (simp_all add: txq_laws_def)

lemma temp_push_iter:
  assumes "txq_laws ops" and "length (vc_iter (tq_temp ops) temp) < 4"
  shows "vc_iter (tq_temp ops) (temp_push ops it temp) = vc_iter (tq_temp ops) temp @ [it]"
proof -
  obtain v where "vc_push (tq_temp ops) it temp = Some v"
    using vec_push_Some [OF txq_lawsD(2) [OF assms(1)], of it temp] assms(2) by blast
  then show ?thesis
    using vec_push [OF txq_lawsD(2) [OF assms(1)]] by (simp add: temp_push_def)
qed

lemma contents_size: "size (contents ops q) = length (hp_iter (tq_heap ops) (heap q))"
  by (simp add: contents_def)

lemma pop_contents:
  assumes "txq_laws ops"
  shows "hp_pop (tq_heap ops) (heap q) = None \<longleftrightarrow> contents ops q = {#}"
    and "hp_pop (tq_heap ops) (heap q) = Some (it, h) \<Longrightarrow>
      contents ops q = add_mset it (contents ops (q\<lparr>heap := h\<rparr>))"
  using heap_pop_None [OF txq_lawsD(3) [OF assms], of "heap q"] heap_pop [OF txq_lawsD(3) [OF assms], of "heap q" it h]
  by (simp_all add: contents_def)

lemma hp_push_contents:
  assumes "txq_laws ops" and "size (contents ops q) < 4"
  shows "contents ops (q\<lparr>heap := (case hp_push (tq_heap ops) it (heap q) of Some h \<Rightarrow> h | None \<Rightarrow> heap q)\<rparr>)
    = add_mset it (contents ops q)"
proof -
  obtain h where "hp_push (tq_heap ops) it (heap q) = Some h"
    using heap_push_Some [OF txq_lawsD(3) [OF assms(1)], of it "heap q"] assms(2) by (auto simp: contents_def)
  then show ?thesis
    using heap_push [OF txq_lawsD(3) [OF assms(1)]] by (simp add: contents_def)
qed

lemma put_back_contents:
  assumes "txq_laws ops" and "size (contents ops q) + length (vc_iter (tq_temp ops) temp) \<le> 4"
  shows "contents ops (put_back ops temp q) = contents ops q + mset (vc_iter (tq_temp ops) temp)"
    and "\<exists>h. put_back ops temp q = q\<lparr>heap := h\<rparr>"
proof -
  have "size (contents ops q) + length xs \<le> 4 \<Longrightarrow>
     contents ops (fold (\<lambda>it q. q\<lparr>heap := (case hp_push (tq_heap ops) it (heap q) of Some h \<Rightarrow> h | None \<Rightarrow> heap q)\<rparr>) xs q)
       = contents ops q + mset xs \<and>
     (\<exists>h. fold (\<lambda>it q. q\<lparr>heap := (case hp_push (tq_heap ops) it (heap q) of Some h \<Rightarrow> h | None \<Rightarrow> heap q)\<rparr>) xs q
       = q\<lparr>heap := h\<rparr>)" for xs
  proof (induction xs arbitrary: q)
    case Nil
    then show ?case by (auto intro: exI [of _ "heap q"])
  next
    case (Cons x xs)
    let ?q = "q\<lparr>heap := (case hp_push (tq_heap ops) x (heap q) of Some h \<Rightarrow> h | None \<Rightarrow> heap q)\<rparr>"
    have c: "contents ops ?q = add_mset x (contents ops q)"
      using hp_push_contents [OF assms(1), of q x] Cons.prems by simp
    show ?case
      using Cons.IH [of ?q] Cons.prems c by auto
  qed
  from this [OF assms(2)] show "contents ops (put_back ops temp q) = contents ops q + mset (vc_iter (tq_temp ops) temp)"
    "\<exists>h. put_back ops temp q = q\<lparr>heap := h\<rparr>"
    by (simp_all add: put_back_def)
qed

section \<open>Expiry\<close>

text \<open>
  One turn of a draining loop: the heap gives up an item, which is either dropped, with the
  counters adjusted, or kept in the temporary vector.
\<close>

lemma drain_step:
  assumes laws: "txq_laws ops" and "heap_fuel ops q \<le> Suc n"
    and size: "size (contents ops q) + length (vc_iter (tq_temp ops) temp) \<le> 4"
    and "stats_ok ops q (contents ops q + mset (vc_iter (tq_temp ops) temp))"
    and pop: "hp_pop (tq_heap ops) (heap q) = Some (it, h)"
  obtains q1 q2 where "q1 = q\<lparr>heap := h\<rparr>" and "contents ops q = add_mset it (contents ops q1)"
    and "heap_fuel ops q1 \<le> n" and "same_clock q q1"
    and "vc_iter (tq_temp ops) (temp_push ops it temp) = vc_iter (tq_temp ops) temp @ [it]"
    and "stats_ok ops q1 (contents ops q1 + mset (vc_iter (tq_temp ops) (temp_push ops it temp)))"
    and "account_remove ops it q1 = Some q2" and "heap q2 = h" and "contents ops q2 = contents ops q1"
    and "heap_fuel ops q2 \<le> n" and "same_clock q q2"
    and "stats_ok ops q2 (contents ops q2 + mset (vc_iter (tq_temp ops) temp))"
proof -
  define q1 where "q1 = q\<lparr>heap := h\<rparr>"
  have c: "contents ops q = add_mset it (contents ops q1)"
    using pop_contents(2) [OF laws pop] unfolding q1_def .
  have fuel: "heap_fuel ops q1 \<le> n"
    using assms(2) c contents_size [of ops q] contents_size [of ops q1] by (simp add: heap_fuel_def)
  have sc: "same_clock q q1" by (simp add: q1_def same_clock_def)
  have t: "vc_iter (tq_temp ops) (temp_push ops it temp) = vc_iter (tq_temp ops) temp @ [it]"
    using temp_push_iter [OF laws] size c by simp
  have st: "stats_ok ops q1 (add_mset it (contents ops q1 + mset (vc_iter (tq_temp ops) temp)))"
    using assms(4) stats_ok_cong [of q1 q ops] by (simp add: c q1_def)
  obtain q2 where r: "account_remove ops it q1 = Some q2" and h: "heap q2 = heap q1"
    and st2: "stats_ok ops q2 (contents ops q1 + mset (vc_iter (tq_temp ops) temp))" and sc2: "same_clock q1 q2"
    using st by (rule account_remove_ok)
  have c2: "contents ops q2 = contents ops q1" "heap_fuel ops q2 = heap_fuel ops q1"
    using h by (simp_all add: contents_def heap_fuel_def)
  show thesis
    by (rule that [of q1 q2, OF q1_def c fuel sc t])
      (use st st2 r h sc2 c2 fuel t same_clock_trans [OF sc sc2] in \<open>simp_all add: q1_def\<close>)
qed

lemma fuel_0_empty: "heap_fuel ops q \<le> 0 \<Longrightarrow> contents ops q = {#}"
  by (simp add: heap_fuel_def contents_def)

lemma expire_loop_spec:
  assumes "txq_laws ops"
  shows "heap_fuel ops q \<le> n \<Longrightarrow> size (contents ops q) + length (vc_iter (tq_temp ops) temp) \<le> 4 \<Longrightarrow>
    stats_ok ops q (contents ops q + mset (vc_iter (tq_temp ops) temp)) \<Longrightarrow>
    \<exists>q' temp'. expire_loop ops now n (q, temp, c) =
        Some (q', temp', c + size (filter_mset (\<lambda>it. item_is_expired it now) (contents ops q)))
      \<and> contents ops q' = {#} \<and> stats_ok ops q' (mset (vc_iter (tq_temp ops) temp')) \<and> same_clock q q'
      \<and> mset (vc_iter (tq_temp ops) temp') =
          mset (vc_iter (tq_temp ops) temp) + filter_mset (\<lambda>it. \<not> item_is_expired it now) (contents ops q)"
proof (induction n arbitrary: q temp c)
  case 0
  then show ?case using fuel_0_empty [of ops q] by simp
next
  case (Suc n)
  show ?case
  proof (cases "hp_pop (tq_heap ops) (heap q)")
    case None
    then show ?thesis
      using Suc.prems pop_contents(1) [OF assms, of q] by simp
  next
    case (Some p)
    obtain it h where p: "p = (it, h)" by (cases p)
    obtain q1 q2 where q1: "q1 = q\<lparr>heap := h\<rparr>" and c: "contents ops q = add_mset it (contents ops q1)"
      and f1: "heap_fuel ops q1 \<le> n" "same_clock q q1"
      and t: "vc_iter (tq_temp ops) (temp_push ops it temp) = vc_iter (tq_temp ops) temp @ [it]"
      and s1: "stats_ok ops q1 (contents ops q1 + mset (vc_iter (tq_temp ops) (temp_push ops it temp)))"
      and r: "account_remove ops it q1 = Some q2" and h2: "heap q2 = h" "contents ops q2 = contents ops q1"
      and f2: "heap_fuel ops q2 \<le> n" "same_clock q q2"
      and s2: "stats_ok ops q2 (contents ops q2 + mset (vc_iter (tq_temp ops) temp))"
      by (rule drain_step [OF assms Suc.prems Some [unfolded p]])
    show ?thesis
    proof (cases "item_is_expired it now")
      case True
      define q3 where "q3 = q2\<lparr>packets_dropped_deadline := sat_add (packets_dropped_deadline q2) 1\<rparr>"
      have q3: "contents ops q3 = contents ops q2" "heap_fuel ops q3 = heap_fuel ops q2" "same_clock q q3"
        "stats_ok ops q3 M = stats_ok ops q2 M" for M
        using f2 stats_ok_cong [of q3 q2 ops] by (simp_all add: q3_def contents_def heap_fuel_def same_clock_def)
      have "expire_loop ops now (Suc n) (q, temp, c) = expire_loop ops now n (q3, temp, c + 1)"
        using Some True r by (simp add: p q1 q3_def)
      then show ?thesis
        using Suc.IH [of q3 temp "c + 1"] Suc.prems(2) f2 s2 q3 h2 True c same_clock_trans [OF q3(3)] by auto
    next
      case False
      have "expire_loop ops now (Suc n) (q, temp, c) = expire_loop ops now n (q1, temp_push ops it temp, c)"
        using Some False by (simp add: p q1)
      then show ?thesis
        using Suc.IH [of q1 "temp_push ops it temp" c] Suc.prems(2) f1(1) s1 False c t same_clock_trans [OF f1(2)]
        by auto
    qed
  qed
qed

abbreviation live :: "('b, 't, 'h) txq_ops \<Rightarrow> u64 \<Rightarrow> 'h tx_queue \<Rightarrow> 'b tx_item multiset" where
  "live ops now q \<equiv> filter_mset (\<lambda>it. \<not> item_is_expired it (max (observed_now_ms q) now)) (contents ops q)"

lemma expire_before_spec:
  assumes "txq_laws ops" and "txq_inv ops q"
  obtains q' where "expire_before ops now q = Some (q', size (contents ops q) - size (live ops now q))"
    and "contents ops q' = live ops now q" and "txq_inv ops q'" and "sequence q' = sequence q"
    and "observed_now_ms q' = max (observed_now_ms q) now"
proof -
  define t where "t = max (observed_now_ms q) now"
  define q1 where "q1 = q\<lparr>observed_now_ms := t\<rparr>"
  have q1: "contents ops q1 = contents ops q" "observed_now_ms q1 = t" "sequence q1 = sequence q"
    by (simp_all add: q1_def contents_def)
  have st: "stats_ok ops q1 (contents ops q1)" "size (contents ops q1) \<le> 4"
    using assms(2) stats_ok_cong [of q1 q ops] by (simp_all add: txq_inv_def q1_def contents_def)
  have new: "vc_iter (tq_temp ops) (vc_new (tq_temp ops)) = []"
    by (rule vec_new [OF txq_lawsD(2) [OF assms(1)]])
  obtain q2 temp where l: "expire_loop ops t (heap_fuel ops q1) (q1, vc_new (tq_temp ops), 0)
        = Some (q2, temp, size (filter_mset (\<lambda>it. item_is_expired it t) (contents ops q)))"
    and q2: "contents ops q2 = {#}" "stats_ok ops q2 (mset (vc_iter (tq_temp ops) temp))" "same_clock q1 q2"
    and temp: "mset (vc_iter (tq_temp ops) temp) = live ops now q"
    using expire_loop_spec [OF assms(1), of q1 "heap_fuel ops q1" "vc_new (tq_temp ops)" t 0] st new
    by (auto simp: q1 t_def)
  have len: "length (vc_iter (tq_temp ops) temp) \<le> 4"
    using st(2) size_filter_mset_lesseq [of _ "contents ops q"] unfolding q1 size_mset [symmetric] temp
    by (rule order_trans [rotated])
  obtain h where h: "put_back ops temp q2 = q2\<lparr>heap := h\<rparr>"
    and c: "contents ops (put_back ops temp q2) = live ops now q"
    using put_back_contents [OF assms(1), of q2 temp] len q2(1) temp by auto
  have "size (filter_mset (\<lambda>it. item_is_expired it t) (contents ops q)) = size (contents ops q) - size (live ops now q)"
    using multiset_partition [of "contents ops q" "\<lambda>it. item_is_expired it t"]
    by (metis add_diff_cancel_right' size_union t_def)
  then have "expire_before ops now q = Some (put_back ops temp q2, size (contents ops q) - size (live ops now q))"
    using l by (simp add: expire_before_def Let_def q1_def t_def)
  moreover have "txq_inv ops (put_back ops temp q2)"
    using q2(2) stats_ok_cong [of "put_back ops temp q2" q2 ops] len c temp
    by (simp add: txq_inv_def h) (metis size_mset)
  ultimately show thesis
    using c q2(3) by (intro that [of "put_back ops temp q2"]) (simp_all add: h same_clock_def q1 t_def)
qed

section \<open>Order\<close>

text \<open>
  The age of an item is the number of pushes since it was sequenced. Ages of at most \<open>2 ^ 31\<close>
  are those the wrapping comparison tells apart.
\<close>

definition age :: "u32 \<Rightarrow> 'b tx_item \<Rightarrow> nat" where
  "age s it = unat (s - item_sequence it)"

definition ages_ok :: "u32 \<Rightarrow> 'b tx_item multiset \<Rightarrow> bool" where
  "ages_ok s M \<longleftrightarrow> (\<forall>it\<in>#M. 1 \<le> age s it \<and> age s it \<le> 2 ^ 31)"

text \<open>\<open>before s a b\<close>: item \<open>a\<close> is served no later than \<open>b\<close>.\<close>

definition before :: "u32 \<Rightarrow> 'b tx_item \<Rightarrow> 'b tx_item \<Rightarrow> bool" where
  "before s a b \<longleftrightarrow> priority_u8 (priority a) < priority_u8 (priority b) \<or>
     priority a = priority b \<and> age s b \<le> age s a"

lemma sint_diff_small:
  fixes a b :: u32
  assumes "unat a < unat b + 2 ^ 31" and "unat b < unat a + 2 ^ 31"
  shows "sint (a - b) = int (unat a) - int (unat b)"
proof -
  have "sint (a - b) = sint (word_of_int (int (unat a) - int (unat b)) :: u32)"
    by simp
  also have "\<dots> = signed_take_bit 31 (int (unat a) - int (unat b))"
    by (simp only: signed_of_int of_int_eq_id id_apply) simp
  also have "\<dots> = int (unat a) - int (unat b)"
  proof (rule signed_take_bit_int_eq_self)
    have "unat a < unat b + 2147483648" "unat b < unat a + 2147483648" "(2 :: int) ^ 31 = 2147483648"
      using assms by simp_all
    then show "- (2 ^ 31) \<le> int (unat a) - int (unat b)" "int (unat a) - int (unat b) < 2 ^ 31"
      by linarith+
  qed
  finally show ?thesis .
qed

lemma priority_u8_inject [simp]: "priority_u8 a = priority_u8 b \<longleftrightarrow> a = b"
  by (cases a; cases b) simp_all

lemma tx_item_cmp_before:
  assumes "1 \<le> age s a" "age s a \<le> 2 ^ 31" "1 \<le> age s b" "age s b \<le> 2 ^ 31"
  shows "tx_item_cmp a b \<noteq> OLess \<longleftrightarrow> before s a b"
    and "tx_item_cmp a b = OGreater \<longleftrightarrow> \<not> before s b a"
proof -
  have "item_sequence b - item_sequence a = (s - item_sequence a) - (s - item_sequence b)"
    by simp
  then have "sint (item_sequence b - item_sequence a) = int (age s a) - int (age s b)"
    using sint_diff_small [of "s - item_sequence a" "s - item_sequence b"] assms by (simp add: age_def)
  moreover have "priority_u8 (priority a) < priority_u8 (priority b) \<longleftrightarrow>
      \<not> priority_u8 (priority b) < priority_u8 (priority a)" if "priority a \<noteq> priority b"
    using that by (metis less_asym linorder_neqE priority_u8_inject)
  ultimately show "tx_item_cmp a b \<noteq> OLess \<longleftrightarrow> before s a b" "tx_item_cmp a b = OGreater \<longleftrightarrow> \<not> before s b a"
    by (cases "priority a = priority b"; auto simp: tx_item_cmp_def cmp_linorder_def before_def)+
qed

lemma before_trans: "before s a b \<Longrightarrow> before s b c \<Longrightarrow> before s a c"
  by (auto simp: before_def)

lemma cmp_total_on_ages:
  assumes "ages_ok s M"
  shows "cmp_total_on tx_item_cmp (set_mset M)"
proof -
  have "tx_item_cmp a b \<noteq> OLess \<longleftrightarrow> before s a b" "tx_item_cmp b a = OGreater \<longleftrightarrow> \<not> before s a b"
    if "a \<in># M" "b \<in># M" for a b
    using that assms tx_item_cmp_before [of s a b] tx_item_cmp_before [of s b a] by (simp_all add: ages_ok_def)
  then show ?thesis
    unfolding cmp_total_on_def by (metis before_trans)
qed

lemma heap_pop_before:
  assumes "txq_laws ops" and "hp_pop (tq_heap ops) (heap q) = Some (it, h)" and "ages_ok s (contents ops q)"
    and "y \<in># contents ops q"
  shows "before s it y"
proof -
  have "it \<in># contents ops q"
    using pop_contents(2) [OF assms(1,2)] by simp
  moreover have "tx_item_cmp it y \<noteq> OLess"
    using heap_pop_greatest [OF txq_lawsD(3) [OF assms(1)] assms(2)] cmp_total_on_ages [OF assms(3)] assms(4)
    by (simp add: contents_def)
  ultimately show ?thesis
    using assms(3,4) tx_item_cmp_before(1) [of s it y] by (simp add: ages_ok_def)
qed

section \<open>Draining with one removal\<close>

text \<open>What a draining loop that removes at most one item satisfying \<open>P\<close> takes out.\<close>

definition takes_one :: "('a \<Rightarrow> bool) \<Rightarrow> 'a multiset \<Rightarrow> 'a option \<Rightarrow> bool" where
  "takes_one P M r \<longleftrightarrow> (case r of None \<Rightarrow> \<forall>x\<in>#M. \<not> P x | Some x \<Rightarrow> x \<in># M \<and> P x)"

definition mset_of_option :: "'a option \<Rightarrow> 'a multiset" where
  "mset_of_option r = (case r of None \<Rightarrow> {#} | Some x \<Rightarrow> {#x#})"

lemma mset_of_option_simps [simp]: "mset_of_option None = {#}" "mset_of_option (Some x) = {#x#}"
  by (simp_all add: mset_of_option_def)

lemma allowed_loop_spec:
  assumes "txq_laws ops"
  shows "heap_fuel ops q \<le> n \<Longrightarrow> size (contents ops q) + length (vc_iter (tq_temp ops) temp) \<le> 4 \<Longrightarrow>
    stats_ok ops q (contents ops q + mset (vc_iter (tq_temp ops) temp)) \<Longrightarrow>
    \<exists>q' temp' r. allowed_loop ops level n (q, temp, found) =
        Some (q', temp', case found of None \<Rightarrow> r | Some it \<Rightarrow> Some it)
      \<and> contents ops q' = {#} \<and> stats_ok ops q' (mset (vc_iter (tq_temp ops) temp')) \<and> same_clock q q'
      \<and> (if found = None then takes_one (\<lambda>it. check_congestion_allows level (priority it)) (contents ops q) r
         else r = None)
      \<and> contents ops q + mset (vc_iter (tq_temp ops) temp) = mset (vc_iter (tq_temp ops) temp') + mset_of_option r"
proof (induction n arbitrary: q temp found)
  case 0
  then show ?case using fuel_0_empty [of ops q]
    by (intro exI [of _ q] exI [of _ temp] exI [of _ None]) (simp add: takes_one_def split: option.split)
next
  case (Suc n)
  show ?case
  proof (cases "hp_pop (tq_heap ops) (heap q)")
    case None
    then show ?thesis
      using Suc.prems pop_contents(1) [OF assms, of q]
      by (intro exI [of _ q] exI [of _ temp] exI [of _ None]) (simp add: takes_one_def split: option.split)
  next
    case (Some p)
    obtain it h where p: "p = (it, h)" by (cases p)
    obtain q1 q2 where q1: "q1 = q\<lparr>heap := h\<rparr>" and c: "contents ops q = add_mset it (contents ops q1)"
      and f1: "heap_fuel ops q1 \<le> n" "same_clock q q1"
      and t: "vc_iter (tq_temp ops) (temp_push ops it temp) = vc_iter (tq_temp ops) temp @ [it]"
      and s1: "stats_ok ops q1 (contents ops q1 + mset (vc_iter (tq_temp ops) (temp_push ops it temp)))"
      and r: "account_remove ops it q1 = Some q2" and h2: "heap q2 = h" "contents ops q2 = contents ops q1"
      and f2: "heap_fuel ops q2 \<le> n" "same_clock q q2"
      and s2: "stats_ok ops q2 (contents ops q2 + mset (vc_iter (tq_temp ops) temp))"
      by (rule drain_step [OF assms Suc.prems Some [unfolded p]])
    show ?thesis
    proof (cases "found = None \<and> check_congestion_allows level (priority it)")
      case True
      define q3 where "q3 = track_latency it q2"
      have q3: "contents ops q3 = contents ops q2" "heap_fuel ops q3 = heap_fuel ops q2" "same_clock q q3"
        "stats_ok ops q3 M = stats_ok ops q2 M" for M
        using f2 stats_ok_cong [of q3 q2 ops]
        by (simp_all add: q3_def contents_def heap_fuel_def same_clock_def track_latency_def Let_def)
      have "allowed_loop ops level (Suc n) (q, temp, found) = allowed_loop ops level n (q3, temp, Some it)"
        using Some True r by (simp add: p q1 q3_def)
      then show ?thesis
        using Suc.IH [of q3 temp "Some it"] Suc.prems(2) f2 s2 q3 h2 True c same_clock_trans [OF q3(3)]
        by (auto simp: takes_one_def intro!: exI [of _ "Some it"])
    next
      case False
      have "allowed_loop ops level (Suc n) (q, temp, found) = allowed_loop ops level n (q1, temp_push ops it temp, found)"
        using Some False by (auto simp: p q1)
      moreover obtain q' temp' r' where
        IH: "allowed_loop ops level n (q1, temp_push ops it temp, found)
            = Some (q', temp', case found of None \<Rightarrow> r' | Some it \<Rightarrow> Some it)"
          "contents ops q' = {#}" "stats_ok ops q' (mset (vc_iter (tq_temp ops) temp'))" "same_clock q1 q'"
          "if found = None then takes_one (\<lambda>it. check_congestion_allows level (priority it)) (contents ops q1) r'
           else r' = None"
          "contents ops q1 + mset (vc_iter (tq_temp ops) (temp_push ops it temp))
            = mset (vc_iter (tq_temp ops) temp') + mset_of_option r'"
        using Suc.IH [of q1 "temp_push ops it temp" found] Suc.prems(2) f1(1) s1 c t by auto
      ultimately show ?thesis
        using False c t same_clock_trans [OF f1(2) IH(4)]
        by (intro exI [of _ q'] exI [of _ temp'] exI [of _ r'])
          (auto simp: takes_one_def split: option.splits if_splits)
    qed
  qed
qed

lemma preempt_loop_spec:
  assumes "txq_laws ops"
  shows "heap_fuel ops q \<le> n \<Longrightarrow> size (contents ops q) + length (vc_iter (tq_temp ops) temp) \<le> 4 \<Longrightarrow>
    stats_ok ops q (contents ops q + mset (vc_iter (tq_temp ops) temp)) \<Longrightarrow>
    \<exists>q' temp' r. preempt_loop ops worst target n (q, temp, removed) =
        Some (q', temp', removed \<or> r \<noteq> None)
      \<and> contents ops q' = {#} \<and> stats_ok ops q' (mset (vc_iter (tq_temp ops) temp')) \<and> same_clock q q'
      \<and> (if \<not> removed then takes_one (\<lambda>it. priority_u8 (priority it) = worst \<and> item_sequence it = target) (contents ops q) r
         else r = None)
      \<and> contents ops q + mset (vc_iter (tq_temp ops) temp) = mset (vc_iter (tq_temp ops) temp') + mset_of_option r"
proof (induction n arbitrary: q temp removed)
  case 0
  then show ?case using fuel_0_empty [of ops q]
    by (intro exI [of _ q] exI [of _ temp] exI [of _ None]) (simp add: takes_one_def split: option.split)
next
  case (Suc n)
  show ?case
  proof (cases "hp_pop (tq_heap ops) (heap q)")
    case None
    then show ?thesis
      using Suc.prems pop_contents(1) [OF assms, of q]
      by (intro exI [of _ q] exI [of _ temp] exI [of _ None]) (simp add: takes_one_def split: option.split)
  next
    case (Some p)
    obtain it h where p: "p = (it, h)" by (cases p)
    obtain q1 q2 where q1: "q1 = q\<lparr>heap := h\<rparr>" and c: "contents ops q = add_mset it (contents ops q1)"
      and f1: "heap_fuel ops q1 \<le> n" "same_clock q q1"
      and t: "vc_iter (tq_temp ops) (temp_push ops it temp) = vc_iter (tq_temp ops) temp @ [it]"
      and s1: "stats_ok ops q1 (contents ops q1 + mset (vc_iter (tq_temp ops) (temp_push ops it temp)))"
      and r: "account_remove ops it q1 = Some q2" and h2: "heap q2 = h" "contents ops q2 = contents ops q1"
      and f2: "heap_fuel ops q2 \<le> n" "same_clock q q2"
      and s2: "stats_ok ops q2 (contents ops q2 + mset (vc_iter (tq_temp ops) temp))"
      by (rule drain_step [OF assms Suc.prems Some [unfolded p]])
    show ?thesis
    proof (cases "\<not> removed \<and> priority_u8 (priority it) = worst \<and> item_sequence it = target")
      case True
      define q3 where "q3 = q2\<lparr>packets_preempted := sat_add (packets_preempted q2) 1\<rparr>"
      have q3: "contents ops q3 = contents ops q2" "heap_fuel ops q3 = heap_fuel ops q2" "same_clock q q3"
        "stats_ok ops q3 M = stats_ok ops q2 M" for M
        using f2 stats_ok_cong [of q3 q2 ops]
        by (simp_all add: q3_def contents_def heap_fuel_def same_clock_def)
      have "preempt_loop ops worst target (Suc n) (q, temp, removed) = preempt_loop ops worst target n (q3, temp, True)"
        using Some True r by (simp add: p q1 q3_def)
      then show ?thesis
        using Suc.IH [of q3 temp True] Suc.prems(2) f2 s2 q3 h2 True c same_clock_trans [OF q3(3)]
        by (auto simp: takes_one_def intro!: exI [of _ "Some it"])
    next
      case False
      have "preempt_loop ops worst target (Suc n) (q, temp, removed) = preempt_loop ops worst target n (q1, temp_push ops it temp, removed)"
        using Some False by (auto simp: p q1)
      moreover obtain q' temp' r' where
        IH: "preempt_loop ops worst target n (q1, temp_push ops it temp, removed)
            = Some (q', temp', removed \<or> r' \<noteq> None)"
          "contents ops q' = {#}" "stats_ok ops q' (mset (vc_iter (tq_temp ops) temp'))" "same_clock q1 q'"
          "if \<not> removed then takes_one (\<lambda>it. priority_u8 (priority it) = worst \<and> item_sequence it = target) (contents ops q1) r'
           else r' = None"
          "contents ops q1 + mset (vc_iter (tq_temp ops) (temp_push ops it temp))
            = mset (vc_iter (tq_temp ops) temp') + mset_of_option r'"
        using Suc.IH [of q1 "temp_push ops it temp" removed] Suc.prems(2) f1(1) s1 c t by auto
      ultimately show ?thesis
        using False c t same_clock_trans [OF f1(2) IH(4)]
        by (intro exI [of _ q'] exI [of _ temp'] exI [of _ r'])
          (auto simp: takes_one_def split: option.splits if_splits)
    qed
  qed
qed

section \<open>Operations\<close>

lemma pop_spec:
  assumes laws: "txq_laws ops" and inv: "txq_inv ops q"
  obtains q' r where "pop ops now q = Some (q', r)" and "contents ops q' + mset_of_option r = live ops now q"
    and "r = None \<longleftrightarrow> live ops now q = {#}" and "txq_inv ops q'" and "sequence q' = sequence q"
    and "observed_now_ms q' = max (observed_now_ms q) now"
    and "ages_ok s (live ops now q) \<Longrightarrow> \<forall>it. r = Some it \<longrightarrow> (\<forall>y\<in>#live ops now q. before s it y)"
proof -
  obtain q1 n where e: "expire_before ops now q = Some (q1, n)" and c: "contents ops q1 = live ops now q"
    and inv1: "txq_inv ops q1" and s1: "sequence q1 = sequence q" "observed_now_ms q1 = max (observed_now_ms q) now"
    using laws inv by (rule expire_before_spec)
  show thesis
  proof (cases "hp_pop (tq_heap ops) (heap q1)")
    case None
    then show thesis
      using e c inv1 s1 pop_contents(1) [OF laws, of q1] by (intro that [of q1 None]) (simp_all add: pop_def)
  next
    case (Some p)
    obtain it h where p: "p = (it, h)" by (cases p)
    let ?q2 = "q1\<lparr>heap := h\<rparr>"
    have c2: "contents ops q1 = add_mset it (contents ops ?q2)"
      using pop_contents(2) [OF laws] Some p by blast
    have "stats_ok ops ?q2 (add_mset it (contents ops ?q2))"
      using inv1 stats_ok_cong [of ?q2 q1 ops] c2 by (simp add: txq_inv_def)
    then obtain q3 where r: "account_remove ops it ?q2 = Some q3" and h3: "heap q3 = heap ?q2"
      and st: "stats_ok ops q3 (contents ops ?q2)" and sc: "same_clock ?q2 q3"
      by (rule account_remove_ok)
    have q4: "contents ops (track_latency it q3) = contents ops ?q2"
        "stats_ok ops (track_latency it q3) (contents ops ?q2)" "same_clock q3 (track_latency it q3)"
      using h3 st stats_ok_cong [of "track_latency it q3" q3 ops]
      by (simp_all add: contents_def track_latency_def Let_def same_clock_def)
    have "pop ops now q = Some (track_latency it q3, Some it)"
      using e Some r by (simp add: pop_def p)
    moreover have "txq_inv ops (track_latency it q3)"
      using q4 inv1 c2 by (simp add: txq_inv_def)
    moreover have "live ops now q \<noteq> {#}" using c c2 by (metis add_mset_not_empty)
    ultimately show thesis
      using q4 s1 sc c c2 heap_pop_before [OF laws Some [unfolded p]]
      by (intro that [of "track_latency it q3" "Some it"]) (simp_all add: same_clock_def)
  qed
qed

lemma allows_antimono:
  "check_congestion_allows level p \<Longrightarrow> priority_u8 p' \<le> priority_u8 p \<Longrightarrow> check_congestion_allows level p'"
  by (cases level) auto

lemma pop_if_allowed_spec:
  assumes laws: "txq_laws ops" and inv: "txq_inv ops q"
  obtains q' r where "pop_if_allowed ops now level q = Some (q', r)"
    and "contents ops q' + mset_of_option r = live ops now q"
    and "txq_inv ops q'" and "sequence q' = sequence q" and "observed_now_ms q' = max (observed_now_ms q) now"
    and "ages_ok s (live ops now q) \<Longrightarrow>
      takes_one (\<lambda>it. check_congestion_allows level (priority it)) (live ops now q) r \<and>
      (\<forall>it. r = Some it \<longrightarrow> (\<forall>y\<in>#live ops now q. before s it y))"
proof -
  let ?ok = "\<lambda>it. check_congestion_allows level (priority it)"
  obtain q1 n where e: "expire_before ops now q = Some (q1, n)" and c: "contents ops q1 = live ops now q"
    and inv1: "txq_inv ops q1" and s1: "sequence q1 = sequence q" "observed_now_ms q1 = max (observed_now_ms q) now"
    using laws inv by (rule expire_before_spec)
  have live1: "live ops now q1 = live ops now q"
    using c s1 by (simp add: filter_filter_mset max.commute max.left_commute)
  have peek: "hp_peek (tq_heap ops) (heap q1) = map_option fst (hp_pop (tq_heap ops) (heap q1))"
    by (rule heap_peek [OF txq_lawsD(3) [OF laws]])
  consider (exhausted) "level = CongExhausted"
    | (first) it h where "level \<noteq> CongExhausted" "hp_pop (tq_heap ops) (heap q1) = Some (it, h)" "?ok it"
    | (search) "level \<noteq> CongExhausted" "\<And>it h. hp_pop (tq_heap ops) (heap q1) = Some (it, h) \<Longrightarrow> \<not> ?ok it"
    by blast
  then show thesis
  proof cases
    case exhausted
    then show thesis
      using e c inv1 s1 by (intro that [of q1 None]) (simp_all add: pop_if_allowed_def takes_one_def)
  next
    case (first it h)
    obtain q2 r where p: "pop ops now q1 = Some (q2, r)" and c2: "contents ops q2 + mset_of_option r = live ops now q"
      and r: "r = None \<longleftrightarrow> live ops now q = {#}" and q2: "txq_inv ops q2" "sequence q2 = sequence q1"
        "observed_now_ms q2 = max (observed_now_ms q1) now"
      and b: "ages_ok s (live ops now q) \<Longrightarrow> \<forall>it. r = Some it \<longrightarrow> (\<forall>y\<in>#live ops now q. before s it y)"
      by (rule pop_spec [where now = now and s = s, OF laws inv1, unfolded live1]) (rule that)
    have it: "it \<in># live ops now q"
      using pop_contents(2) [OF laws first(2)] unfolding c by simp
    obtain it' where it': "r = Some it'" using r it by (cases r) auto
    have mem: "it' \<in># live ops now q"
      using c2 it' by (metis mset_of_option_simps(2) multi_member_last union_iff)
    have ok: "?ok it'" if "ages_ok s (live ops now q)"
    proof (rule allows_antimono [OF first(3)])
      show "priority_u8 (priority it') \<le> priority_u8 (priority it)"
        using b [OF that] it' it by (auto simp: before_def)
    qed
    have "pop_if_allowed ops now level q = Some (q2, r)"
      using first e p by (simp add: pop_if_allowed_def peek)
    then show thesis
    proof (rule that [OF _ c2 q2(1)])
      show "takes_one ?ok (live ops now q) r \<and> (\<forall>it. r = Some it \<longrightarrow> (\<forall>y\<in>#live ops now q. before s it y))"
        if "ages_ok s (live ops now q)"
        using b [OF that] ok [OF that] it' mem by (simp add: takes_one_def)
    qed (use q2 s1 in simp_all)
  next
    case search
    have st: "stats_ok ops q1 (contents ops q1)" "size (contents ops q1) \<le> 4"
      using inv1 by (simp_all add: txq_inv_def)
    have new: "vc_iter (tq_temp ops) (vc_new (tq_temp ops)) = []"
      by (rule vec_new [OF txq_lawsD(2) [OF laws]])
    obtain q2 temp r where l: "allowed_loop ops level (heap_fuel ops q1) (q1, vc_new (tq_temp ops), None) = Some (q2, temp, r)"
      and c2: "contents ops q2 = {#}" and st2: "stats_ok ops q2 (mset (vc_iter (tq_temp ops) temp))" and sc: "same_clock q1 q2"
      and r: "takes_one ?ok (contents ops q1) r"
      and m: "contents ops q1 = mset (vc_iter (tq_temp ops) temp) + mset_of_option r"
      using allowed_loop_spec [OF laws, of q1 "heap_fuel ops q1" "vc_new (tq_temp ops)" level None] st new by auto
    have len: "length (vc_iter (tq_temp ops) temp) \<le> 4"
      using st(2) m by (metis le_add1 order_trans size_mset size_union)
    obtain h where h: "put_back ops temp q2 = q2\<lparr>heap := h\<rparr>"
      and pb: "contents ops (put_back ops temp q2) = mset (vc_iter (tq_temp ops) temp)"
      using put_back_contents [OF laws, of q2 temp] len c2 by auto
    have none: "r = None" if ages: "ages_ok s (live ops now q)"
    proof (cases r)
      case (Some x)
      then have x: "x \<in># contents ops q1" "?ok x" using r by (simp_all add: takes_one_def)
      then obtain it h where pop: "hp_pop (tq_heap ops) (heap q1) = Some (it, h)"
        using pop_contents(1) [OF laws, of q1] by (cases "hp_pop (tq_heap ops) (heap q1)") auto
      have "before s it x" using heap_pop_before [OF laws pop _ x(1)] ages c by simp
      then have "?ok it" by (intro allows_antimono [OF x(2)]) (auto simp: before_def)
      then show ?thesis using search(2) [OF pop] by simp
    qed simp
    have pa: "pop_if_allowed ops now level q = Some (put_back ops temp q2, r)"
      using search e l by (auto simp: pop_if_allowed_def peek split: option.split)
    have inv2: "txq_inv ops (put_back ops temp q2)"
      using st2 stats_ok_cong [of "put_back ops temp q2" q2 ops] len pb by (simp add: txq_inv_def h)
    show thesis
    proof (rule that [OF pa _ inv2])
      show "takes_one ?ok (live ops now q) r \<and> (\<forall>it. r = Some it \<longrightarrow> (\<forall>y\<in>#live ops now q. before s it y))"
        if "ages_ok s (live ops now q)"
        using none [OF that] r unfolding c by simp
    qed (use pb m sc s1 c in \<open>simp_all add: h same_clock_def\<close>)
  qed
qed

lemma worst_priority_max:
  shows "it \<in> set its \<Longrightarrow> priority_u8 (priority it) \<le> worst_priority its"
    and "worst_priority its = 0 \<or> (\<exists>it\<in>set its. priority_u8 (priority it) = worst_priority its)"
proof -
  have "(\<forall>it\<in>set its. priority_u8 (priority it) \<le> worst_priority its) \<and>
    (worst_priority its = 0 \<or> (\<exists>it\<in>set its. priority_u8 (priority it) = worst_priority its))"
    by (induction its rule: rev_induct) (auto simp: worst_priority_def max_def)
  then show "it \<in> set its \<Longrightarrow> priority_u8 (priority it) \<le> worst_priority its"
    "worst_priority its = 0 \<or> (\<exists>it\<in>set its. priority_u8 (priority it) = worst_priority its)"
    by auto
qed

lemma oldest_at_snoc:
  "oldest_at w (its @ [it]) =
     (if priority_u8 (priority it) = w then
        (case oldest_at w its of
           None \<Rightarrow> Some (item_sequence it)
         | Some seq \<Rightarrow> if sint (item_sequence it - seq) < 0 then Some (item_sequence it) else oldest_at w its)
      else oldest_at w its)"
  by (simp only: oldest_at_def foldl_append foldl.simps)

lemma oldest_at_Some:
  "case oldest_at w its of
     None \<Rightarrow> \<forall>y\<in>set its. priority_u8 (priority y) \<noteq> w
   | Some seq \<Rightarrow> (\<exists>it\<in>set its. item_sequence it = seq \<and> priority_u8 (priority it) = w)"
proof (induction its rule: rev_induct)
  case (snoc x its)
  then show ?case by (cases "oldest_at w its") (auto simp: oldest_at_snoc)
qed (simp add: oldest_at_def)

lemma oldest_at_oldest:
  assumes "ages_ok s (mset its)"
  shows "case oldest_at w its of
      None \<Rightarrow> \<forall>y\<in>set its. priority_u8 (priority y) \<noteq> w
    | Some seq \<Rightarrow> (\<exists>it\<in>set its. item_sequence it = seq \<and> priority_u8 (priority it) = w \<and>
        (\<forall>y\<in>set its. priority_u8 (priority y) = w \<longrightarrow> age s y \<le> age s it))"
  using assms
proof (induction its rule: rev_induct)
  case Nil
  then show ?case by (simp add: oldest_at_def)
next
  case (snoc x its)
  have ok: "ages_ok s (mset its)" "1 \<le> age s x" "age s x \<le> 2 ^ 31"
    using snoc.prems by (auto simp: ages_ok_def)
  show ?case
  proof (cases "oldest_at w its")
    case None
    then show ?thesis using snoc.IH [OF ok(1)] by (auto simp: oldest_at_snoc)
  next
    case (Some seq)
    then obtain it where it: "it \<in> set its" "item_sequence it = seq" "priority_u8 (priority it) = w"
      "\<forall>y\<in>set its. priority_u8 (priority y) = w \<longrightarrow> age s y \<le> age s it"
      using snoc.IH [OF ok(1)] by auto
    have ages: "1 \<le> age s it" "age s it \<le> 2 ^ 31"
      using ok(1) it(1) by (auto simp: ages_ok_def)
    have "item_sequence x - seq = (s - seq) - (s - item_sequence x)" by simp
    then have "sint (item_sequence x - seq) = int (age s it) - int (age s x)"
      using sint_diff_small [of "s - seq" "s - item_sequence x"] ok ages it(2) by (simp add: age_def)
    then show ?thesis
      using it Some by (auto simp: oldest_at_snoc)
  qed
qed

text \<open>What preemption evicts: an item of the lowest priority present, and the oldest of those.\<close>

definition victim :: "u32 \<Rightarrow> 'b tx_item multiset \<Rightarrow> 'b tx_item \<Rightarrow> bool" where
  "victim s M v \<longleftrightarrow> v \<in># M \<and> (\<forall>y\<in>#M. priority_u8 (priority y) \<le> priority_u8 (priority v)) \<and>
     (\<forall>y\<in>#M. priority y = priority v \<longrightarrow> age s y \<le> age s v)"

lemma try_preempt_spec:
  assumes laws: "txq_laws ops" and inv: "txq_inv ops q"
  obtains q' r where "try_preempt ops p q = Some (q', r \<noteq> None)"
    and "contents ops q' + mset_of_option r = contents ops q" and "txq_inv ops q'" and "same_clock q q'"
    and "case r of None \<Rightarrow> \<forall>y\<in>#contents ops q. priority_u8 (priority y) \<le> priority_u8 p
         | Some v \<Rightarrow> priority_u8 p < priority_u8 (priority v) \<and>
             (ages_ok s (contents ops q) \<longrightarrow> victim s (contents ops q) v)"
proof -
  let ?its = "hp_iter (tq_heap ops) (heap q)"
  let ?w = "worst_priority ?its"
  have set: "set ?its = set_mset (contents ops q)" by (simp add: contents_def)
  show thesis
  proof (cases "?w \<le> priority_u8 p")
    case True
    then have "\<forall>y\<in>#contents ops q. priority_u8 (priority y) \<le> priority_u8 p"
      using worst_priority_max(1) [of _ ?its] set by (auto intro: order_trans)
    then show thesis
      using True inv by (intro that [of q None]) (simp_all add: try_preempt_def Let_def)
  next
    case False
    then have "?w \<noteq> 0" by auto
    then obtain it0 where it0: "it0 \<in> set ?its" "priority_u8 (priority it0) = ?w"
      using worst_priority_max(2) [of ?its] by blast
    then obtain seq v1 where o: "oldest_at ?w ?its = Some seq" and v1: "v1 \<in># contents ops q" "item_sequence v1 = seq"
        "priority_u8 (priority v1) = ?w"
      using oldest_at_Some [where w = ?w and its = ?its] set by (cases "oldest_at ?w ?its") auto
    have st: "stats_ok ops q (contents ops q)" "size (contents ops q) \<le> 4"
      using inv by (simp_all add: txq_inv_def)
    have new: "vc_iter (tq_temp ops) (vc_new (tq_temp ops)) = []"
      by (rule vec_new [OF txq_lawsD(2) [OF laws]])
    obtain q2 temp r where l: "preempt_loop ops ?w seq (heap_fuel ops q) (q, vc_new (tq_temp ops), False)
          = Some (q2, temp, r \<noteq> None)"
      and c2: "contents ops q2 = {#}" and st2: "stats_ok ops q2 (mset (vc_iter (tq_temp ops) temp))" and sc: "same_clock q q2"
      and r: "takes_one (\<lambda>it. priority_u8 (priority it) = ?w \<and> item_sequence it = seq) (contents ops q) r"
      and m: "contents ops q = mset (vc_iter (tq_temp ops) temp) + mset_of_option r"
      using preempt_loop_spec [OF laws, of q "heap_fuel ops q" "vc_new (tq_temp ops)" ?w seq False] st new by auto
    have len: "length (vc_iter (tq_temp ops) temp) \<le> 4"
      using st(2) m by (metis le_add1 order_trans size_mset size_union)
    obtain h where h: "put_back ops temp q2 = q2\<lparr>heap := h\<rparr>"
      and pb: "contents ops (put_back ops temp q2) = mset (vc_iter (tq_temp ops) temp)"
      using put_back_contents [OF laws, of q2 temp] len c2 by auto
    obtain v where v: "r = Some v" "v \<in># contents ops q" "priority_u8 (priority v) = ?w" "item_sequence v = seq"
      using r v1 by (cases r) (auto simp: takes_one_def)
    have wm: "priority_u8 (priority y) \<le> ?w" if "y \<in># contents ops q" for y
      using worst_priority_max(1) [of y ?its] that set by simp
    have vic: "victim s (contents ops q) v" if ages: "ages_ok s (contents ops q)"
    proof -
      have "\<exists>it\<in>set ?its. item_sequence it = seq \<and> priority_u8 (priority it) = ?w \<and>
          (\<forall>y\<in>set ?its. priority_u8 (priority y) = ?w \<longrightarrow> age s y \<le> age s it)"
        using oldest_at_oldest [where s = s and its = ?its and w = ?w] ages unfolding o option.case by (simp add: contents_def)
      then obtain v0 where v0: "item_sequence v0 = seq" "v0 \<in># contents ops q"
          "\<forall>y\<in>#contents ops q. priority_u8 (priority y) = ?w \<longrightarrow> age s y \<le> age s v0"
        unfolding set by blast
      then have "age s v = age s v0" using v(4) by (simp add: age_def)
      then show ?thesis using v v0(3) wm by (simp add: victim_def)
    qed
    have "try_preempt ops p q = Some (put_back ops temp q2, r \<noteq> None)"
      using False o l by (simp add: try_preempt_def Let_def)
    moreover have "txq_inv ops (put_back ops temp q2)"
      using st2 stats_ok_cong [of "put_back ops temp q2" q2 ops] len pb by (simp add: txq_inv_def h)
    ultimately show thesis
      using pb m sc v False vic by (intro that [of "put_back ops temp q2" r]) (simp_all add: h same_clock_def not_le)
  qed
qed

lemma account_push_spec:
  assumes "txq_laws ops" and "stats_ok ops q (contents ops q)" and "size (contents ops q) < 4"
    and "item_len ops it = length data"
  shows "contents ops (account_push ops it data q) = add_mset it (contents ops q)"
    and "txq_inv ops (account_push ops it data q)"
    and "sequence (account_push ops it data q) = sequence q + 1"
    and "observed_now_ms (account_push ops it data q) = observed_now_ms q"
proof -
  have c: "contents ops (account_push ops it data q) = add_mset it (contents ops q)"
    using hp_push_contents [OF assms(1,3)] by (simp add: account_push_def contents_def)
  moreover have "stats_ok ops (account_push ops it data q) (add_mset it (contents ops q))"
    using assms(2,4) by (auto simp: stats_ok_def account_push_def nth_list_update)
  ultimately show "contents ops (account_push ops it data q) = add_mset it (contents ops q)"
    "txq_inv ops (account_push ops it data q)"
    using assms(3) by (simp_all add: txq_inv_def)
qed (simp_all add: account_push_def)

section \<open>Histories\<close>

datatype tx_event =
    TxPush tx_priority u64 u64 bytes
  | TxPop u64
  | TxPopAllowed u64 congestion_level
  | TxPopCsma u64 congestion_level csma_action
  | TxExpire u64
  | TxHasAllowed u64 congestion_level
  | TxPeek u64
  | TxCount u64
  | TxIsEmpty u64
  | TxIsFull u64

fun tx_step :: "('b, 't, 'h) txq_ops \<Rightarrow> 'h tx_queue \<Rightarrow> tx_event \<Rightarrow> 'h tx_queue option" where
  "tx_step ops q (TxPush p deadline now data) = map_option fst (push ops p deadline now data q)"
| "tx_step ops q (TxPop now) = map_option fst (pop ops now q)"
| "tx_step ops q (TxPopAllowed now level) = map_option fst (pop_if_allowed ops now level q)"
| "tx_step ops q (TxPopCsma now level action) = map_option fst (pop_after_csma ops now level action q)"
| "tx_step ops q (TxExpire now) = map_option fst (expire_before ops now q)"
| "tx_step ops q (TxHasAllowed now level) = map_option fst (has_allowed ops now level q)"
| "tx_step ops q (TxPeek now) = map_option fst (tx_peek ops now q)"
| "tx_step ops q (TxCount now) = map_option fst (tx_count ops now q)"
| "tx_step ops q (TxIsEmpty now) = map_option fst (tx_is_empty ops now q)"
| "tx_step ops q (TxIsFull now) = map_option fst (tx_is_full ops now q)"

text \<open>
  \<open>push_outcome\<close>: the four results of \<open>push\<close> and what each leaves in the queue, given the
  unexpired contents \<open>L\<close> before, the queue's clock \<open>t\<close> and its sequence counter \<open>s\<close>.
\<close>

definition new_item ::
  "('b, 't, 'h) txq_ops \<Rightarrow> tx_priority \<Rightarrow> u32 \<Rightarrow> u64 \<Rightarrow> u64 \<Rightarrow> bytes \<Rightarrow> 'b tx_item \<Rightarrow> bool" where
  "new_item ops p s deadline t data it \<longleftrightarrow> priority it = p \<and> item_sequence it = s \<and> deadline_ms it = deadline
     \<and> enqueue_time_ms it = t \<and> vc_iter (tq_data ops) (item_data it) = data"

definition push_outcome ::
  "('b, 't, 'h) txq_ops \<Rightarrow> u32 \<Rightarrow> u64 \<Rightarrow> 'b tx_item multiset \<Rightarrow> tx_priority \<Rightarrow> u64 \<Rightarrow> bytes \<Rightarrow>
   (tx_queue_error + unit) \<Rightarrow> 'b tx_item multiset \<Rightarrow> bool" where
  "push_outcome ops s t L p deadline data r M \<longleftrightarrow>
     (if deadline \<le> t then r = Inl DeadlineExpired \<and> M = L
      else if 255 < length data then r = Inl PayloadTooLarge \<and> M = L
      else if size L < 4 then r = Inr () \<and> (\<exists>it. new_item ops p s deadline t data it \<and> M = add_mset it L)
      else if \<forall>y\<in>#L. priority_u8 (priority y) \<le> priority_u8 p then r = Inl QueueFull \<and> M = L
      else r = Inr () \<and> (\<exists>it v. new_item ops p s deadline t data it \<and> victim s L v \<and>
             priority_u8 p < priority_u8 (priority v) \<and> add_mset v M = add_mset it L))"

lemma push_spec:
  fixes now :: u64
  assumes laws: "txq_laws ops" and inv: "txq_inv ops q"
  defines "t \<equiv> max (observed_now_ms q) now" and "L \<equiv> live ops now q"
  obtains q' r where "push ops p deadline now data q = Some (q', r)" and "txq_inv ops q'"
    and "observed_now_ms q' = t" and "sequence q' = sequence q + (if r = Inr () then 1 else 0)"
    and "r \<noteq> Inr () \<Longrightarrow> contents ops q' \<subseteq># L"
    and "r = Inr () \<Longrightarrow> \<exists>it. item_sequence it = sequence q \<and> contents ops q' \<subseteq># add_mset it L"
    and "ages_ok (sequence q) L \<Longrightarrow> push_outcome ops (sequence q) t L p deadline data r (contents ops q')"
proof -
  obtain q1 n where e: "expire_before ops now q = Some (q1, n)" and c: "contents ops q1 = L"
    and inv1: "txq_inv ops q1" and s1: "sequence q1 = sequence q" and o1: "observed_now_ms q1 = t"
    using laws inv unfolding t_def L_def by (rule expire_before_spec)
  note dl = txq_lawsD(1) [OF laws]
  have new: "vc_iter (tq_data ops) (vc_new (tq_data ops)) = []" by (rule vec_new [OF dl])
  consider (expired) "deadline \<le> t" | (large) "\<not> deadline \<le> t" "255 < length data"
    | (fits) "\<not> deadline \<le> t" "length data \<le> 255"
    by (meson not_le)
  then show thesis
  proof cases
    case expired
    then show thesis
      using e c inv1 s1 o1 by (intro that [of q1 "Inl DeadlineExpired"]) (simp_all add: push_def push_outcome_def)
  next
    case large
    then have "tx_item_new ops p (sequence q1) deadline t data = None"
      using vec_extend_Some [OF dl, of data "vc_new (tq_data ops)"] new
      by (cases "vc_extend (tq_data ops) data (vc_new (tq_data ops))") (simp_all add: tx_item_new_def)
    then show thesis
      using large e c inv1 s1 o1
      by (intro that [of q1 "Inl PayloadTooLarge"]) (simp_all add: push_def push_outcome_def)
  next
    case fits
    obtain v where "vc_extend (tq_data ops) data (vc_new (tq_data ops)) = Some v"
      using vec_extend_Some [OF dl, of data "vc_new (tq_data ops)"] new fits(2) by auto
    then obtain it where it: "tx_item_new ops p (sequence q1) deadline t data = Some it"
      and ni: "new_item ops p (sequence q) deadline t data it"
      using vec_extend [OF dl] new s1 by (auto simp: tx_item_new_def new_item_def)
    have il: "item_len ops it = length data" using ni by (simp add: new_item_def item_len_def)
    have st: "stats_ok ops q1 (contents ops q1)" "size L \<le> 4"
      using inv1 c by (simp_all add: txq_inv_def)
    show thesis
    proof (cases "size L < 4")
      case True
      have ap: "contents ops (account_push ops it data q1) = add_mset it L" "txq_inv ops (account_push ops it data q1)"
        "sequence (account_push ops it data q1) = sequence q + 1" "observed_now_ms (account_push ops it data q1) = t"
        using account_push_spec [OF laws st(1) _ il] True c s1 o1 by simp_all
      have "push ops p deadline now data q = Some (account_push ops it data q1, Inr ())"
        using fits e it o1 True c contents_size [of ops q1] by (simp add: push_def TX_QUEUE_CAPACITY_def)
      then show thesis
      proof (rule that [OF _ ap(2,4)])
        show "\<exists>x. item_sequence x = sequence q \<and> contents ops (account_push ops it data q1) \<subseteq># add_mset x L"
          using ap(1) ni by (intro exI [of _ it]) (simp add: new_item_def)
        show "push_outcome ops (sequence q) t L p deadline data (Inr ()) (contents ops (account_push ops it data q1))"
          using fits True ni ap(1) by (auto simp: push_outcome_def)
      qed (simp_all add: ap)
    next
      case False
      obtain q2 r where tp: "try_preempt ops p q1 = Some (q2, r \<noteq> None)" and c2: "contents ops q2 + mset_of_option r = L"
        and inv2: "txq_inv ops q2" and sc: "same_clock q1 q2"
        and r: "case r of None \<Rightarrow> \<forall>y\<in>#L. priority_u8 (priority y) \<le> priority_u8 p
         | Some v \<Rightarrow> priority_u8 p < priority_u8 (priority v) \<and> (ages_ok (sequence q) L \<longrightarrow> victim (sequence q) L v)"
        by (rule try_preempt_spec [where s = "sequence q" and p = p, OF laws inv1, unfolded c]) (rule that)
      have pu: "push ops p deadline now data q = (if r \<noteq> None then Some (account_push ops it data q2, Inr ())
          else Some (q2\<lparr>packets_dropped_full := sat_add (packets_dropped_full q2) 1\<rparr>, Inl QueueFull))"
        using fits e it o1 False c contents_size [of ops q1] tp by (simp add: push_def TX_QUEUE_CAPACITY_def)
      show thesis
      proof (cases r)
        case None
        let ?q3 = "q2\<lparr>packets_dropped_full := sat_add (packets_dropped_full q2) 1\<rparr>"
        have c3: "contents ops ?q3 = L" using c2 None by (simp add: contents_def)
        have "txq_inv ops ?q3"
          using inv2 stats_ok_cong [of ?q3 q2 ops] by (simp add: txq_inv_def contents_def)
        then show thesis
          using pu None c3 sc s1 o1 r fits False
          by (intro that [of ?q3 "Inl QueueFull"]) (simp_all add: same_clock_def push_outcome_def)
      next
        case (Some v)
        have L: "L = add_mset v (contents ops q2)" using c2 Some by simp
        then have sz: "size (contents ops q2) < 4" using st(2) by simp
        have ap: "contents ops (account_push ops it data q2) = add_mset it (contents ops q2)"
          "txq_inv ops (account_push ops it data q2)"
          "sequence (account_push ops it data q2) = sequence q + 1" "observed_now_ms (account_push ops it data q2) = t"
          using account_push_spec [OF laws _ sz il] inv2 sc s1 o1 by (simp_all add: txq_inv_def same_clock_def)
        have pv: "priority_u8 p < priority_u8 (priority v)" "ages_ok (sequence q) L \<Longrightarrow> victim (sequence q) L v"
          using r Some by simp_all
        have out: "push_outcome ops (sequence q) t L p deadline data (Inr ()) (add_mset it (contents ops q2))"
          if "ages_ok (sequence q) L"
          unfolding push_outcome_def using fits False pv(1) pv(2) [OF that] ni L by auto
        have "push ops p deadline now data q = Some (account_push ops it data q2, Inr ())"
          using pu Some by simp
        then show thesis
        proof (rule that [OF _ ap(2,4)])
          show "\<exists>x. item_sequence x = sequence q \<and> contents ops (account_push ops it data q2) \<subseteq># add_mset x L"
            using ap(1) ni L by (intro exI [of _ it]) (simp add: new_item_def)
          show "push_outcome ops (sequence q) t L p deadline data (Inr ()) (contents ops (account_push ops it data q2))"
            if "ages_ok (sequence q) L"
            using out [OF that] ap(1) by simp
        qed (simp_all add: ap)
      qed
    qed
  qed
qed

section \<open>Reachable queues\<close>

text \<open>Every call succeeds, keeps the invariant, and keeps items or adds one freshly sequenced.\<close>

text \<open>What one call may do to the contents: only packets taken away, or one new packet besides.\<close>

definition tx_effect :: "('b, 't, 'h) txq_ops \<Rightarrow> 'h tx_queue \<Rightarrow> 'h tx_queue \<Rightarrow> bool" where
  "tx_effect ops q q' \<longleftrightarrow> txq_inv ops q' \<and>
     (sequence q' = sequence q \<and> contents ops q' \<subseteq># contents ops q \<or>
      sequence q' = sequence q + 1 \<and>
        (\<exists>it. item_sequence it = sequence q \<and> contents ops q' \<subseteq># add_mset it (contents ops q)))"

lemma push_effect:
  assumes laws: "txq_laws ops" and inv: "txq_inv ops q"
  shows "\<exists>q' r. push ops p deadline now data q = Some (q', r) \<and> tx_effect ops q q'"
proof -
  have live: "live ops now q \<subseteq># contents ops q" by simp
  obtain q' r where p: "push ops p deadline now data q = Some (q', r)" "txq_inv ops q'"
    "sequence q' = sequence q + (if r = Inr () then 1 else 0)"
    "r \<noteq> Inr () \<Longrightarrow> contents ops q' \<subseteq># live ops now q"
    "r = Inr () \<Longrightarrow> \<exists>it. item_sequence it = sequence q \<and> contents ops q' \<subseteq># add_mset it (live ops now q)"
    using laws inv by (rule push_spec) (rule that)
  have "tx_effect ops q q'"
  proof (cases "r = Inr ()")
    case True
    then obtain it where "item_sequence it = sequence q" "contents ops q' \<subseteq># add_mset it (live ops now q)"
      using p(5) by blast
    moreover have "add_mset it (live ops now q) \<subseteq># add_mset it (contents ops q)"
      using live by simp
    ultimately have "\<exists>it. item_sequence it = sequence q \<and> contents ops q' \<subseteq># add_mset it (contents ops q)"
      by (blast intro: subset_mset.order_trans)
    then show ?thesis using p(2,3) True by (simp add: tx_effect_def)
  next
    case False
    then show ?thesis using p(2,3) subset_mset.order_trans [OF p(4) live] by (simp add: tx_effect_def)
  qed
  then show ?thesis using p(1) by blast
qed

lemma taken_effect:
  assumes "contents ops q' + N = live ops now q" and "txq_inv ops q'" and "sequence q' = sequence q"
  shows "tx_effect ops q q'"
proof -
  have "live ops now q \<subseteq># contents ops q" by simp
  then show ?thesis
    using assms unfolding tx_effect_def by (metis mset_subset_eq_add_left subset_mset.order_trans)
qed

lemma pop_effect:
  assumes "txq_laws ops" and "txq_inv ops q"
  shows "\<exists>q' r. pop ops now q = Some (q', r) \<and> tx_effect ops q q'"
  using assms by (rule pop_spec) (blast intro: taken_effect)

lemma pop_if_allowed_effect:
  assumes "txq_laws ops" and "txq_inv ops q"
  shows "\<exists>q' r. pop_if_allowed ops now level q = Some (q', r) \<and> tx_effect ops q q'"
  using assms by (rule pop_if_allowed_spec) (blast intro: taken_effect)

lemma pop_after_csma_effect:
  assumes "txq_laws ops" and "txq_inv ops q"
  shows "\<exists>q' r. pop_after_csma ops now level action q = Some (q', r) \<and> tx_effect ops q q'"
proof (cases "tx_allowed action")
  case True
  then show ?thesis using pop_if_allowed_effect [OF assms, of now level] by (simp add: pop_after_csma_def)
next
  case False
  then show ?thesis using assms by (simp add: pop_after_csma_def tx_effect_def)
qed

lemma expire_before_effect:
  assumes "txq_laws ops" and "txq_inv ops q"
  shows "\<exists>q' n. expire_before ops now q = Some (q', n) \<and> tx_effect ops q q'"
  using assms
proof (rule expire_before_spec [where now = now])
  fix q'
  assume "expire_before ops now q = Some (q', size (contents ops q) - size (live ops now q))"
    and "contents ops q' = live ops now q" and "txq_inv ops q'" and "sequence q' = sequence q"
  then show ?thesis using taken_effect [where q' = q' and N = "{#}" and now = now] by auto
qed

lemma tx_step_spec:
  assumes "txq_laws ops" and "txq_inv ops q"
  obtains q' where "tx_step ops q e = Some q'" and "tx_effect ops q q'"
proof (cases e)
  case (TxPush p deadline now data)
  then show thesis using push_effect [OF assms, of p deadline now data] that by auto
next
  case (TxPop now)
  then show thesis using pop_effect [OF assms, of now] that by auto
next
  case (TxPopAllowed now level)
  then show thesis using pop_if_allowed_effect [OF assms, of now level] that by auto
next
  case (TxPopCsma now level action)
  then show thesis using pop_after_csma_effect [OF assms, of now level action] that by auto
next
  case (TxExpire now)
  then show thesis using expire_before_effect [OF assms, of now] that by auto
next
  case (TxHasAllowed now level)
  obtain q' n where "expire_before ops now q = Some (q', n)" "tx_effect ops q q'"
    using expire_before_effect [OF assms] by blast
  then show thesis using TxHasAllowed
    by (cases "level = CongExhausted"; intro that [of q']; simp add: has_allowed_def)
next
  case (TxPeek now)
  then show thesis using expire_before_effect [OF assms, of now] that by (auto simp: tx_peek_def)
next
  case (TxCount now)
  then show thesis using expire_before_effect [OF assms, of now] that by (auto simp: tx_count_def)
next
  case (TxIsEmpty now)
  then show thesis using expire_before_effect [OF assms, of now] that
    by (auto simp: tx_is_empty_def tx_count_def)
next
  case (TxIsFull now)
  then show thesis using expire_before_effect [OF assms, of now] that by (auto simp: tx_is_full_def)
qed

lemma tx_step_safe:
  "txq_laws ops \<and> txq_inv ops q \<Longrightarrow> \<exists>q'. tx_step ops q e = Some q' \<and> txq_laws ops \<and> txq_inv ops q'"
  using tx_step_spec [of ops q e] by (metis tx_effect_def)

interpretation tx_machine: safe_machine "tx_step ops" "\<lambda>q. txq_laws ops \<and> txq_inv ops q" for ops
  by unfold_locales (rule tx_step_safe)

lemma tx_queue_new_inv:
  assumes "txq_laws ops"
  shows "txq_inv ops (tx_queue_new ops)"
  unfolding txq_inv_def stats_ok_def
  using heap_new [OF txq_lawsD(3) [OF assms]] by (simp add: tx_queue_new_def contents_def)

lemma age_Suc:
  assumes "age s it \<le> 2 ^ 31"
  shows "age (s + 1) it = Suc (age s it)"
proof -
  have e: "s + 1 - item_sequence it = (s - item_sequence it) + 1" by simp
  show ?thesis
    unfolding age_def e using assms by (subst unat_add_no_overflow) (simp_all add: age_def)
qed

text \<open>After fewer than \<open>2 ^ 31\<close> calls, the wrapping sequence numbers order the queue.\<close>

lemma tx_run_ages:
  assumes "txq_laws ops"
  shows "orun (tx_step ops) es (tx_queue_new ops) = Some q \<Longrightarrow> length es \<le> 2 ^ 31 \<Longrightarrow>
    txq_inv ops q \<and> (\<forall>it\<in>#contents ops q. 1 \<le> age (sequence q) it \<and> age (sequence q) it \<le> length es)"
proof (induction es arbitrary: q rule: rev_induct)
  case Nil
  then show ?case
    using tx_queue_new_inv [OF assms] heap_new [OF txq_lawsD(3) [OF assms]]
    by (auto simp: tx_queue_new_def contents_def)
next
  case (snoc e es)
  obtain q1 where q1: "orun (tx_step ops) es (tx_queue_new ops) = Some q1" "tx_step ops q1 e = Some q"
    using snoc.prems(1) by (auto simp: orun_snoc split: option.splits)
  have IH: "txq_inv ops q1" "\<forall>it\<in>#contents ops q1. 1 \<le> age (sequence q1) it \<and> age (sequence q1) it \<le> length es"
    using snoc.IH [OF q1(1)] snoc.prems(2) by simp_all
  obtain q' where "tx_step ops q1 e = Some q'" and eff: "tx_effect ops q1 q'"
    using assms IH(1) by (rule tx_step_spec)
  then have q: "q' = q" using q1(2) by simp
  have "1 \<le> age (sequence q) it \<and> age (sequence q) it \<le> length (es @ [e])" if it: "it \<in># contents ops q" for it
    using eff [unfolded tx_effect_def]
  proof (elim disjE conjE exE)
    assume "sequence q' = sequence q1" "contents ops q' \<subseteq># contents ops q1"
    then show ?thesis using IH(2) it q by (auto dest: mset_subset_eqD intro: le_SucI)
  next
    fix new
    assume s: "sequence q' = sequence q1 + 1" and new: "item_sequence new = sequence q1"
      and sub: "contents ops q' \<subseteq># add_mset new (contents ops q1)"
    have "it = new \<or> it \<in># contents ops q1"
      using mset_subset_eqD [OF sub] it q by auto
    then show ?thesis
    proof
      assume "it = new"
      then show ?thesis using new s q by (simp add: age_def)
    next
      assume "it \<in># contents ops q1"
      then have "1 \<le> age (sequence q1) it" "age (sequence q1) it \<le> length es" using IH(2) by auto
      then show ?thesis using age_Suc [of "sequence q1" it] snoc.prems(2) s q by simp
    qed
  qed
  then show ?case using eff q by (auto simp: tx_effect_def)
qed

lemma ages_ok_live:
  assumes "txq_laws ops" and "orun (tx_step ops) es (tx_queue_new ops) = Some q" and "length es \<le> 2 ^ 31"
  shows "txq_inv ops q" and "ages_ok (sequence q) (live ops now q)"
  using tx_run_ages [OF assms] assms(3) by (auto simp: ages_ok_def intro: order_trans)

text \<open>
  C31. The queue never panics and its statistics never drift: from an empty queue, every history
  of calls succeeds (no counter goes below zero), at most four packets are stored, and the byte
  and per-priority counters equal what the heap contains. The containers are any that behave as
  \<open>heapless\<close> documents.
\<close>

theorem tx_queue_consistent:
  assumes "txq_laws ops"
  shows "\<exists>q. orun (tx_step ops) es (tx_queue_new ops) = Some q \<and> size (contents ops q) \<le> 4
    \<and> bytes_pending q = (\<Sum>it\<in>#contents ops q. item_len ops it)
    \<and> (\<forall>i<5. by_priority q ! i = size (filter_mset (\<lambda>it. prio_index it = i) (contents ops q)))"
  using tx_machine.run_safe [of ops "tx_queue_new ops" es] tx_queue_new_inv [OF assms] assms
  by (auto simp: txq_inv_def stats_ok_def)

text \<open>
  C30. Every result of \<open>push\<close>: on a queue reached by fewer than \<open>2 ^ 31\<close> calls, a push is refused
  exactly when its deadline has passed, its payload exceeds 255 bytes, or four unexpired packets
  of the same or higher priority are queued; otherwise the packet is stored, and if the queue
  was full it replaces the oldest packet of the lowest priority present, which is strictly
  lower than the new one. Nothing else leaves the queue but expired packets.
\<close>

theorem tx_push_outcome:
  assumes "txq_laws ops" and "orun (tx_step ops) es (tx_queue_new ops) = Some q" and "length es \<le> 2 ^ 31"
  shows "\<exists>q' r. push ops p deadline now data q = Some (q', r) \<and>
    push_outcome ops (sequence q) (max (observed_now_ms q) now) (live ops now q) p deadline data r (contents ops q')"
proof -
  note a = ages_ok_live [OF assms]
  show ?thesis
    using assms(1) a(1) by (rule push_spec [where now = now]) (use a(2) in blast)
qed

text \<open>
  C29. Service order under congestion: on a queue reached by fewer than \<open>2 ^ 31\<close> calls,
  \<open>pop_if_allowed\<close> returns a packet exactly when some unexpired packet is allowed at the
  congestion level; what it returns is allowed, unexpired, and first among all unexpired
  packets by priority and then by age; every other unexpired packet stays queued.
\<close>

theorem tx_pop_allowed_order:
  assumes "txq_laws ops" and "orun (tx_step ops) es (tx_queue_new ops) = Some q" and "length es \<le> 2 ^ 31"
  shows "\<exists>q' r. pop_if_allowed ops now level q = Some (q', r)
    \<and> contents ops q' + mset_of_option r = live ops now q
    \<and> takes_one (\<lambda>it. check_congestion_allows level (priority it)) (live ops now q) r
    \<and> (\<forall>it. r = Some it \<longrightarrow> (\<forall>y\<in>#live ops now q. before (sequence q) it y))"
proof -
  note a = ages_ok_live [OF assms]
  show ?thesis
    using assms(1) a(1) by (rule pop_if_allowed_spec [where now = now and s = "sequence q" and level = level])
      (use a(2) in blast)
qed

section \<open>Sample histories\<close>

definition list_txq :: "(bytes, bytes tx_item list, bytes tx_item list) txq_ops" where
  "list_txq = \<lparr>tq_data = list_vec 255, tq_temp = list_vec 4, tq_heap = list_heap tx_item_cmp 4\<rparr>"

lemma list_txq_laws: "txq_laws list_txq"
  by (simp add: txq_laws_def list_txq_def list_vec_laws list_heap_laws)

lemma list_txq_item_len: "item_len list_txq it = length (item_data it)"
  by (simp add: item_len_def list_txq_def list_vec_def)

definition full_history :: "tx_event list" where
  "full_history = [TxPush PNormal 90 5 [1, 2], TxPush Bulk 90 6 [3], TxPush Bulk 90 7 [4], TxPush Urgent 90 8 [5]]"

lemma full_history_run: "\<exists>q. orun (tx_step list_txq) full_history (tx_queue_new list_txq) = Some q"
  using tx_machine.run_safe [of list_txq "tx_queue_new list_txq"] tx_queue_new_inv list_txq_laws by blast

lemma full_history_eval:
  "map_option (\<lambda>q. hp_iter (tq_heap list_txq) (heap q)) (orun (tx_step list_txq) full_history (tx_queue_new list_txq)) =
     Some [\<lparr>priority = PNormal, item_sequence = 0, deadline_ms = 90, enqueue_time_ms = 5, item_data = [1, 2]\<rparr>,
       \<lparr>priority = Bulk, item_sequence = 1, deadline_ms = 90, enqueue_time_ms = 6, item_data = [3]\<rparr>,
       \<lparr>priority = Bulk, item_sequence = 2, deadline_ms = 90, enqueue_time_ms = 7, item_data = [4]\<rparr>,
       \<lparr>priority = Urgent, item_sequence = 3, deadline_ms = 90, enqueue_time_ms = 8, item_data = [5]\<rparr>]"
  by code_simp

definition full_queue :: "bytes tx_item list tx_queue" where
  "full_queue = the (orun (tx_step list_txq) full_history (tx_queue_new list_txq))"

lemma full_queue_reached: "orun (tx_step list_txq) full_history (tx_queue_new list_txq) = Some full_queue"
  using full_history_run by (auto simp: full_queue_def)

lemma full_queue_contents:
  "contents list_txq full_queue = mset [\<lparr>priority = PNormal, item_sequence = 0, deadline_ms = 90, enqueue_time_ms = 5, item_data = [1, 2]\<rparr>,
       \<lparr>priority = Bulk, item_sequence = 1, deadline_ms = 90, enqueue_time_ms = 6, item_data = [3]\<rparr>,
       \<lparr>priority = Bulk, item_sequence = 2, deadline_ms = 90, enqueue_time_ms = 7, item_data = [4]\<rparr>,
       \<lparr>priority = Urgent, item_sequence = 3, deadline_ms = 90, enqueue_time_ms = 8, item_data = [5]\<rparr>]"
  using full_history_eval unfolding full_queue_reached contents_def option.map option.inject by (rule arg_cong)

theorem tx_queue_consistent_witness:
  "\<exists>q. orun (tx_step list_txq) full_history (tx_queue_new list_txq) = Some q \<and> size (contents list_txq q) = 4
    \<and> bytes_pending q = 5"
  using tx_queue_consistent [OF list_txq_laws, of full_history]
  unfolding full_queue_reached by (simp add: full_queue_contents list_txq_item_len)

theorem tx_push_outcome_witness:
  "length full_history \<le> 2 ^ 31 \<and> size (contents list_txq full_queue) = 4 \<and>
   (\<exists>q' r. push list_txq Sos 90 10 [9] full_queue = Some (q', r) \<and>
      push_outcome list_txq (sequence full_queue) (max (observed_now_ms full_queue) 10) (live list_txq 10 full_queue)
        Sos 90 [9] r (contents list_txq q'))"
  using tx_push_outcome [OF list_txq_laws full_queue_reached, of Sos 90 10 "[9]"]
  by (simp add: full_history_def full_queue_contents)

theorem tx_pop_allowed_order_witness:
  "length full_history \<le> 2 ^ 31 \<and> size (contents list_txq full_queue) = 4 \<and>
   (\<exists>q' r. pop_if_allowed list_txq 10 CongCritical full_queue = Some (q', r)
    \<and> takes_one (\<lambda>it. check_congestion_allows CongCritical (priority it)) (live list_txq 10 full_queue) r
    \<and> (\<forall>it. r = Some it \<longrightarrow> (\<forall>y\<in>#live list_txq 10 full_queue. before (sequence full_queue) it y)))"
  using tx_pop_allowed_order [OF list_txq_laws full_queue_reached, of 10 CongCritical]
  by (auto simp: full_history_def full_queue_contents)

end
