(* ===== verification/Loadng.thy ===== *)
theory Loadng
  imports Addressing
begin

text \<open>
  LOADng control messages and the typed route discovery (\<open>lichen-core/src/loadng.rs\<close>): the
  codecs of RREQ, RREP and RERR, the hop-limit arithmetic of forwarding, and the expanding-ring
  search. The type parameter of \<open>RouteDiscovery\<close> is the state marker; the model keeps the
  marker as a field and each operation carries the state its Rust signature demands.
\<close>

unbundle bit_operations_syntax

definition INITIAL_HOP_LIMIT :: u8 where "INITIAL_HOP_LIMIT = 4"
definition MAX_HOP_LIMIT :: u8 where "MAX_HOP_LIMIT = 15"
definition EXPANDING_RING :: "u8 list" where "EXPANDING_RING = [4, 8, 15]"
definition RREP_FLAG_PROXY :: u8 where "RREP_FLAG_PROXY = 0x01"

datatype loadng_code = CodeRreq | CodeRrep | CodeRerr

definition loadng_code_from_u8 :: "u8 \<Rightarrow> loadng_code option" where
  "loadng_code_from_u8 v =
     (if v = 0 then Some CodeRreq else if v = 1 then Some CodeRrep
      else if v = 2 then Some CodeRerr else None)"

fun loadng_code_u8 :: "loadng_code \<Rightarrow> u8" where
  "loadng_code_u8 CodeRreq = 0"
| "loadng_code_u8 CodeRrep = 1"
| "loadng_code_u8 CodeRerr = 2"

datatype rerr_code = Unspecified | NoRoute | OtherCode u8

definition rerr_code_of_u8 :: "u8 \<Rightarrow> rerr_code" where
  "rerr_code_of_u8 v = (if v = 0 then Unspecified else if v = 1 then NoRoute else OtherCode v)"

fun rerr_code_u8 :: "rerr_code \<Rightarrow> u8" where
  "rerr_code_u8 Unspecified = 0"
| "rerr_code_u8 NoRoute = 1"
| "rerr_code_u8 (OtherCode v) = v"

datatype route_discovery_state = DIdle | DSearching | DReplied | DFailed

datatype loadng_error =
    LTooShort too_short
  | LBufferTooSmall buffer_too_small
  | UnknownCode u8
  | HopLimitExceeded u8
  | InvalidDiscoveryTransition route_discovery_state route_discovery_state
  | InvalidDiscoveryReply

definition RREQ_RREP_LEN :: nat where "RREQ_RREP_LEN = 36"
definition RERR_LEN :: nat where "RERR_LEN = 18"

section \<open>Messages\<close>

record rreq =
  rreq_originator :: ipv6_addr
  rreq_destination :: ipv6_addr
  rreq_seq_num :: u16
  rreq_hop_limit :: u8
  rreq_flags :: u8

record rrep =
  rrep_originator :: ipv6_addr
  rrep_destination :: ipv6_addr
  rrep_seq_num :: u16
  rrep_hop_count :: u8
  rrep_flags :: u8

record rerr =
  rerr_unreachable :: ipv6_addr
  rerr_error_code :: rerr_code
  rerr_flags :: u8

definition rreq_from_bytes :: "bytes \<Rightarrow> loadng_error + rreq" where
  "rreq_from_bytes data =
     (if length data < RREQ_RREP_LEN then Inl (LTooShort (mk_too_short RREQ_RREP_LEN (length data)))
      else let hop_limit = data ! 1 in
      if hop_limit > MAX_HOP_LIMIT then Inl (HopLimitExceeded hop_limit)
      else Inr \<lparr>rreq_originator = slice 4 20 data, rreq_destination = slice 20 36 data,
                rreq_seq_num = of_be [data ! 2, data ! 3], rreq_hop_limit = hop_limit,
                rreq_flags = data ! 0\<rparr>)"

definition rreq_write_to :: "rreq \<Rightarrow> bytes \<Rightarrow> loadng_error + (bytes \<times> nat)" where
  "rreq_write_to m out =
     (if length out < RREQ_RREP_LEN then
        Inl (LBufferTooSmall (mk_buffer_too_small RREQ_RREP_LEN (length out)))
      else let out = out[0 := rreq_flags m];
               out = out[1 := rreq_hop_limit m];
               out = splice out 2 (be_bytes 2 (rreq_seq_num m));
               out = splice out 4 (rreq_originator m);
               out = splice out 20 (rreq_destination m)
           in Inr (out, RREQ_RREP_LEN))"

definition with_decremented_hop_limit :: "rreq \<Rightarrow> rreq option" where
  "with_decremented_hop_limit m =
     (if rreq_hop_limit m = 0 then None else Some (m\<lparr>rreq_hop_limit := rreq_hop_limit m - 1\<rparr>))"

definition rrep_from_bytes :: "bytes \<Rightarrow> loadng_error + rrep" where
  "rrep_from_bytes data =
     (if length data < RREQ_RREP_LEN then Inl (LTooShort (mk_too_short RREQ_RREP_LEN (length data)))
      else let hop_count = data ! 1 in
      if hop_count > MAX_HOP_LIMIT then Inl (HopLimitExceeded hop_count)
      else Inr \<lparr>rrep_originator = slice 4 20 data, rrep_destination = slice 20 36 data,
                rrep_seq_num = of_be [data ! 2, data ! 3], rrep_hop_count = hop_count,
                rrep_flags = data ! 0\<rparr>)"

definition rrep_write_to :: "rrep \<Rightarrow> bytes \<Rightarrow> loadng_error + (bytes \<times> nat)" where
  "rrep_write_to m out =
     (if length out < RREQ_RREP_LEN then
        Inl (LBufferTooSmall (mk_buffer_too_small RREQ_RREP_LEN (length out)))
      else let out = out[0 := rrep_flags m];
               out = out[1 := rrep_hop_count m];
               out = splice out 2 (be_bytes 2 (rrep_seq_num m));
               out = splice out 4 (rrep_originator m);
               out = splice out 20 (rrep_destination m)
           in Inr (out, RREQ_RREP_LEN))"

definition with_incremented_hop_count :: "rrep \<Rightarrow> rrep option" where
  "with_incremented_hop_count m =
     (if rrep_hop_count m \<ge> MAX_HOP_LIMIT then None
      else Some (m\<lparr>rrep_hop_count := rrep_hop_count m + 1\<rparr>))"

definition is_proxy :: "rrep \<Rightarrow> bool" where
  "is_proxy m \<longleftrightarrow> rrep_flags m AND RREP_FLAG_PROXY \<noteq> 0"

definition rerr_from_bytes :: "bytes \<Rightarrow> loadng_error + rerr" where
  "rerr_from_bytes data =
     (if length data < RERR_LEN then Inl (LTooShort (mk_too_short RERR_LEN (length data)))
      else Inr \<lparr>rerr_unreachable = slice 2 18 data, rerr_error_code = rerr_code_of_u8 (data ! 1),
                rerr_flags = data ! 0\<rparr>)"

definition rerr_write_to :: "rerr \<Rightarrow> bytes \<Rightarrow> loadng_error + (bytes \<times> nat)" where
  "rerr_write_to m out =
     (if length out < RERR_LEN then Inl (LBufferTooSmall (mk_buffer_too_small RERR_LEN (length out)))
      else let out = out[0 := rerr_flags m];
               out = out[1 := rerr_code_u8 (rerr_error_code m)];
               out = splice out 2 (rerr_unreachable m)
           in Inr (out, RERR_LEN))"

datatype loadng_message = MRreq rreq | MRrep rrep | MRerr rerr

definition from_icmpv6 :: "u8 \<Rightarrow> bytes \<Rightarrow> loadng_error + loadng_message" where
  "from_icmpv6 code body =
     (case loadng_code_from_u8 code of
        Some CodeRreq \<Rightarrow> res_bind (rreq_from_bytes body) (\<lambda>m. Inr (MRreq m))
      | Some CodeRrep \<Rightarrow> res_bind (rrep_from_bytes body) (\<lambda>m. Inr (MRrep m))
      | Some CodeRerr \<Rightarrow> res_bind (rerr_from_bytes body) (\<lambda>m. Inr (MRerr m))
      | None \<Rightarrow> Inl (UnknownCode code))"

fun message_code :: "loadng_message \<Rightarrow> u8" where
  "message_code (MRreq _) = loadng_code_u8 CodeRreq"
| "message_code (MRrep _) = loadng_code_u8 CodeRrep"
| "message_code (MRerr _) = loadng_code_u8 CodeRerr"

fun message_write_to :: "loadng_message \<Rightarrow> bytes \<Rightarrow> loadng_error + (bytes \<times> nat)" where
  "message_write_to (MRreq m) out = rreq_write_to m out"
| "message_write_to (MRrep m) out = rrep_write_to m out"
| "message_write_to (MRerr m) out = rerr_write_to m out"

section \<open>Route discovery\<close>

fun can_transition_to :: "route_discovery_state \<Rightarrow> route_discovery_state \<Rightarrow> bool" where
  "can_transition_to DIdle DSearching = True"
| "can_transition_to DSearching DSearching = True"
| "can_transition_to DSearching DReplied = True"
| "can_transition_to DSearching DFailed = True"
| "can_transition_to _ _ = False"

definition transition_to :: "route_discovery_state \<Rightarrow> route_discovery_state \<Rightarrow> loadng_error + route_discovery_state" where
  "transition_to s s' =
     (if can_transition_to s s' then Inr s' else Inl (InvalidDiscoveryTransition s s'))"

record route_discovery =
  rd_originator :: ipv6_addr
  rd_destination :: ipv6_addr
  rd_seq_num :: u16
  rd_ring_index :: nat
  rd_state :: route_discovery_state

definition discovery_new :: "ipv6_addr \<Rightarrow> ipv6_addr \<Rightarrow> u16 \<Rightarrow> route_discovery" where
  "discovery_new originator destination seq_num =
     \<lparr>rd_originator = originator, rd_destination = destination, rd_seq_num = seq_num,
      rd_ring_index = 0, rd_state = DIdle\<rparr>"

text \<open>\<open>EXPANDING_RING[self.ring_index]\<close> panics outside the three rings.\<close>

definition discovery_rreq :: "route_discovery \<Rightarrow> rreq option" where
  "discovery_rreq d =
     (if rd_ring_index d < length EXPANDING_RING then
        Some \<lparr>rreq_originator = rd_originator d, rreq_destination = rd_destination d,
              rreq_seq_num = rd_seq_num d, rreq_hop_limit = EXPANDING_RING ! rd_ring_index d, rreq_flags = 0\<rparr>
      else None)"

definition discovery_start :: "route_discovery \<Rightarrow> (route_discovery \<times> rreq) option" where
  "discovery_start d =
     (let searching = d\<lparr>rd_ring_index := 0, rd_state := DSearching\<rparr> in
      map_option (Pair searching) (discovery_rreq searching))"

definition discovery_fail :: "route_discovery \<Rightarrow> route_discovery" where
  "discovery_fail d = d\<lparr>rd_state := DFailed\<rparr>"

definition advance_ring :: "route_discovery \<Rightarrow> (route_discovery + route_discovery \<times> rreq) option" where
  "advance_ring d =
     (if rd_ring_index d + 1 \<ge> length EXPANDING_RING then Some (Inl (discovery_fail d))
      else let nxt = d\<lparr>rd_ring_index := rd_ring_index d + 1\<rparr> in
           map_option (\<lambda>m. Inr (nxt, m)) (discovery_rreq nxt))"

definition receive_rrep :: "route_discovery \<Rightarrow> rrep \<Rightarrow> loadng_error + route_discovery" where
  "receive_rrep d m =
     (if rrep_originator m \<noteq> rd_destination d \<or> rrep_destination m \<noteq> rd_originator d
         \<or> rrep_seq_num m \<noteq> rd_seq_num d
      then Inl InvalidDiscoveryReply
      else Inr (d\<lparr>rd_state := DReplied\<rparr>))"

section \<open>Wire images\<close>

definition route_wire :: "u8 \<Rightarrow> u8 \<Rightarrow> u16 \<Rightarrow> ipv6_addr \<Rightarrow> ipv6_addr \<Rightarrow> bytes" where
  "route_wire flags hops seq_num originator destination =
     [flags, hops] @ be_bytes 2 seq_num @ originator @ destination"

lemma be_bytes_2_split:
  obtains a b where "be_bytes 2 (s :: u16) = [a, b]" and "of_be [a, b] = s"
proof -
  obtain a b where ab: "be_bytes 2 s = [a, b]" using be_bytes_2 by blast
  have "of_be (be_bytes 2 s) = s" by simp
  with ab show thesis by (intro that) simp_all
qed

lemma route_wire_parts:
  fixes f h :: u8 and s :: u16 and rest :: bytes
  assumes "length orig = 16" and "length dest = 16"
  defines "data \<equiv> route_wire f h s orig dest @ rest"
  shows "data ! 0 = f" and "data ! Suc 0 = h" and "of_be [data ! 2, data ! 3] = s"
    and "slice 4 20 data = orig" and "slice 20 36 data = dest" and "take 36 data = route_wire f h s orig dest"
    and "36 \<le> length data"
proof -
  obtain a b where "be_bytes 2 s = [a, b]" "of_be [a, b] = s" by (rule be_bytes_2_split)
  then show "of_be [data ! 2, data ! 3] = s"
    by (simp add: data_def route_wire_def)
qed (use assms in \<open>simp_all add: route_wire_def slice_def\<close>)

lemma length_route_wire [simp]: "length orig = 16 \<Longrightarrow> length dest = 16 \<Longrightarrow> length (route_wire f h s orig dest) = 36"
  by (simp add: route_wire_def)

lemma take_nths: "n \<le> length xs \<Longrightarrow> take n xs = map (nth xs) [0..<n]"
  by (simp add: list_eq_iff_nth_eq)

lemma route_wire_of_parts:
  assumes "36 \<le> length data"
  shows "route_wire (data ! 0) (data ! 1) (of_be [data ! 2, data ! 3]) (slice 4 20 data) (slice 20 36 data) = take 36 data"
proof -
  have hd4: "take 4 data = [data ! 0, data ! 1, data ! 2, data ! 3]"
    using assms by (simp add: take_nths upt_rec numeral_2_eq_2 numeral_3_eq_3)
  have "take 36 data = take 4 data @ slice 4 36 data"
    using slice_join [of 0 4 36 data] by (simp add: slice_def)
  also have "slice 4 36 data = slice 4 20 data @ slice 20 36 data"
    by (simp add: slice_join)
  finally show ?thesis
    unfolding hd4 by (simp add: route_wire_def)
qed

definition rreq_wire :: "rreq \<Rightarrow> bytes" where
  "rreq_wire m = route_wire (rreq_flags m) (rreq_hop_limit m) (rreq_seq_num m) (rreq_originator m) (rreq_destination m)"

definition rreq_valid :: "rreq \<Rightarrow> bool" where
  "rreq_valid m \<longleftrightarrow> length (rreq_originator m) = 16 \<and> length (rreq_destination m) = 16 \<and> rreq_hop_limit m \<le> 15"

definition rrep_wire :: "rrep \<Rightarrow> bytes" where
  "rrep_wire m = route_wire (rrep_flags m) (rrep_hop_count m) (rrep_seq_num m) (rrep_originator m) (rrep_destination m)"

definition rrep_valid :: "rrep \<Rightarrow> bool" where
  "rrep_valid m \<longleftrightarrow> length (rrep_originator m) = 16 \<and> length (rrep_destination m) = 16 \<and> rrep_hop_count m \<le> 15"

definition rerr_wire :: "rerr \<Rightarrow> bytes" where
  "rerr_wire m = [rerr_flags m, rerr_code_u8 (rerr_error_code m)] @ rerr_unreachable m"

definition rerr_valid :: "rerr \<Rightarrow> bool" where
  "rerr_valid m \<longleftrightarrow> length (rerr_unreachable m) = 16 \<and> rerr_code_of_u8 (rerr_code_u8 (rerr_error_code m)) = rerr_error_code m"

lemmas loadng_consts = RREQ_RREP_LEN_def RERR_LEN_def MAX_HOP_LIMIT_def

lemma rreq_from_bytes_iff:
  "rreq_from_bytes data = Inr m \<longleftrightarrow> rreq_valid m \<and> (\<exists>rest. data = rreq_wire m @ rest)"
proof
  assume r: "rreq_from_bytes data = Inr m"
  then have len: "36 \<le> length data" and m: "rreq_wire m = take 36 data" "rreq_valid m"
    using route_wire_of_parts [of data]
    by (auto simp: rreq_from_bytes_def rreq_wire_def rreq_valid_def loadng_consts Let_def split: if_splits)
  then show "rreq_valid m \<and> (\<exists>rest. data = rreq_wire m @ rest)"
    by (metis append_take_drop_id)
next
  assume "rreq_valid m \<and> (\<exists>rest. data = rreq_wire m @ rest)"
  then obtain rest where v: "rreq_valid m" and d: "data = rreq_wire m @ rest" by blast
  then show "rreq_from_bytes data = Inr m"
    using route_wire_parts [of "rreq_originator m" "rreq_destination m"]
    by (auto simp: rreq_from_bytes_def rreq_wire_def rreq_valid_def loadng_consts Let_def)
qed

lemma rrep_from_bytes_iff:
  "rrep_from_bytes data = Inr m \<longleftrightarrow> rrep_valid m \<and> (\<exists>rest. data = rrep_wire m @ rest)"
proof
  assume r: "rrep_from_bytes data = Inr m"
  then have len: "36 \<le> length data" and m: "rrep_wire m = take 36 data" "rrep_valid m"
    using route_wire_of_parts [of data]
    by (auto simp: rrep_from_bytes_def rrep_wire_def rrep_valid_def loadng_consts Let_def split: if_splits)
  then show "rrep_valid m \<and> (\<exists>rest. data = rrep_wire m @ rest)"
    by (metis append_take_drop_id)
next
  assume "rrep_valid m \<and> (\<exists>rest. data = rrep_wire m @ rest)"
  then obtain rest where v: "rrep_valid m" and d: "data = rrep_wire m @ rest" by blast
  then show "rrep_from_bytes data = Inr m"
    using route_wire_parts [of "rrep_originator m" "rrep_destination m"]
    by (auto simp: rrep_from_bytes_def rrep_wire_def rrep_valid_def loadng_consts Let_def)
qed

lemma rerr_from_bytes_iff:
  "rerr_from_bytes data = Inr m \<longleftrightarrow> rerr_valid m \<and> (\<exists>rest. data = rerr_wire m @ rest)"
proof
  assume r: "rerr_from_bytes data = Inr m"
  then have len: "18 \<le> length data" by (auto simp: rerr_from_bytes_def loadng_consts split: if_splits)
  then have "take 2 data = [data ! 0, data ! 1]"
    by (simp add: take_nths upt_rec)
  then have "data = [data ! 0, data ! 1] @ slice 2 18 data @ drop 18 data"
    using slice_drop_join [of 2 18 data] append_take_drop_id [of 2 data] by simp
  moreover have "rerr_code_u8 (rerr_code_of_u8 c) = c" for c by (simp add: rerr_code_of_u8_def)
  ultimately show "rerr_valid m \<and> (\<exists>rest. data = rerr_wire m @ rest)"
    using r len by (auto simp: rerr_from_bytes_def rerr_wire_def rerr_valid_def loadng_consts)
next
  assume "rerr_valid m \<and> (\<exists>rest. data = rerr_wire m @ rest)"
  then obtain rest where v: "rerr_valid m" and d: "data = rerr_wire m @ rest" by blast
  then show "rerr_from_bytes data = Inr m"
    by (auto simp: rerr_from_bytes_def rerr_wire_def rerr_valid_def loadng_consts slice_def)
qed

lemma update_2_splice: "2 \<le> length out \<Longrightarrow> out[0 := a, Suc 0 := b] = splice out 0 [a, b]"
  by (cases out; cases "tl out") (auto simp: splice_def)

lemma rreq_write_to_eq:
  "rreq_valid m \<Longrightarrow> rreq_write_to m out =
     (if length out < 36 then Inl (LBufferTooSmall (mk_buffer_too_small 36 (length out)))
      else Inr (splice out 0 (rreq_wire m), 36))"
  by (auto simp: rreq_write_to_def rreq_valid_def rreq_wire_def route_wire_def loadng_consts update_2_splice splice_splice)

lemma rrep_write_to_eq:
  "rrep_valid m \<Longrightarrow> rrep_write_to m out =
     (if length out < 36 then Inl (LBufferTooSmall (mk_buffer_too_small 36 (length out)))
      else Inr (splice out 0 (rrep_wire m), 36))"
  by (auto simp: rrep_write_to_def rrep_valid_def rrep_wire_def route_wire_def loadng_consts update_2_splice splice_splice)

lemma rerr_write_to_eq:
  "rerr_valid m \<Longrightarrow> rerr_write_to m out =
     (if length out < 18 then Inl (LBufferTooSmall (mk_buffer_too_small 18 (length out)))
      else Inr (splice out 0 (rerr_wire m), 18))"
  by (auto simp: rerr_write_to_def rerr_valid_def rerr_wire_def loadng_consts update_2_splice splice_splice)

lemma loadng_wire_lengths:
  "rreq_valid q \<Longrightarrow> length (rreq_wire q) = 36" "rrep_valid p \<Longrightarrow> length (rrep_wire p) = 36"
  "rerr_valid r \<Longrightarrow> length (rerr_wire r) = 18"
  by (simp_all add: rreq_valid_def rreq_wire_def rrep_valid_def rrep_wire_def rerr_valid_def rerr_wire_def)

interpretation rreq_codec: wire_codec rreq_write_to rreq_from_bytes rreq_wire rreq_valid
  by unfold_locales (simp_all add: rreq_write_to_eq rreq_from_bytes_iff loadng_wire_lengths)

interpretation rrep_codec: wire_codec rrep_write_to rrep_from_bytes rrep_wire rrep_valid
  by unfold_locales (simp_all add: rrep_write_to_eq rrep_from_bytes_iff loadng_wire_lengths)

interpretation rerr_codec: wire_codec rerr_write_to rerr_from_bytes rerr_wire rerr_valid
  by unfold_locales (simp_all add: rerr_write_to_eq rerr_from_bytes_iff loadng_wire_lengths)

fun message_valid :: "loadng_message \<Rightarrow> bool" where
  "message_valid (MRreq m) = rreq_valid m"
| "message_valid (MRrep m) = rrep_valid m"
| "message_valid (MRerr m) = rerr_valid m"

fun message_wire :: "loadng_message \<Rightarrow> bytes" where
  "message_wire (MRreq m) = rreq_wire m"
| "message_wire (MRrep m) = rrep_wire m"
| "message_wire (MRerr m) = rerr_wire m"

lemma from_icmpv6_iff:
  "from_icmpv6 code body = Inr m \<longleftrightarrow>
     message_valid m \<and> code = message_code m \<and> (\<exists>rest. body = message_wire m @ rest)"
  by (cases m) (auto simp: from_icmpv6_def loadng_code_from_u8_def res_bind_Inr_iff rreq_from_bytes_iff
      rrep_from_bytes_iff rerr_from_bytes_iff split: if_splits)

text \<open>
  C36. A LOADng body is parsed exactly when it starts with the wire image of a valid message of
  the kind its ICMPv6 code names, and then to that message: no hop value above 15 is ever
  accepted, unassigned error codes survive, and what a message writes is read back unchanged.
\<close>

theorem loadng_parse_iff:
  "from_icmpv6 code body = Inr m \<longleftrightarrow>
     message_valid m \<and> code = message_code m \<and> (\<exists>rest. body = message_wire m @ rest)"
  by (rule from_icmpv6_iff)

lemma message_write_to_InrD:
  assumes "message_valid m" and "message_write_to m out = Inr (out', n)"
  shows "take n out' = message_wire m" and "length out' = length out" and "drop n out' = drop n out"
proof -
  have "out' = splice out 0 (message_wire m) \<and> n = length (message_wire m) \<and> n \<le> length out"
    using assms by (cases m) (simp_all add: rreq_codec.enc_Inr_iff rrep_codec.enc_Inr_iff rerr_codec.enc_Inr_iff)
  then show "take n out' = message_wire m" and "length out' = length out" and "drop n out' = drop n out"
    by (simp_all add: take_splice_0) (simp add: splice_def)
qed

text \<open>
  What a valid LOADng message writes into a buffer is parsed back to the same message, and
  the rest of the buffer is not touched.
\<close>

theorem loadng_write_read:
  assumes "message_valid m" and "message_write_to m out = Inr (out', n)"
  shows "from_icmpv6 (message_code m) (take n out') = Inr m \<and> length out' = length out \<and> drop n out' = drop n out"
  using message_write_to_InrD [OF assms] assms(1) by (simp add: from_icmpv6_iff)

section \<open>Flood bounds\<close>

text \<open>A request relayed \<open>n\<close> times, and a reply.\<close>

primrec relay_rreq :: "nat \<Rightarrow> rreq \<Rightarrow> rreq option" where
  "relay_rreq 0 m = Some m"
| "relay_rreq (Suc n) m = Option.bind (with_decremented_hop_limit m) (relay_rreq n)"

primrec relay_rrep :: "nat \<Rightarrow> rrep \<Rightarrow> rrep option" where
  "relay_rrep 0 m = Some m"
| "relay_rrep (Suc n) m = Option.bind (with_incremented_hop_count m) (relay_rrep n)"

lemma relay_rreq_iff:
  "relay_rreq n m = Some m' \<longleftrightarrow> n \<le> unat (rreq_hop_limit m) \<and> m' = m\<lparr>rreq_hop_limit := rreq_hop_limit m - of_nat n\<rparr>"
proof (induction n arbitrary: m)
  case (Suc n)
  show ?case
  proof (cases "rreq_hop_limit m = 0")
    case False
    then have "unat (rreq_hop_limit m - 1) = unat (rreq_hop_limit m) - 1" "0 < unat (rreq_hop_limit m)"
      by (simp_all add: unat_minus_one unat_gt_0)
    then show ?thesis using False by (auto simp: with_decremented_hop_limit_def Suc.IH diff_diff_eq)
  qed (simp add: with_decremented_hop_limit_def)
qed auto

lemma relay_rrep_iff:
  "relay_rrep n m = Some m' \<longleftrightarrow>
     (n = 0 \<or> unat (rrep_hop_count m) + n \<le> 15) \<and> m' = m\<lparr>rrep_hop_count := rrep_hop_count m + of_nat n\<rparr>"
proof (induction n arbitrary: m)
  case (Suc n)
  show ?case
  proof (cases "rrep_hop_count m \<ge> 15")
    case False
    then have "unat (rrep_hop_count m + 1) = unat (rrep_hop_count m) + 1" "unat (rrep_hop_count m) < 15"
      by (simp_all add: word_le_nat_alt unat_add_no_overflow)
    then show ?thesis using False by (auto simp: with_incremented_hop_count_def loadng_consts Suc.IH add.assoc)
  next
    case True
    then show ?thesis by (auto simp: with_incremented_hop_count_def loadng_consts word_le_nat_alt)
  qed
qed auto

text \<open>
  C37. The flood of a request is bounded: a request that was accepted from the wire can be relayed
  at most 15 times, exactly as often as its hop limit says, and a reply can be relayed only
  while its hop count stays at most 15; every relayed message is again a valid one.
\<close>

theorem loadng_hops_bounded:
  assumes "from_icmpv6 c1 b1 = Inr (MRreq q)" and "from_icmpv6 c2 b2 = Inr (MRrep p)"
  shows "(relay_rreq n q \<noteq> None \<longleftrightarrow> n \<le> unat (rreq_hop_limit q)) \<and> unat (rreq_hop_limit q) \<le> 15
    \<and> (relay_rrep n p \<noteq> None \<longleftrightarrow> unat (rrep_hop_count p) + n \<le> 15)
    \<and> pred_option rreq_valid (relay_rreq n q) \<and> pred_option rrep_valid (relay_rrep n p)"
proof -
  have q: "rreq_valid q" and p: "rrep_valid p"
    using assms by (simp_all add: from_icmpv6_iff)
  have bounds: "unat (rreq_hop_limit q) \<le> 15" "unat (rrep_hop_count p) \<le> 15"
    using q p by (simp_all add: rreq_valid_def rrep_valid_def word_le_nat_alt)
  have "rreq_valid m" if "relay_rreq n q = Some m" for m
  proof -
    have "unat (rreq_hop_limit q - of_nat n) \<le> 15"
      using that bounds(1) by (simp add: relay_rreq_iff unat_sub_if' unat_of_nat_small)
    then show ?thesis using that q by (simp add: relay_rreq_iff rreq_valid_def word_le_nat_alt)
  qed
  moreover have "rrep_valid m" if "relay_rrep n p = Some m" for m
  proof -
    have "unat (rrep_hop_count p + of_nat n) \<le> 15"
      using that bounds(2) by (auto simp: relay_rrep_iff unat_of_nat_small unat_add_no_overflow)
    then show ?thesis using that p by (simp add: relay_rrep_iff rrep_valid_def word_le_nat_alt)
  qed
  ultimately show ?thesis
    using bounds relay_rreq_iff relay_rrep_iff by (auto simp: option.pred_set)
qed

section \<open>The expanding-ring search\<close>

text \<open>Each step takes a discovery in the state its Rust type demands and may send requests.\<close>

inductive discovery_step :: "route_discovery \<Rightarrow> rreq list \<Rightarrow> route_discovery \<Rightarrow> bool" where
  start: "rd_state d = DIdle \<Longrightarrow> discovery_start d = Some (d', m) \<Longrightarrow> discovery_step d [m] d'"
| advance: "rd_state d = DSearching \<Longrightarrow> advance_ring d = Some (Inr (d', m)) \<Longrightarrow> discovery_step d [m] d'"
| exhausted: "rd_state d = DSearching \<Longrightarrow> advance_ring d = Some (Inl d') \<Longrightarrow> discovery_step d [] d'"
| fail: "rd_state d = DSearching \<Longrightarrow> discovery_step d [] (discovery_fail d)"
| reply: "rd_state d = DSearching \<Longrightarrow> receive_rrep d m = Inr d' \<Longrightarrow> discovery_step d [] d'"

inductive discovery_run :: "route_discovery \<Rightarrow> nat \<Rightarrow> rreq list \<Rightarrow> route_discovery \<Rightarrow> bool" where
  none: "discovery_run d 0 [] d"
| more: "discovery_run d n ms d' \<Longrightarrow> discovery_step d' ms' d'' \<Longrightarrow> discovery_run d (Suc n) (ms @ ms') d''"

inductive_cases discovery_stepE: "discovery_step d ms d'"

definition ring_requests :: "ipv6_addr \<Rightarrow> ipv6_addr \<Rightarrow> u16 \<Rightarrow> rreq list" where
  "ring_requests orig dest s =
     map (\<lambda>h. \<lparr>rreq_originator = orig, rreq_destination = dest, rreq_seq_num = s, rreq_hop_limit = h, rreq_flags = 0\<rparr>)
       EXPANDING_RING"

text \<open>The steps taken and the requests sent are determined by the state and the ring.\<close>

definition discovery_inv :: "ipv6_addr \<Rightarrow> ipv6_addr \<Rightarrow> u16 \<Rightarrow> route_discovery \<Rightarrow> nat \<Rightarrow> rreq list \<Rightarrow> bool" where
  "discovery_inv orig dest s d n ms \<longleftrightarrow>
     rd_originator d = orig \<and> rd_destination d = dest \<and> rd_seq_num d = s \<and> rd_ring_index d < 3 \<and>
     ms = take (if rd_state d = DIdle then 0 else rd_ring_index d + 1) (ring_requests orig dest s) \<and>
     n = (case rd_state d of DIdle \<Rightarrow> 0 | DSearching \<Rightarrow> rd_ring_index d + 1 | _ \<Rightarrow> rd_ring_index d + 2)"

lemma discovery_step_inv:
  assumes "discovery_step d ms' d'" and "discovery_inv orig dest s d n ms"
  shows "discovery_inv orig dest s d' (Suc n) (ms @ ms') \<and> can_transition_to (rd_state d) (rd_state d')"
proof -
  consider "rd_ring_index d = 0" | "rd_ring_index d = 1" | "rd_ring_index d = 2"
    using assms(2) unfolding discovery_inv_def by linarith
  then show ?thesis
    using assms by cases (auto elim!: discovery_stepE simp: discovery_inv_def discovery_start_def discovery_rreq_def
      advance_ring_def discovery_fail_def receive_rrep_def ring_requests_def EXPANDING_RING_def split: if_splits)
qed

lemma discovery_run_inv:
  "discovery_run d n ms d' \<Longrightarrow> d = discovery_new orig dest s \<Longrightarrow> discovery_inv orig dest s d' n ms"
proof (induction rule: discovery_run.induct)
  case (none d)
  then show ?case by (simp add: discovery_inv_def discovery_new_def)
next
  case (more d n ms d' ms' d'')
  then show ?case using discovery_step_inv by blast
qed

lemma searching_advance:
  assumes "discovery_inv orig dest s d n ms" and "rd_state d = DSearching"
  shows "\<exists>r. advance_ring d = Some r \<and> (isl r \<longleftrightarrow> length ms = 3)"
proof -
  consider "rd_ring_index d = 0" | "rd_ring_index d = 1" | "rd_ring_index d = 2"
    using assms(1) unfolding discovery_inv_def by linarith
  then show ?thesis
    using assms by cases (auto simp: discovery_inv_def advance_ring_def discovery_rreq_def ring_requests_def EXPANDING_RING_def)
qed

text \<open>
  Route discovery ends: a discovery takes at most four steps in all; the requests it sends
  are those for hop limits 4, 8 and 15, in this order; advancing the ring never indexes outside
  the table, and gives up exactly after the third request; every step is a transition that the
  dynamic state machine allows, so nothing follows a reply or a failure.
\<close>

theorem discovery_expanding_ring:
  assumes "discovery_run (discovery_new orig dest s) n ms d"
  shows "n \<le> 4 \<and> ms = take (length ms) (ring_requests orig dest s)
    \<and> (rd_state d = DIdle \<longrightarrow> discovery_start d \<noteq> None)
    \<and> (rd_state d = DSearching \<longrightarrow> (\<exists>r. advance_ring d = Some r \<and> (isl r \<longleftrightarrow> length ms = 3)))
    \<and> (\<forall>ms' d'. discovery_step d ms' d' \<longrightarrow> can_transition_to (rd_state d) (rd_state d'))"
proof -
  note iv = discovery_run_inv [OF assms refl]
  have "n \<le> 4"
    using iv by (auto simp: discovery_inv_def split: route_discovery_state.splits)
  moreover have "ms = take (length ms) (ring_requests orig dest s)"
    using iv unfolding discovery_inv_def by (metis append_eq_conv_conj append_take_drop_id)
  moreover have "discovery_start d \<noteq> None"
    by (simp add: discovery_start_def discovery_rreq_def EXPANDING_RING_def)
  ultimately show ?thesis
    using iv searching_advance discovery_step_inv by blast
qed

section \<open>Sample messages\<close>

definition sample_rreq :: rreq where
  "sample_rreq = \<lparr>rreq_originator = replicate 16 1, rreq_destination = replicate 16 2, rreq_seq_num = 0x1234,
     rreq_hop_limit = 4, rreq_flags = 0\<rparr>"

definition sample_rrep :: rrep where
  "sample_rrep = \<lparr>rrep_originator = replicate 16 2, rrep_destination = replicate 16 1, rrep_seq_num = 0x1234,
     rrep_hop_count = 3, rrep_flags = 1\<rparr>"

lemma sample_rreq_written:
  "message_valid (MRreq sample_rreq)"
  "message_write_to (MRreq sample_rreq) (replicate 40 9) =
     Inr ([0, 4, 0x12, 0x34] @ replicate 16 1 @ replicate 16 2 @ replicate 4 9, 36)"
  by code_simp+

theorem loadng_write_read_witness:
  "from_icmpv6 0 (take 36 ([0, 4, 0x12, 0x34] @ replicate 16 1 @ replicate 16 2 @ replicate 4 9)) = Inr (MRreq sample_rreq)"
  using loadng_write_read [OF sample_rreq_written] by simp

lemma sample_parsed:
  "from_icmpv6 0 (rreq_wire sample_rreq) = Inr (MRreq sample_rreq)"
  "from_icmpv6 1 (rrep_wire sample_rrep) = Inr (MRrep sample_rrep)"
  by code_simp+

theorem loadng_hops_bounded_witness:
  "relay_rreq 4 sample_rreq \<noteq> None \<and> relay_rreq 5 sample_rreq = None
   \<and> relay_rrep 12 sample_rrep \<noteq> None \<and> relay_rrep 13 sample_rrep = None"
  using loadng_hops_bounded [OF sample_parsed, of 4] loadng_hops_bounded [OF sample_parsed, of 5]
    loadng_hops_bounded [OF sample_parsed, of 12] loadng_hops_bounded [OF sample_parsed, of 13]
  by (simp add: sample_rreq_def sample_rrep_def)

theorem discovery_expanding_ring_witness:
  "\<exists>d m. discovery_run (discovery_new [1] [2] 7) 1 [m] d \<and> rd_state d = DSearching \<and> rreq_hop_limit m = 4
     \<and> (\<exists>d' m'. advance_ring d = Some (Inr (d', m')))"
proof -
  let ?d = "\<lparr>rd_originator = [1], rd_destination = [2], rd_seq_num = 7, rd_ring_index = 0, rd_state = DSearching\<rparr>"
  let ?m = "\<lparr>rreq_originator = [1], rreq_destination = [2], rreq_seq_num = 7, rreq_hop_limit = 4, rreq_flags = 0\<rparr>"
  have "discovery_step (discovery_new [1] [2] 7) [?m] ?d"
    by (rule discovery_step.start) (simp_all add: discovery_new_def discovery_start_def discovery_rreq_def EXPANDING_RING_def)
  then have run: "discovery_run (discovery_new [1] [2] 7) 1 [?m] ?d"
    using discovery_run.more [OF discovery_run.none] by fastforce
  obtain r where "advance_ring ?d = Some r" "\<not> isl r"
    using discovery_expanding_ring [OF run] by auto
  then have "\<exists>d' m'. advance_ring ?d = Some (Inr (d', m'))"
    by (cases r) auto
  then show ?thesis
    using run by - (rule exI [of _ ?d], rule exI [of _ ?m], simp)
qed

end
