(* ===== verification/Gradient_Table.thy ===== *)
theory Gradient_Table
  imports Serial_Numbers Addressing
begin

text \<open>
  The gradient (routing) table of \<open>lichen-node/src/gradient.rs\<close>: a bounded table of next hops,
  filled by every routing method, that keeps its entries in least-recently-used order. The
  coordinates of an entry are \<open>f32\<close> pairs in the code; the table only stores them, so their
  type is a parameter \<open>'c\<close> here, with the conversion from fixed point as an argument of
  \<open>coords_from_app_data\<close>. The abstract specification is a map with a time of last use.
\<close>

definition MAX_GRADIENT_ENTRIES :: nat where "MAX_GRADIENT_ENTRIES = 64"
definition GRADIENT_TIMEOUT_MS :: u32 where "GRADIENT_TIMEOUT_MS = 600000"
definition DATA_GRADIENT_TIMEOUT_MS :: u32 where "DATA_GRADIENT_TIMEOUT_MS = 60000"

datatype gradient_source = GAnnounce | GRrep | GRpl | GData

fun source_priority :: "gradient_source \<Rightarrow> u8" where
  "source_priority GData = 0"
| "source_priority GAnnounce = 1"
| "source_priority GRrep = 1"
| "source_priority GRpl = 1"

text \<open>The first tag byte with eight bytes after it; \<open>mk lat_e7 lon_e7\<close> builds the coordinates.\<close>

definition coords_from_app_data :: "(32 word \<Rightarrow> 32 word \<Rightarrow> 'c) \<Rightarrow> bytes \<Rightarrow> 'c option" where
  "coords_from_app_data mk data =
     map_option (\<lambda>i. mk (of_be (slice (i + 1) (i + 5) data)) (of_be (slice (i + 5) (i + 9) data)))
       (find (\<lambda>i. data ! i = 0x01) [0..<length data - 8])"

record 'c gradient_entry =
  ge_destination :: ipv6_addr
  ge_next_hop :: ipv6_addr
  ge_hop_count :: u8
  ge_seq_num :: u16
  ge_source :: gradient_source
  ge_expires_ms :: u32
  ge_coords :: "'c option"

definition entry_rank :: "'c gradient_entry \<Rightarrow> u8 \<times> u16 \<times> int" where
  "entry_rank e = (source_priority (ge_source e), ge_seq_num e, - int (unat (ge_hop_count e)))"

definition should_replace :: "'c gradient_entry \<Rightarrow> 'c gradient_entry \<Rightarrow> bool" where
  "should_replace self other =
     (let (s_pri, s_seq, s_hops) = entry_rank self;
          (o_pri, o_seq, o_hops) = entry_rank other in
      if s_pri \<noteq> o_pri then s_pri > o_pri
      else case seq_cmp s_seq o_seq of
        OGreater \<Rightarrow> True
      | OLess \<Rightarrow> False
      | OEqual \<Rightarrow> s_hops > o_hops)"

record 'c gradient_table =
  gt_entries :: "'c gradient_entry list"
  gt_max_entries :: nat

definition gradient_new :: "nat \<Rightarrow> 'c gradient_table" where
  "gradient_new n = \<lparr>gt_entries = [], gt_max_entries = n\<rparr>"

definition promote :: "nat \<Rightarrow> 'c gradient_table \<Rightarrow> 'c gradient_table" where
  "promote index t =
     (let es = gt_entries t in
      if index \<noteq> length es - 1 then t\<lparr>gt_entries := vec_remove index es @ [es ! index]\<rparr> else t)"

definition gradient_lookup :: "ipv6_addr \<Rightarrow> u32 \<Rightarrow> 'c gradient_table \<Rightarrow> 'c gradient_table \<times> 'c gradient_entry option" where
  "gradient_lookup dst now t =
     (case position (\<lambda>e. ge_destination e = dst) (gt_entries t) of
        None \<Rightarrow> (t, None)
      | Some index \<Rightarrow>
          if is_expired (ge_expires_ms (gt_entries t ! index)) now then (t, None)
          else let t = promote index t in (t, Some (last (gt_entries t))))"

definition gradient_update :: "'c gradient_entry \<Rightarrow> u32 \<Rightarrow> 'c gradient_table \<Rightarrow> 'c gradient_table \<times> bool" where
  "gradient_update e now t =
     (if gt_max_entries t = 0 then (t, False)
      else case position (\<lambda>x. ge_destination x = ge_destination e) (gt_entries t) of
        Some idx \<Rightarrow>
          let existing = gt_entries t ! idx in
          if is_expired (ge_expires_ms existing) now \<or> should_replace e existing
          then (t\<lparr>gt_entries := vec_remove idx (gt_entries t) @ [e]\<rparr>, True)
          else (t, False)
      | None \<Rightarrow>
          let t = (if length (gt_entries t) \<ge> gt_max_entries t
                   then t\<lparr>gt_entries := vec_remove 0 (gt_entries t)\<rparr> else t)
          in (t\<lparr>gt_entries := gt_entries t @ [e]\<rparr>, True))"

definition gradient_remove :: "ipv6_addr \<Rightarrow> 'c gradient_table \<Rightarrow> 'c gradient_table" where
  "gradient_remove dst t = t\<lparr>gt_entries := filter (\<lambda>e. ge_destination e \<noteq> dst) (gt_entries t)\<rparr>"

definition remove_via :: "ipv6_addr \<Rightarrow> 'c gradient_table \<Rightarrow> 'c gradient_table \<times> ipv6_addr list" where
  "remove_via hop t =
     (t\<lparr>gt_entries := filter (\<lambda>e. ge_next_hop e \<noteq> hop) (gt_entries t)\<rparr>,
      map ge_destination (filter (\<lambda>e. ge_next_hop e = hop) (gt_entries t)))"

definition expire_old :: "u32 \<Rightarrow> 'c gradient_table \<Rightarrow> 'c gradient_table \<times> nat" where
  "expire_old now t =
     (let es = filter (\<lambda>e. \<not> is_expired (ge_expires_ms e) now) (gt_entries t)
      in (t\<lparr>gt_entries := es\<rparr>, length (gt_entries t) - length es))"

section \<open>The order of preference\<close>

lemma should_replace_iff:
  "should_replace a b \<longleftrightarrow>
     source_priority (ge_source b) < source_priority (ge_source a) \<or>
     source_priority (ge_source a) = source_priority (ge_source b) \<and>
       (rfc1982_cmp (ge_seq_num a) (ge_seq_num b) = Some OGreater \<or>
        ge_seq_num a = ge_seq_num b \<and> ge_hop_count a < ge_hop_count b)"
proof -
  have "seq_cmp (ge_seq_num a) (ge_seq_num b) = OEqual \<longleftrightarrow> ge_seq_num a = ge_seq_num b"
    "seq_cmp (ge_seq_num a) (ge_seq_num b) = OGreater \<longleftrightarrow> rfc1982_cmp (ge_seq_num a) (ge_seq_num b) = Some OGreater"
    by (auto simp: seq_cmp_eq simp flip: rfc1982_Equal_iff split: option.splits)
  moreover have "- int (unat (ge_hop_count b)) < - int (unat (ge_hop_count a)) \<longleftrightarrow> ge_hop_count a < ge_hop_count b"
    by (simp add: word_less_def)
  ultimately show ?thesis
    unfolding should_replace_def entry_rank_def Let_def prod.case
    by (cases "seq_cmp (ge_seq_num a) (ge_seq_num b)") (auto simp: not_less)
qed

text \<open>
  C12. Two routes never displace each other in turn: the preference of the table (explicitly
  advertised routes first, then the fresher sequence number by RFC 1982, then fewer hops) is
  irreflexive and asymmetric, and two distinct ranks of the same class are incomparable only
  at the sequence distance that RFC 1982 leaves undefined.
\<close>

theorem gradient_no_flap:
  "\<not> should_replace a a \<and> \<not> (should_replace a b \<and> should_replace b a)
   \<and> (should_replace a b \<or> should_replace b a \<or> entry_rank a = entry_rank b
       \<or> rfc1982_cmp (ge_seq_num a) (ge_seq_num b) = None)"
proof -
  have flip: "rfc1982_cmp (ge_seq_num a) (ge_seq_num b) = Some OGreater \<Longrightarrow>
      rfc1982_cmp (ge_seq_num b) (ge_seq_num a) \<noteq> Some OGreater"
    by (simp add: rfc1982_flip)
  have "rfc1982_cmp x x \<noteq> Some OGreater" for x :: u16
    by (simp add: rfc1982_cmp_def)
  moreover have "rfc1982_cmp (ge_seq_num a) (ge_seq_num b) = None \<or> ge_seq_num a = ge_seq_num b \<or>
      rfc1982_cmp (ge_seq_num a) (ge_seq_num b) = Some OGreater \<or> rfc1982_cmp (ge_seq_num b) (ge_seq_num a) = Some OGreater"
    using rfc1982_flip [of "ge_seq_num b" "ge_seq_num a"] rfc1982_Equal_iff [of "ge_seq_num a" "ge_seq_num b"]
    by (metis option.exhaust rordering.exhaust)
  moreover have "source_priority (ge_source a) < source_priority (ge_source b) \<or>
      source_priority (ge_source a) = source_priority (ge_source b) \<or>
      source_priority (ge_source b) < source_priority (ge_source a)" (is "?lt \<or> ?eq \<or> ?gt")
    by (rule less_linear)
  moreover have "ge_hop_count a < ge_hop_count b \<or> ge_hop_count a = ge_hop_count b \<or> ge_hop_count b < ge_hop_count a"
    by (rule less_linear)
  ultimately show ?thesis
    using flip unfolding should_replace_iff entry_rank_def prod.inject
    by (metis (no_types, opaque_lifting) less_asym less_irrefl)
qed

section \<open>The least-recently-used specification\<close>

record 'c lru_spec =
  ls_map :: "ipv6_addr \<rightharpoonup> 'c gradient_entry"
  ls_used :: "ipv6_addr \<Rightarrow> nat"
  ls_clock :: nat

definition ls_new :: "'c lru_spec" where
  "ls_new = \<lparr>ls_map = Map.empty, ls_used = (\<lambda>_. 0), ls_clock = 0\<rparr>"

definition ls_touch :: "ipv6_addr \<Rightarrow> 'c lru_spec \<Rightarrow> 'c lru_spec" where
  "ls_touch k s = s\<lparr>ls_used := (ls_used s)(k := ls_clock s), ls_clock := Suc (ls_clock s)\<rparr>"

definition ls_store :: "'c gradient_entry \<Rightarrow> 'c lru_spec \<Rightarrow> 'c lru_spec" where
  "ls_store e s = ls_touch (ge_destination e) (s\<lparr>ls_map := (ls_map s)(ge_destination e \<mapsto> e)\<rparr>)"

text \<open>Eviction drops the destination than which no other was used less recently.\<close>

definition ls_evict :: "'c lru_spec \<Rightarrow> 'c lru_spec" where
  "ls_evict s = s\<lparr>ls_map := ls_map s |` {k. \<exists>k'\<in>dom (ls_map s). ls_used s k' < ls_used s k}\<rparr>"

definition ls_keep :: "('c gradient_entry \<Rightarrow> bool) \<Rightarrow> 'c lru_spec \<Rightarrow> 'c lru_spec" where
  "ls_keep P s = s\<lparr>ls_map := (\<lambda>k. case ls_map s k of Some e \<Rightarrow> if P e then Some e else None | None \<Rightarrow> None)\<rparr>"

datatype 'c gt_event =
    GtLookup ipv6_addr u32
  | GtUpdate "'c gradient_entry" u32
  | GtRemove ipv6_addr
  | GtRemoveVia ipv6_addr
  | GtExpire u32

datatype 'c gt_out = OutEntry "'c gradient_entry option" | OutBool bool | OutUnit | OutDests "ipv6_addr set" | OutCount nat

fun gt_step :: "'c gradient_table \<Rightarrow> 'c gt_event \<Rightarrow> 'c gradient_table \<times> 'c gt_out" where
  "gt_step t (GtLookup dst now) = apsnd OutEntry (gradient_lookup dst now t)"
| "gt_step t (GtUpdate e now) = apsnd OutBool (gradient_update e now t)"
| "gt_step t (GtRemove dst) = (gradient_remove dst t, OutUnit)"
| "gt_step t (GtRemoveVia hop) = apsnd (\<lambda>ds. OutDests (set ds)) (remove_via hop t)"
| "gt_step t (GtExpire now) = apsnd OutCount (expire_old now t)"

fun ls_step :: "nat \<Rightarrow> 'c lru_spec \<Rightarrow> 'c gt_event \<Rightarrow> 'c lru_spec \<times> 'c gt_out" where
  "ls_step n s (GtLookup dst now) =
     (case ls_map s dst of
        Some e \<Rightarrow> if is_expired (ge_expires_ms e) now then (s, OutEntry None) else (ls_touch dst s, OutEntry (Some e))
      | None \<Rightarrow> (s, OutEntry None))"
| "ls_step n s (GtUpdate e now) =
     (if n = 0 then (s, OutBool False)
      else case ls_map s (ge_destination e) of
        Some x \<Rightarrow> if is_expired (ge_expires_ms x) now \<or> should_replace e x then (ls_store e s, OutBool True)
                  else (s, OutBool False)
      | None \<Rightarrow> (ls_store e (if card (dom (ls_map s)) = n then ls_evict s else s), OutBool True))"
| "ls_step n s (GtRemove dst) = (ls_keep (\<lambda>e. ge_destination e \<noteq> dst) s, OutUnit)"
| "ls_step n s (GtRemoveVia hop) =
     (ls_keep (\<lambda>e. ge_next_hop e \<noteq> hop) s, OutDests {k. \<exists>e. ls_map s k = Some e \<and> ge_next_hop e = hop})"
| "ls_step n s (GtExpire now) =
     (ls_keep (\<lambda>e. \<not> is_expired (ge_expires_ms e) now) s,
      OutCount (card {k. \<exists>e. ls_map s k = Some e \<and> is_expired (ge_expires_ms e) now}))"

text \<open>The refinement relation: the list is the map, in the order of last use.\<close>

definition entry_map :: "'c gradient_entry list \<Rightarrow> ipv6_addr \<rightharpoonup> 'c gradient_entry" where
  "entry_map es = map_of (map (\<lambda>e. (ge_destination e, e)) es)"

definition lru_rel :: "nat \<Rightarrow> 'c gradient_table \<Rightarrow> 'c lru_spec \<Rightarrow> bool" where
  "lru_rel n t s \<longleftrightarrow> gt_max_entries t = n \<and> length (gt_entries t) \<le> n
     \<and> entry_map (gt_entries t) = ls_map s
     \<and> sorted_wrt (\<lambda>a b. ls_used s (ge_destination a) < ls_used s (ge_destination b)) (gt_entries t)
     \<and> (\<forall>e\<in>set (gt_entries t). ls_used s (ge_destination e) < ls_clock s)"

lemma map_eqI_Some: "(\<And>k v. m k = Some v \<longleftrightarrow> m' k = Some v) \<Longrightarrow> m = m'"
  by (metis ext option.exhaust)

lemma sorted_wrt_distinct: "sorted_wrt (\<lambda>a b. (f (g a) :: nat) < f (g b)) xs \<Longrightarrow> distinct (map g xs)"
  by (induction xs) force+

lemma lru_rel_distinct: "lru_rel n t s \<Longrightarrow> distinct (map ge_destination (gt_entries t))"
  unfolding lru_rel_def by (blast intro: sorted_wrt_distinct [of "ls_used s"])

lemma entry_map_Some_iff:
  "distinct (map ge_destination es) \<Longrightarrow> entry_map es k = Some e \<longleftrightarrow> e \<in> set es \<and> ge_destination e = k"
  unfolding entry_map_def by (subst map_of_eq_Some_iff) (auto simp: comp_def)

lemma entry_map_append_one:
  assumes "distinct (map ge_destination (es @ [e]))"
  shows "entry_map (es @ [e]) = (entry_map es)(ge_destination e \<mapsto> e)"
proof (rule map_eqI_Some)
  fix k v
  show "entry_map (es @ [e]) k = Some v \<longleftrightarrow> ((entry_map es)(ge_destination e \<mapsto> e)) k = Some v"
    using assms entry_map_Some_iff [OF assms, of k v] entry_map_Some_iff [of es k v] by (auto simp: image_iff)
qed

lemma lru_rel_get:
  assumes "lru_rel n t s"
  shows "ls_map s k = Some e \<longleftrightarrow> e \<in> set (gt_entries t) \<and> ge_destination e = k"
  using assms entry_map_Some_iff [OF lru_rel_distinct [OF assms]] by (simp add: lru_rel_def)

lemma ls_keep_Some_iff: "ls_map (ls_keep P s) k = Some e \<longleftrightarrow> ls_map s k = Some e \<and> P e"
  by (auto simp: ls_keep_def split: option.splits)

lemma lru_rel_keep:
  assumes "lru_rel n t s"
  shows "lru_rel n (t\<lparr>gt_entries := filter P (gt_entries t)\<rparr>) (ls_keep P s)"
proof -
  have d: "distinct (map ge_destination (filter P (gt_entries t)))"
    using lru_rel_distinct [OF assms] by (simp add: distinct_map_filter)
  have "entry_map (filter P (gt_entries t)) = ls_map (ls_keep P s)"
    using entry_map_Some_iff [OF d] lru_rel_get [OF assms]
    by (intro map_eqI_Some) (auto simp: ls_keep_Some_iff)
  then show ?thesis
    using assms by (auto simp: lru_rel_def ls_keep_def sorted_wrt_filter le_trans [OF length_filter_le])
qed

lemma lru_rel_append:
  assumes "lru_rel n t s" and "ge_destination e \<notin> ge_destination ` set (gt_entries t)" and "length (gt_entries t) < n"
  shows "lru_rel n (t\<lparr>gt_entries := gt_entries t @ [e]\<rparr>) (ls_store e s)"
proof -
  have "sorted_wrt (\<lambda>a b. ls_used (ls_store e s) (ge_destination a) < ls_used (ls_store e s) (ge_destination b)) (gt_entries t @ [e])"
    using assms(1,2) unfolding lru_rel_def
    by (auto simp: sorted_wrt_append ls_store_def ls_touch_def image_iff elim!: sorted_wrt_mono_rel [rotated])
  moreover have "entry_map (gt_entries t @ [e]) = (entry_map (gt_entries t))(ge_destination e \<mapsto> e)"
    using lru_rel_distinct [OF assms(1)] assms(2) by (intro entry_map_append_one) simp
  ultimately show ?thesis
    using assms by (auto simp: lru_rel_def ls_store_def ls_touch_def image_iff less_SucI)
qed

lemma lru_rel_move:
  assumes "lru_rel n t s" and es: "gt_entries t = ys @ x # zs" and "ge_destination e = ge_destination x"
  shows "lru_rel n (t\<lparr>gt_entries := ys @ zs @ [e]\<rparr>) (ls_store e s)"
proof -
  let ?P = "\<lambda>y. ge_destination y \<noteq> ge_destination x"
  have "filter ?P ys = ys" "filter ?P zs = zs"
    using lru_rel_distinct [OF assms(1)] es by (auto simp: filter_id_conv image_iff)
  then have f: "filter ?P (gt_entries t) = ys @ zs" using es by simp
  have k: "lru_rel n (t\<lparr>gt_entries := ys @ zs\<rparr>) (ls_keep ?P s)"
    using lru_rel_keep [OF assms(1), of ?P] unfolding f .
  have "ge_destination e \<notin> ge_destination ` set (ys @ zs)" "length (ys @ zs) < n"
    using lru_rel_distinct [OF assms(1)] assms by (auto simp: lru_rel_def)
  then have "lru_rel n (t\<lparr>gt_entries := ys @ zs @ [e]\<rparr>) (ls_store e (ls_keep ?P s))"
    using lru_rel_append [OF k, of e] by simp
  moreover have "(ls_map (ls_keep ?P s))(ge_destination e \<mapsto> e) = (ls_map s)(ge_destination e \<mapsto> e)"
    using lru_rel_get [OF assms(1)] assms(3) by (intro map_eqI_Some) (auto simp: ls_keep_Some_iff)
  then have "ls_store e (ls_keep ?P s) = ls_store e s"
    by (simp add: ls_store_def ls_touch_def ls_keep_def)
  ultimately show ?thesis by simp
qed

lemma lru_rel_evict:
  assumes "lru_rel n t s" and es: "gt_entries t = x # xs"
  shows "lru_rel n (t\<lparr>gt_entries := xs\<rparr>) (ls_evict s)"
proof -
  have d: "distinct (map ge_destination xs)" "ge_destination x \<notin> ge_destination ` set xs"
    using lru_rel_distinct [OF assms(1)] es by auto
  have used: "\<forall>y\<in>set xs. ls_used s (ge_destination x) < ls_used s (ge_destination y)"
    using assms by (simp add: lru_rel_def)
  have dm: "dom (ls_map s) = ge_destination ` set (x # xs)"
    using lru_rel_get [OF assms(1)] es by (auto simp: dom_def image_iff)
  have "entry_map xs k = Some e \<longleftrightarrow> ls_map (ls_evict s) k = Some e" for k e
    using entry_map_Some_iff [OF d(1), of k e] lru_rel_get [OF assms(1), of k e] es dm used d(2)
    by (auto simp: ls_evict_def restrict_map_def image_iff)
  then have "entry_map xs = ls_map (ls_evict s)" by (metis ext option.exhaust)
  then show ?thesis
    using assms by (auto simp: lru_rel_def ls_evict_def)
qed

lemma lookup_split:
  assumes "gt_entries t = ys @ x # zs" and "\<forall>y\<in>set ys. ge_destination y \<noteq> dst" and "ge_destination x = dst"
  shows "gradient_lookup dst now t =
    (if is_expired (ge_expires_ms x) now then (t, None) else (t\<lparr>gt_entries := ys @ zs @ [x]\<rparr>, Some x))"
proof -
  have "position (\<lambda>e. ge_destination e = dst) (ys @ x # zs) = Some (length ys)"
    using assms(2,3) by (induction ys) auto
  then show ?thesis
    using assms(1) by (cases zs) (auto simp: gradient_lookup_def promote_def)
qed

lemma lookup_absent:
  "\<forall>y\<in>set (gt_entries t). ge_destination y \<noteq> dst \<Longrightarrow> gradient_lookup dst now t = (t, None)"
  by (simp add: gradient_lookup_def position_None_iff [THEN iffD2])

lemma update_split:
  assumes "gt_entries t = ys @ x # zs" and "\<forall>y\<in>set ys. ge_destination y \<noteq> ge_destination x"
    and "ge_destination e = ge_destination x" and "gt_max_entries t \<noteq> 0"
  shows "gradient_update e now t =
    (if is_expired (ge_expires_ms x) now \<or> should_replace e x then (t\<lparr>gt_entries := ys @ zs @ [e]\<rparr>, True) else (t, False))"
proof -
  have "position (\<lambda>y. ge_destination y = ge_destination e) (ys @ x # zs) = Some (length ys)"
    using assms(2,3) by (induction ys) auto
  then show ?thesis
    using assms(1,4) by (auto simp: gradient_update_def Let_def)
qed

lemma update_absent:
  "\<forall>y\<in>set (gt_entries t). ge_destination y \<noteq> ge_destination e \<Longrightarrow> gt_max_entries t \<noteq> 0 \<Longrightarrow>
   gradient_update e now t =
     (t\<lparr>gt_entries := (if gt_max_entries t \<le> length (gt_entries t) then vec_remove 0 (gt_entries t) else gt_entries t) @ [e]\<rparr>, True)"
  by (simp add: gradient_update_def position_None_iff [THEN iffD2])

lemma entries_cases:
  assumes "lru_rel n t s"
  obtains (absent) "\<forall>y\<in>set (gt_entries t). ge_destination y \<noteq> dst" and "ls_map s dst = None"
  | (present) ys x zs where "gt_entries t = ys @ x # zs" and "\<forall>y\<in>set ys. ge_destination y \<noteq> dst"
      and "ge_destination x = dst" and "ls_map s dst = Some x"
proof (cases "position (\<lambda>e. ge_destination e = dst) (gt_entries t)")
  case None
  then have "\<forall>y\<in>set (gt_entries t). ge_destination y \<noteq> dst" by (simp add: position_None_iff)
  moreover from this have "ls_map s dst = None"
    using lru_rel_get [OF assms, of dst] by (cases "ls_map s dst") auto
  ultimately show thesis by (rule absent)
next
  case (Some i)
  then obtain ys x zs where es: "gt_entries t = ys @ x # zs" "ge_destination x = dst" "\<forall>y\<in>set ys. ge_destination y \<noteq> dst"
    by (rule position_split)
  moreover have "ls_map s dst = Some x"
    using lru_rel_get [OF assms, of dst x] es by simp
  ultimately show thesis by (intro present)
qed

lemma lru_rel_card: "lru_rel n t s \<Longrightarrow> card {k. \<exists>e. ls_map s k = Some e \<and> P e} = length (filter P (gt_entries t))"
proof -
  assume r: "lru_rel n t s"
  have "{k. \<exists>e. ls_map s k = Some e \<and> P e} = ge_destination ` set (filter P (gt_entries t))"
    using lru_rel_get [OF r] by auto
  moreover have "inj_on ge_destination (set (filter P (gt_entries t)))" "distinct (filter P (gt_entries t))"
    using lru_rel_distinct [OF r] by (auto simp: distinct_map intro: inj_on_subset)
  ultimately show ?thesis by (simp only: card_image distinct_card)
qed

lemma gt_step_refines:
  assumes r: "lru_rel n t s"
  shows "lru_rel n (fst (gt_step t ev)) (fst (ls_step n s ev)) \<and> snd (gt_step t ev) = snd (ls_step n s ev)"
proof (cases ev)
  case (GtLookup dst now)
  from r show ?thesis
  proof (cases rule: entries_cases [where dst = dst])
    case absent
    then show ?thesis using GtLookup r by (simp add: lookup_absent)
  next
    case (present ys x zs)
    have "ls_touch dst s = ls_store x s"
      using present(3,4) by (simp add: ls_store_def fun_upd_idem)
    then show ?thesis
      using GtLookup r present lru_rel_move [OF r present(1) refl] by (simp add: lookup_split)
  qed
next
  case (GtUpdate e now)
  show ?thesis
  proof (cases "n = 0")
    case True
    then have "gt_max_entries t = 0" using r by (simp add: lru_rel_def)
    then show ?thesis using GtUpdate r True by (simp add: gradient_update_def)
  next
    case False
    then have n: "gt_max_entries t \<noteq> 0" using r by (simp add: lru_rel_def)
    from r show ?thesis
    proof (cases rule: entries_cases [where dst = "ge_destination e"])
      case absent
      have c: "card (dom (ls_map s)) = length (gt_entries t)" "length (gt_entries t) \<le> n" "gt_max_entries t = n"
        using lru_rel_card [OF r, of "\<lambda>_. True"] r by (simp_all add: dom_def lru_rel_def)
      show ?thesis
      proof (cases "length (gt_entries t) = n")
        case True
        then obtain x xs where es: "gt_entries t = x # xs" using False by (cases "gt_entries t") auto
        then have "ge_destination e \<notin> ge_destination ` set xs" "length xs < n"
          using absent(1) True by auto
        then show ?thesis
          using GtUpdate absent n False True c es lru_rel_append [OF lru_rel_evict [OF r es], of e]
          by (simp add: update_absent [OF absent(1) n])
      next
        case False
        then show ?thesis
          using GtUpdate absent n \<open>n \<noteq> 0\<close> c lru_rel_append [OF r, of e] by (force simp: update_absent [OF absent(1) n])
      qed
    next
      case (present ys x zs)
      then show ?thesis
        using GtUpdate n False r lru_rel_move [OF r present(1), of e] by (simp add: update_split)
    qed
  qed
next
  case (GtRemove dst)
  then show ?thesis using lru_rel_keep [OF r] by (simp add: gradient_remove_def)
next
  case (GtRemoveVia hop)
  then show ?thesis
    using lru_rel_keep [OF r] lru_rel_get [OF r] by (auto simp: remove_via_def)
next
  case (GtExpire now)
  have "length (gt_entries t) - length (filter (\<lambda>e. \<not> is_expired (ge_expires_ms e) now) (gt_entries t)) =
      length (filter (\<lambda>e. is_expired (ge_expires_ms e) now) (gt_entries t))"
    using sum_length_filter_compl [of "\<lambda>e. is_expired (ge_expires_ms e) now" "gt_entries t"] by linarith
  then show ?thesis
    using GtExpire lru_rel_keep [OF r] lru_rel_card [OF r] by (simp add: expire_old_def)
qed

interpretation gradient_lru: forward_simulation gt_step "ls_step n" "lru_rel n" for n
  by unfold_locales (rule gt_step_refines)

lemma lru_rel_new: "lru_rel n (gradient_new n) ls_new"
  by (simp add: lru_rel_def gradient_new_def ls_new_def entry_map_def)


end
