(* ===== verification/Hybrid_Router.thy ===== *)
theory Hybrid_Router
  imports Loadng Gradient_Table
begin

text \<open>
  The routing decision engine of \<open>lichen-node/src/hybrid.rs\<close>: classification of destinations,
  the decision for a packet, packets that wait for a route, and LOADng discoveries, over the
  gradient table and the discovery machine. Distances between coordinates are computed in
  \<open>f32\<close>; the router only compares them, so the validity check, the distance and the comparison
  are the operations of a record \<open>geo_ops\<close>, an argument of the functions that use them.
\<close>

unbundle bit_operations_syntax

datatype address_class = LinkLocal | MeshLocal | External

datatype route_decision = RForward | RQueue | RDrop | RDeliverLocal

record route_result =
  rr_decision :: route_decision
  rr_next_hop :: "ipv6_addr option"

definition rr_forward :: "ipv6_addr \<Rightarrow> route_result" where
  "rr_forward hop = \<lparr>rr_decision = RForward, rr_next_hop = Some hop\<rparr>"

definition rr_queue :: route_result where
  "rr_queue = \<lparr>rr_decision = RQueue, rr_next_hop = None\<rparr>"

definition rr_drop :: route_result where
  "rr_drop = \<lparr>rr_decision = RDrop, rr_next_hop = None\<rparr>"

definition rr_deliver_local :: route_result where
  "rr_deliver_local = \<lparr>rr_decision = RDeliverLocal, rr_next_hop = None\<rparr>"

record pending_packet =
  pp_data :: bytes
  pp_destination :: ipv6_addr
  pp_queued_at_ms :: u32
  pp_priority :: u8

record active_discovery =
  ad_destination :: ipv6_addr
  ad_discovery :: route_discovery
  ad_sent_at_ms :: u32

section \<open>Mesh prefixes\<close>

record mesh_prefix =
  mp_prefix :: ipv6_addr
  mp_prefix_len :: u8

definition mesh_prefix_new :: "ipv6_addr \<Rightarrow> u8 \<Rightarrow> mesh_prefix option" where
  "mesh_prefix_new prefix prefix_len =
     (if prefix_len > 128 then None else Some \<lparr>mp_prefix = prefix, mp_prefix_len = prefix_len\<rparr>)"

definition mesh_prefix_contains :: "mesh_prefix \<Rightarrow> ipv6_addr \<Rightarrow> bool" where
  "mesh_prefix_contains p addr =
     (if mp_prefix_len p > 128 then False
      else let full_bytes = unat (mp_prefix_len p div 8); remaining_bits = mp_prefix_len p mod 8 in
      if take full_bytes addr \<noteq> take full_bytes (mp_prefix p) then False
      else if remaining_bits > 0 then
        (let m = push_bit (8 - unat remaining_bits) (- 1 :: u8) in
         (addr ! full_bytes) AND m = (mp_prefix p ! full_bytes) AND m)
      else True)"

section \<open>The router\<close>

record ('c, 'd) geo_ops =
  geo_valid :: "'c \<Rightarrow> bool"
  geo_dist :: "'c \<Rightarrow> 'c \<Rightarrow> 'd"
  geo_less :: "'d \<Rightarrow> 'd \<Rightarrow> bool"

record 'c hybrid_router =
  hr_node_address :: ipv6_addr
  hr_gradient_table :: "'c gradient_table"
  hr_rpl_parent :: "ipv6_addr option"
  hr_rpl_joined :: bool
  hr_mesh_prefixes :: "mesh_prefix list"
  hr_pending_queue :: "(ipv6_addr, pending_packet list) hmap"
  hr_max_pending_per_dest :: nat
  hr_active_discoveries :: "active_discovery list"
  hr_loadng_seq :: u16
  hr_loadng_enabled :: bool
  hr_node_coords :: "'c option"
  hr_neighbor_coords :: "(ipv6_addr, 'c) hmap"

definition hybrid_new :: "ipv6_addr \<Rightarrow> 'c hybrid_router" where
  "hybrid_new addr =
     \<lparr>hr_node_address = addr, hr_gradient_table = gradient_new MAX_GRADIENT_ENTRIES,
      hr_rpl_parent = None, hr_rpl_joined = False, hr_mesh_prefixes = [], hr_pending_queue = [],
      hr_max_pending_per_dest = 3, hr_active_discoveries = [], hr_loadng_seq = 0,
      hr_loadng_enabled = True, hr_node_coords = None, hr_neighbor_coords = []\<rparr>"

definition classify_address :: "'c hybrid_router \<Rightarrow> ipv6_addr \<Rightarrow> address_class" where
  "classify_address r addr =
     (if addr ! 0 = 0xfe \<and> (addr ! 1) AND 0xc0 = 0x80 then LinkLocal
      else if addr ! 0 = 0x02 then MeshLocal
      else if list_ex (\<lambda>p. mesh_prefix_contains p addr) (hr_mesh_prefixes r) then MeshLocal
      else External)"

definition route_external :: "'c hybrid_router \<Rightarrow> route_result" where
  "route_external r =
     (if \<not> hr_rpl_joined r then rr_drop
      else case hr_rpl_parent r of Some parent \<Rightarrow> rr_forward parent | None \<Rightarrow> rr_drop)"

definition gpsr_pick ::
  "('c, 'd) geo_ops \<Rightarrow> 'c \<Rightarrow> ipv6_addr \<times> 'c \<Rightarrow> ipv6_addr option \<times> 'd \<Rightarrow> ipv6_addr option \<times> 'd" where
  "gpsr_pick g dst_coords nc best =
     (if \<not> geo_valid g (snd nc) then best
      else let d = geo_dist g (snd nc) dst_coords in
           if geo_less g d (snd best) then (Some (fst nc), d) else best)"

definition gpsr_forward :: "('c, 'd) geo_ops \<Rightarrow> ipv6_addr \<Rightarrow> 'c hybrid_router \<Rightarrow> ipv6_addr option" where
  "gpsr_forward g dst r =
     (case hr_node_coords r of
        None \<Rightarrow> None
      | Some my_coords \<Rightarrow>
          case Option.bind (find (\<lambda>e. ge_destination e = dst) (gt_entries (hr_gradient_table r))) ge_coords of
            None \<Rightarrow> None
          | Some dst_coords \<Rightarrow>
              if \<not> geo_valid g dst_coords \<or> \<not> geo_valid g my_coords then None
              else fst (fold (gpsr_pick g dst_coords) (hr_neighbor_coords r)
                          (None, geo_dist g my_coords dst_coords)))"

definition route_mesh_local ::
  "('c, 'd) geo_ops \<Rightarrow> ipv6_addr \<Rightarrow> u32 \<Rightarrow> 'c hybrid_router \<Rightarrow> 'c hybrid_router \<times> route_result" where
  "route_mesh_local g dst now r =
     (let (t, found) = gradient_lookup dst now (hr_gradient_table r);
          r = r\<lparr>hr_gradient_table := t\<rparr> in
      case found of
        Some e \<Rightarrow> (r, rr_forward (ge_next_hop e))
      | None \<Rightarrow>
          (case gpsr_forward g dst r of
             Some hop \<Rightarrow> (r, rr_forward hop)
           | None \<Rightarrow>
               if hr_loadng_enabled r then (r, rr_queue)
               else if dst ! 0 = 0x02 then (r, route_external r)
               else (r, rr_drop)))"

definition hr_route ::
  "('c, 'd) geo_ops \<Rightarrow> ipv6_addr \<Rightarrow> u32 \<Rightarrow> 'c hybrid_router \<Rightarrow> 'c hybrid_router \<times> route_result" where
  "hr_route g dst now r =
     (if dst = hr_node_address r then (r, rr_deliver_local)
      else case classify_address r dst of
        LinkLocal \<Rightarrow> (r, rr_forward dst)
      | MeshLocal \<Rightarrow> route_mesh_local g dst now r
      | External \<Rightarrow> (r, route_external r))"

section \<open>Packets waiting for a route\<close>

text \<open>\<open>max_by_key\<close> returns the last of the greatest elements; older packets have greater keys.\<close>

definition pending_key_le :: "pending_packet \<Rightarrow> pending_packet \<Rightarrow> bool" where
  "pending_key_le a b \<longleftrightarrow>
     pp_priority a < pp_priority b \<or> pp_priority a = pp_priority b \<and> pp_queued_at_ms b \<le> pp_queued_at_ms a"

definition evict_index :: "pending_packet list \<Rightarrow> nat option" where
  "evict_index q =
     foldl (\<lambda>best i. case best of
         None \<Rightarrow> Some i
       | Some b \<Rightarrow> if pending_key_le (q ! b) (q ! i) then Some i else Some b) None [0..<length q]"

definition queue_pending :: "bytes \<Rightarrow> ipv6_addr \<Rightarrow> u8 \<Rightarrow> u32 \<Rightarrow> 'c hybrid_router \<Rightarrow> 'c hybrid_router" where
  "queue_pending data dst prio now r =
     (let pending = \<lparr>pp_data = data, pp_destination = dst, pp_queued_at_ms = now, pp_priority = prio\<rparr>;
          queue = (case hm_get (hr_pending_queue r) dst of Some q \<Rightarrow> q | None \<Rightarrow> []) @ [pending];
          queue = (if length queue > hr_max_pending_per_dest r then
                     (case evict_index queue of Some idx \<Rightarrow> vec_remove idx queue | None \<Rightarrow> queue)
                   else queue)
      in r\<lparr>hr_pending_queue := hm_insert dst queue (hr_pending_queue r)\<rparr>)"

definition get_pending :: "ipv6_addr \<Rightarrow> 'c hybrid_router \<Rightarrow> 'c hybrid_router \<times> pending_packet list" where
  "get_pending dst r =
     (r\<lparr>hr_pending_queue := hm_remove dst (hr_pending_queue r)\<rparr>,
      case hm_get (hr_pending_queue r) dst of Some q \<Rightarrow> q | None \<Rightarrow> [])"

definition clear_pending :: "ipv6_addr \<Rightarrow> 'c hybrid_router \<Rightarrow> 'c hybrid_router \<times> nat" where
  "clear_pending dst r =
     (r\<lparr>hr_pending_queue := hm_remove dst (hr_pending_queue r)\<rparr>,
      case hm_get (hr_pending_queue r) dst of Some q \<Rightarrow> length q | None \<Rightarrow> 0)"

definition expire_pending :: "u32 \<Rightarrow> u32 \<Rightarrow> 'c hybrid_router \<Rightarrow> 'c hybrid_router \<times> nat" where
  "expire_pending now timeout r =
     (let fresh = (\<lambda>p. now - pp_queued_at_ms p < timeout);
          kept = map (\<lambda>(k, q). (k, filter fresh q)) (hr_pending_queue r)
      in (r\<lparr>hr_pending_queue := filter (\<lambda>(_, q). q \<noteq> []) kept\<rparr>,
          sum_list (map (\<lambda>(_, q). length q - length (filter fresh q)) (hr_pending_queue r))))"

section \<open>Discovery\<close>

text \<open>The outer \<open>None\<close> would be the panic of an index outside the ring table.\<close>

definition start_discovery :: "ipv6_addr \<Rightarrow> u32 \<Rightarrow> 'c hybrid_router \<Rightarrow> ('c hybrid_router \<times> rreq option) option" where
  "start_discovery dst now r =
     (if list_ex (\<lambda>d. ad_destination d = dst) (hr_active_discoveries r) then Some (r, None)
      else let seq = hr_loadng_seq r;
               r = r\<lparr>hr_loadng_seq := hr_loadng_seq r + 1\<rparr>;
               idle = discovery_new (hr_node_address r) dst seq in
           map_option (\<lambda>(searching, m).
               (r\<lparr>hr_active_discoveries := hr_active_discoveries r @
                    [\<lparr>ad_destination = dst, ad_discovery = searching, ad_sent_at_ms = now\<rparr>]\<rparr>, Some m))
             (discovery_start idle))"

definition on_rrep_received ::
  "ipv6_addr \<Rightarrow> ipv6_addr \<Rightarrow> u8 \<Rightarrow> u16 \<Rightarrow> u32 \<Rightarrow> 'c hybrid_router \<Rightarrow> 'c hybrid_router \<times> pending_packet list" where
  "on_rrep_received dst hop hops seq now r =
     (let entry = \<lparr>ge_destination = dst, ge_next_hop = hop, ge_hop_count = hops, ge_seq_num = seq,
                   ge_source = GRrep, ge_expires_ms = now + GRADIENT_TIMEOUT_MS, ge_coords = None\<rparr>;
          r = r\<lparr>hr_gradient_table := fst (gradient_update entry now (hr_gradient_table r))\<rparr>;
          r = r\<lparr>hr_active_discoveries := filter (\<lambda>d. ad_destination d \<noteq> dst) (hr_active_discoveries r)\<rparr>
      in get_pending dst r)"

definition on_discovery_timeout :: "ipv6_addr \<Rightarrow> u32 \<Rightarrow> 'c hybrid_router \<Rightarrow> ('c hybrid_router \<times> rreq option) option" where
  "on_discovery_timeout dst now r =
     (case position (\<lambda>d. ad_destination d = dst) (hr_active_discoveries r) of
        None \<Rightarrow> Some (r, None)
      | Some idx \<Rightarrow>
          let d = hr_active_discoveries r ! idx;
              r = r\<lparr>hr_active_discoveries := vec_remove idx (hr_active_discoveries r)\<rparr> in
          map_option (\<lambda>res. case res of
              Inr (searching, m) \<Rightarrow>
                (r\<lparr>hr_active_discoveries := hr_active_discoveries r @
                     [\<lparr>ad_destination = ad_destination d, ad_discovery = searching, ad_sent_at_ms = now\<rparr>]\<rparr>, Some m)
            | Inl _ \<Rightarrow> (fst (clear_pending (ad_destination d) r), None))
            (advance_ring (ad_discovery d)))"

definition process_announce ::
  "bytes \<Rightarrow> ipv6_addr \<Rightarrow> u8 \<Rightarrow> u16 \<Rightarrow> 'c option \<Rightarrow> u32 \<Rightarrow> 'c hybrid_router \<Rightarrow> 'c hybrid_router \<times> bool" where
  "process_announce pubkey from hops seq coords now r =
     (let dst = ygg_addr_from_pubkey pubkey;
          entry = \<lparr>ge_destination = dst, ge_next_hop = from, ge_hop_count = hops, ge_seq_num = seq,
                   ge_source = GAnnounce, ge_expires_ms = now + GRADIENT_TIMEOUT_MS, ge_coords = coords\<rparr>;
          (t, changed) = gradient_update entry now (hr_gradient_table r)
      in (r\<lparr>hr_gradient_table := t\<rparr>, changed))"

definition learn_from_data :: "ipv6_addr \<Rightarrow> ipv6_addr \<Rightarrow> u32 \<Rightarrow> 'c hybrid_router \<Rightarrow> 'c hybrid_router" where
  "learn_from_data src from now r =
     (let entry = \<lparr>ge_destination = src, ge_next_hop = from, ge_hop_count = 1, ge_seq_num = 0,
                   ge_source = GData, ge_expires_ms = now + DATA_GRADIENT_TIMEOUT_MS, ge_coords = None\<rparr>
      in r\<lparr>hr_gradient_table := fst (gradient_update entry now (hr_gradient_table r))\<rparr>)"

definition add_mesh_prefix :: "ipv6_addr \<Rightarrow> u8 \<Rightarrow> 'c hybrid_router \<Rightarrow> 'c hybrid_router" where
  "add_mesh_prefix prefix len r =
     (case mesh_prefix_new prefix len of
        Some p \<Rightarrow> r\<lparr>hr_mesh_prefixes := hr_mesh_prefixes r @ [p]\<rparr> | None \<Rightarrow> r)"

definition remove_mesh_prefix :: "ipv6_addr \<Rightarrow> 'c hybrid_router \<Rightarrow> 'c hybrid_router" where
  "remove_mesh_prefix prefix r =
     r\<lparr>hr_mesh_prefixes := filter (\<lambda>p. mp_prefix p \<noteq> prefix) (hr_mesh_prefixes r)\<rparr>"

definition set_rpl_state :: "bool \<Rightarrow> ipv6_addr option \<Rightarrow> 'c hybrid_router \<Rightarrow> 'c hybrid_router" where
  "set_rpl_state joined parent r = r\<lparr>hr_rpl_joined := joined, hr_rpl_parent := parent\<rparr>"

definition set_loadng_enabled :: "bool \<Rightarrow> 'c hybrid_router \<Rightarrow> 'c hybrid_router" where
  "set_loadng_enabled enabled r = r\<lparr>hr_loadng_enabled := enabled\<rparr>"

definition set_node_coords :: "'c \<Rightarrow> 'c hybrid_router \<Rightarrow> 'c hybrid_router" where
  "set_node_coords c r = r\<lparr>hr_node_coords := Some c\<rparr>"

definition update_neighbor_coords :: "ipv6_addr \<Rightarrow> 'c \<Rightarrow> 'c hybrid_router \<Rightarrow> 'c hybrid_router" where
  "update_neighbor_coords n c r = r\<lparr>hr_neighbor_coords := hm_insert n c (hr_neighbor_coords r)\<rparr>"

section \<open>The packet that gives way\<close>

lemma pending_key_le_total: "pending_key_le a b \<or> pending_key_le b a"
  unfolding pending_key_le_def by (metis linear less_linear)

lemma pending_key_le_trans: "pending_key_le a b \<Longrightarrow> pending_key_le b c \<Longrightarrow> pending_key_le a c"
  using less_trans [of "pp_priority a" "pp_priority b" "pp_priority c"]
    order_trans [of "pp_queued_at_ms c" "pp_queued_at_ms b" "pp_queued_at_ms a"]
  unfolding pending_key_le_def by metis

lemma evict_index_spec:
  assumes "q \<noteq> []"
  obtains i where "evict_index q = Some i" and "i < length q" and "\<forall>j<length q. pending_key_le (q ! j) (q ! i)"
proof -
  let ?f = "\<lambda>best i. case best of None \<Rightarrow> Some i | Some b \<Rightarrow> if pending_key_le (q ! b) (q ! i) then Some i else Some b"
  have "n > 0 \<Longrightarrow> \<exists>i<n. foldl ?f None [0..<n] = Some i \<and> (\<forall>j<n. pending_key_le (q ! j) (q ! i))" for n
  proof (induction n)
    case (Suc n)
    show ?case
    proof (cases "n = 0")
      case True
      then show ?thesis using pending_key_le_total by auto
    next
      case False
      then obtain i where i: "i < n" "foldl ?f None [0..<n] = Some i" "\<forall>j<n. pending_key_le (q ! j) (q ! i)"
        using Suc.IH by blast
      define k where "k = (if pending_key_le (q ! i) (q ! n) then n else i)"
      have k: "pending_key_le (q ! i) (q ! k)" "pending_key_le (q ! n) (q ! k)"
        using pending_key_le_total [of "q ! i"] pending_key_le_total [of "q ! n" "q ! n"] by (auto simp: k_def)
      have "\<forall>j<Suc n. pending_key_le (q ! j) (q ! k)"
        using i(3) k pending_key_le_trans by (metis less_Suc_eq)
      then show ?thesis using i(1,2) by (intro exI [of _ k]) (simp add: k_def)
    qed
  qed simp
  from this [of "length q"] show thesis
    using assms that unfolding evict_index_def by blast
qed

text \<open>One element is removed, and none ranks before it.\<close>

lemma queue_after_eviction:
  assumes "Q \<noteq> []"
  obtains ys v zs where "Q = ys @ v # zs" and "\<forall>x\<in>set Q. pending_key_le x v"
    and "(case evict_index Q of Some idx \<Rightarrow> vec_remove idx Q | None \<Rightarrow> Q) = ys @ zs"
proof -
  obtain i where i: "evict_index Q = Some i" "i < length Q" "\<forall>j<length Q. pending_key_le (Q ! j) (Q ! i)"
    using assms by (rule evict_index_spec)
  show thesis
  proof (rule that)
    show "Q = take i Q @ Q ! i # drop (Suc i) Q" using i(2) by (rule id_take_nth_drop)
    show "\<forall>x\<in>set Q. pending_key_le x (Q ! i)" using i(3) by (metis in_set_conv_nth)
    show "(case evict_index Q of Some idx \<Rightarrow> vec_remove idx Q | None \<Rightarrow> Q) = take i Q @ drop (Suc i) Q"
      using i(1) by (simp add: vec_remove_def)
  qed
qed

definition pending_for :: "ipv6_addr \<Rightarrow> 'c hybrid_router \<Rightarrow> pending_packet list" where
  "pending_for dst r = (case hm_get (hr_pending_queue r) dst of Some q \<Rightarrow> q | None \<Rightarrow> [])"

text \<open>What \<open>queue_pending\<close> leaves for the destination.\<close>

definition new_pending :: "bytes \<Rightarrow> ipv6_addr \<Rightarrow> u8 \<Rightarrow> u32 \<Rightarrow> pending_packet" where
  "new_pending data dst prio now =
     \<lparr>pp_data = data, pp_destination = dst, pp_queued_at_ms = now, pp_priority = prio\<rparr>"

lemma queue_pending_eq:
  "queue_pending data dst prio now r =
     (let q = pending_for dst r @ [new_pending data dst prio now] in
      r\<lparr>hr_pending_queue := hm_insert dst
          (if length q > hr_max_pending_per_dest r then
             (case evict_index q of Some idx \<Rightarrow> vec_remove idx q | None \<Rightarrow> q) else q) (hr_pending_queue r)\<rparr>)"
  by (simp add: queue_pending_def Let_def pending_for_def new_pending_def)

lemma queue_pending_spec:
  assumes "hr_max_pending_per_dest r = 3" and "length (pending_for dst r) \<le> 3"
  shows "\<exists>q. queue_pending data dst prio now r = r\<lparr>hr_pending_queue := hm_insert dst q (hr_pending_queue r)\<rparr>
    \<and> (if length (pending_for dst r) < 3 then q = pending_for dst r @ [new_pending data dst prio now]
       else \<exists>ys v zs. pending_for dst r @ [new_pending data dst prio now] = ys @ v # zs \<and> q = ys @ zs
         \<and> (\<forall>x\<in>set (ys @ v # zs). pending_key_le x v))"
proof (cases "length (pending_for dst r) = 3")
  case True
  define Q where "Q = pending_for dst r @ [new_pending data dst prio now]"
  have "Q \<noteq> []" and len: "length Q > 3" using True by (simp_all add: Q_def)
  then obtain ys v zs where e: "Q = ys @ v # zs" "\<forall>x\<in>set Q. pending_key_le x v"
      "(case evict_index Q of Some idx \<Rightarrow> vec_remove idx Q | None \<Rightarrow> Q) = ys @ zs"
    using queue_after_eviction by blast
  have "queue_pending data dst prio now r = r\<lparr>hr_pending_queue := hm_insert dst (ys @ zs) (hr_pending_queue r)\<rparr>"
    unfolding queue_pending_eq Let_def Q_def [symmetric] e(3) assms(1) using len by simp
  then show ?thesis
    using True e(1,2) unfolding Q_def by (intro exI [of _ "ys @ zs"]) auto
next
  case False
  then show ?thesis using assms by (simp add: queue_pending_eq Let_def)
qed

section \<open>The invariant of the router\<close>

definition gt_ok :: "nat \<Rightarrow> 'c gradient_table \<Rightarrow> bool" where
  "gt_ok n t \<longleftrightarrow> (\<exists>s. lru_rel n t s)"

lemma gt_ok_new: "gt_ok n (gradient_new n)"
  using lru_rel_new by (auto simp: gt_ok_def)

lemma gt_ok_update: "gt_ok n t \<Longrightarrow> gt_ok n (fst (gradient_update e now t))"
  using gt_step_refines [of n t _ "GtUpdate e now"] by (auto simp: gt_ok_def)

lemma gt_ok_lookup: "gt_ok n t \<Longrightarrow> gt_ok n (fst (gradient_lookup dst now t))"
  using gt_step_refines [of n t _ "GtLookup dst now"] by (auto simp: gt_ok_def)

definition queue_ok :: "ipv6_addr \<Rightarrow> pending_packet list \<Rightarrow> bool" where
  "queue_ok k q \<longleftrightarrow> q \<noteq> [] \<and> length q \<le> 3 \<and> (\<forall>p\<in>set q. pp_destination p = k)"

definition pend_ok :: "(ipv6_addr, pending_packet list) hmap \<Rightarrow> bool" where
  "pend_ok m \<longleftrightarrow> hm_wf m \<and> (\<forall>k q. (k, q) \<in> set m \<longrightarrow> queue_ok k q)"

definition discs_ok :: "ipv6_addr \<Rightarrow> active_discovery list \<Rightarrow> bool" where
  "discs_ok self ds \<longleftrightarrow> distinct (map ad_destination ds) \<and>
     (\<forall>d\<in>set ds. rd_originator (ad_discovery d) = self \<and> rd_destination (ad_discovery d) = ad_destination d
        \<and> rd_ring_index (ad_discovery d) < 3 \<and> rd_state (ad_discovery d) = DSearching)"

definition hr_inv :: "'c hybrid_router \<Rightarrow> bool" where
  "hr_inv r \<longleftrightarrow> gt_ok 64 (hr_gradient_table r) \<and> pend_ok (hr_pending_queue r) \<and> hr_max_pending_per_dest r = 3
     \<and> discs_ok (hr_node_address r) (hr_active_discoveries r) \<and> (\<forall>p\<in>set (hr_mesh_prefixes r). mp_prefix_len p \<le> 128)"

lemma pend_ok_remove: "pend_ok m \<Longrightarrow> pend_ok (hm_remove k m)"
  using set_hm_remove [of k m] by (auto simp: pend_ok_def hm_wf_remove)

lemma pend_ok_insert: "pend_ok m \<Longrightarrow> queue_ok k q \<Longrightarrow> pend_ok (hm_insert k q m)"
  using set_hm_insert [of k q m] by (auto simp: pend_ok_def hm_wf_insert)

lemma pend_ok_get: "pend_ok m \<Longrightarrow> hm_get m k = Some q \<Longrightarrow> queue_ok k q"
  by (auto simp: pend_ok_def dest: hm_get_SomeD)

lemma pend_ok_pending_for:
  "pend_ok (hr_pending_queue r) \<Longrightarrow> length (pending_for dst r) \<le> 3 \<and> (\<forall>p\<in>set (pending_for dst r). pp_destination p = dst)"
  using pend_ok_get [of "hr_pending_queue r" dst] by (simp add: pending_for_def queue_ok_def split: option.split)

lemma queue_pending_inv:
  assumes inv: "hr_inv r"
  shows "hr_inv (queue_pending data dst prio now r)"
proof -
  have pq: "length (pending_for dst r) \<le> 3" "\<forall>p\<in>set (pending_for dst r). pp_destination p = dst"
    and m: "hr_max_pending_per_dest r = 3"
    using inv pend_ok_pending_for by (auto simp: hr_inv_def)
  obtain q where
      q: "queue_pending data dst prio now r = r\<lparr>hr_pending_queue := hm_insert dst q (hr_pending_queue r)\<rparr>"
        "if length (pending_for dst r) < 3 then q = pending_for dst r @ [new_pending data dst prio now]
         else \<exists>ys v zs. pending_for dst r @ [new_pending data dst prio now] = ys @ v # zs \<and> q = ys @ zs
           \<and> (\<forall>x\<in>set (ys @ v # zs). pending_key_le x v)"
    using queue_pending_spec [OF m pq(1)] by blast
  have "queue_ok dst q"
  proof (cases "length (pending_for dst r) = 3")
    case True
    then obtain ys v zs where e: "pending_for dst r @ [new_pending data dst prio now] = ys @ v # zs" "q = ys @ zs"
      using q(2) by auto
    have "length q = 3" using arg_cong [OF e(1), of length] e(2) True by simp
    moreover have "set q \<subseteq> set (pending_for dst r @ [new_pending data dst prio now])" unfolding e by auto
    ultimately show ?thesis using pq(2) by (auto simp: queue_ok_def new_pending_def)
  next
    case False
    then show ?thesis using q(2) pq by (simp add: queue_ok_def new_pending_def)
  qed
  then show ?thesis
    using inv q(1) pend_ok_insert by (simp add: hr_inv_def)
qed

lemma expire_pending_inv:
  assumes "hr_inv r"
  shows "hr_inv (fst (expire_pending now timeout r))"
proof -
  let ?m = "filter (\<lambda>(_, q). q \<noteq> []) (map (\<lambda>(k, q). (k, filter (\<lambda>p. now - pp_queued_at_ms p < timeout) q)) (hr_pending_queue r))"
  have ok: "pend_ok (hr_pending_queue r)" using assms by (simp add: hr_inv_def)
  have "distinct (map fst ?m)"
    using ok by (auto simp: pend_ok_def hm_wf_def comp_def case_prod_unfold intro: distinct_map_filter)
  moreover have "queue_ok k q" if "(k, q) \<in> set ?m" for k q
  proof -
    obtain q0 where "(k, q0) \<in> set (hr_pending_queue r)" "q = filter (\<lambda>p. now - pp_queued_at_ms p < timeout) q0" "q \<noteq> []"
      using \<open>(k, q) \<in> set ?m\<close> by auto
    moreover from this have "queue_ok k q0" using ok by (simp add: pend_ok_def)
    ultimately show ?thesis by (auto simp: queue_ok_def intro: order_trans [OF length_filter_le])
  qed
  ultimately have "pend_ok ?m" by (simp add: pend_ok_def hm_wf_def)
  then show ?thesis using assms by (simp add: expire_pending_def Let_def hr_inv_def)
qed

lemma get_pending_inv: "hr_inv r \<Longrightarrow> hr_inv (fst (get_pending dst r))"
  by (simp add: get_pending_def hr_inv_def pend_ok_remove)

lemma clear_pending_inv: "hr_inv r \<Longrightarrow> hr_inv (fst (clear_pending dst r))"
  by (simp add: clear_pending_def hr_inv_def pend_ok_remove)

lemma discs_ok_filter: "discs_ok self ds \<Longrightarrow> discs_ok self (filter P ds)"
  by (auto simp: discs_ok_def distinct_map_filter)

text \<open>The three operations of a discovery, on a state that satisfies the invariant.\<close>

lemma start_discovery_spec:
  "start_discovery dst now r =
     (if dst \<in> ad_destination ` set (hr_active_discoveries r) then Some (r, None)
      else Some (r\<lparr>hr_loadng_seq := hr_loadng_seq r + 1,
                   hr_active_discoveries := hr_active_discoveries r @
                     [\<lparr>ad_destination = dst,
                       ad_discovery = \<lparr>rd_originator = hr_node_address r, rd_destination = dst,
                         rd_seq_num = hr_loadng_seq r, rd_ring_index = 0, rd_state = DSearching\<rparr>,
                       ad_sent_at_ms = now\<rparr>]\<rparr>,
                 Some (ring_requests (hr_node_address r) dst (hr_loadng_seq r) ! 0)))"
  by (auto simp: start_discovery_def discovery_start_def discovery_new_def discovery_rreq_def EXPANDING_RING_def
      ring_requests_def Let_def list_ex_iff)

lemma advance_ring_spec:
  assumes "rd_ring_index d < 3"
  shows "advance_ring d =
    (if rd_ring_index d = 2 then Some (Inl (discovery_fail d))
     else Some (Inr (d\<lparr>rd_ring_index := rd_ring_index d + 1\<rparr>,
                ring_requests (rd_originator d) (rd_destination d) (rd_seq_num d) ! (rd_ring_index d + 1))))"
proof -
  consider "rd_ring_index d = 0" | "rd_ring_index d = 1" | "rd_ring_index d = 2" using assms by linarith
  then show ?thesis
    by cases (simp_all add: advance_ring_def discovery_rreq_def EXPANDING_RING_def ring_requests_def)
qed

lemma timeout_spec:
  assumes "hr_active_discoveries r = ys @ d # zs" and "ad_destination d = dst"
    and "\<forall>y\<in>set ys. ad_destination y \<noteq> dst" and "rd_ring_index (ad_discovery d) < 3"
  shows "on_discovery_timeout dst now r =
    (if rd_ring_index (ad_discovery d) = 2
     then Some (fst (clear_pending dst (r\<lparr>hr_active_discoveries := ys @ zs\<rparr>)), None)
     else Some (r\<lparr>hr_active_discoveries := ys @ zs @
          [\<lparr>ad_destination = dst, ad_discovery = (ad_discovery d)\<lparr>rd_ring_index := rd_ring_index (ad_discovery d) + 1\<rparr>,
            ad_sent_at_ms = now\<rparr>]\<rparr>,
        Some (ring_requests (rd_originator (ad_discovery d)) (rd_destination (ad_discovery d)) (rd_seq_num (ad_discovery d))
          ! (rd_ring_index (ad_discovery d) + 1))))"
proof -
  have "position (\<lambda>d. ad_destination d = dst) (ys @ d # zs) = Some (length ys)"
    using assms(2,3) by (induction ys) auto
  then show ?thesis
    using assms(1,2) advance_ring_spec [OF assms(4)] by (simp add: on_discovery_timeout_def)
qed

lemma timeout_absent:
  "\<forall>d\<in>set (hr_active_discoveries r). ad_destination d \<noteq> dst \<Longrightarrow> on_discovery_timeout dst now r = Some (r, None)"
  by (simp add: on_discovery_timeout_def position_None_iff [THEN iffD2])

lemma discovery_cases:
  obtains (absent) "\<forall>d\<in>set (hr_active_discoveries r). ad_destination d \<noteq> dst"
  | (present) ys d zs where "hr_active_discoveries r = ys @ d # zs" and "ad_destination d = dst"
      and "\<forall>y\<in>set ys. ad_destination y \<noteq> dst"
proof (cases "position (\<lambda>d. ad_destination d = dst) (hr_active_discoveries r)")
  case None
  then show thesis by (intro absent) (simp add: position_None_iff)
next
  case (Some i)
  then show thesis by (rule position_split) (rule present)
qed

lemma start_discovery_inv:
  assumes "hr_inv r"
  shows "\<exists>r' m. start_discovery dst now r = Some (r', m) \<and> hr_inv r'"
  using assms by (auto simp: start_discovery_spec hr_inv_def discs_ok_def image_iff)

lemma on_discovery_timeout_inv:
  assumes inv: "hr_inv r"
  shows "\<exists>r' m. on_discovery_timeout dst now r = Some (r', m) \<and> hr_inv r'"
proof (cases rule: discovery_cases [of r dst])
  case absent
  then show ?thesis using inv by (simp add: timeout_absent)
next
  case (present ys d zs)
  have "discs_ok (hr_node_address r) (ys @ d # zs)" using inv present by (simp add: hr_inv_def)
  then have d: "rd_ring_index (ad_discovery d) < 3" and ok: "discs_ok (hr_node_address r) (ys @ zs)"
    and dd: "dst \<notin> ad_destination ` set (ys @ zs)" "rd_originator (ad_discovery d) = hr_node_address r"
      "rd_destination (ad_discovery d) = dst" "rd_state (ad_discovery d) = DSearching"
    using present(2) by (auto simp: discs_ok_def)
  have base: "hr_inv (r\<lparr>hr_active_discoveries := ys @ zs\<rparr>)" using inv ok by (simp add: hr_inv_def)
  show ?thesis
  proof (cases "rd_ring_index (ad_discovery d) = 2")
    case True
    then show ?thesis using timeout_spec [OF present d] clear_pending_inv [OF base] by simp
  next
    case False
    then show ?thesis
      using timeout_spec [OF present d] base dd d by (auto simp: hr_inv_def discs_ok_def)
  qed
qed

lemma on_rrep_received_inv:
  assumes "hr_inv r"
  shows "hr_inv (fst (on_rrep_received dst hop hops seq now r))"
  unfolding on_rrep_received_def Let_def
  by (rule get_pending_inv) (use assms in \<open>simp add: hr_inv_def discs_ok_filter gt_ok_update\<close>)

lemma hr_route_inv: "hr_inv r \<Longrightarrow> hr_inv (fst (hr_route g dst now r))"
  using gt_ok_lookup [of 64 "hr_gradient_table r" dst now]
  by (auto simp: hr_route_def route_mesh_local_def hr_inv_def Let_def
      split: address_class.split option.split prod.split)

section \<open>Histories\<close>

datatype 'c hr_event =
    HrRoute ipv6_addr u32
  | HrQueuePending bytes ipv6_addr u8 u32
  | HrGetPending ipv6_addr
  | HrClearPending ipv6_addr
  | HrExpirePending u32 u32
  | HrStartDiscovery ipv6_addr u32
  | HrRrep ipv6_addr ipv6_addr u8 u16 u32
  | HrTimeout ipv6_addr u32
  | HrAnnounce bytes ipv6_addr u8 u16 "'c option" u32
  | HrLearn ipv6_addr ipv6_addr u32
  | HrAddPrefix ipv6_addr u8
  | HrRemovePrefix ipv6_addr
  | HrSetRpl bool "ipv6_addr option"
  | HrSetLoadng bool
  | HrSetCoords 'c
  | HrNeighborCoords ipv6_addr 'c

fun hr_step :: "('c, 'd) geo_ops \<Rightarrow> 'c hybrid_router \<Rightarrow> 'c hr_event \<Rightarrow> 'c hybrid_router option" where
  "hr_step g r (HrRoute dst now) = Some (fst (hr_route g dst now r))"
| "hr_step g r (HrQueuePending data dst prio now) = Some (queue_pending data dst prio now r)"
| "hr_step g r (HrGetPending dst) = Some (fst (get_pending dst r))"
| "hr_step g r (HrClearPending dst) = Some (fst (clear_pending dst r))"
| "hr_step g r (HrExpirePending now timeout) = Some (fst (expire_pending now timeout r))"
| "hr_step g r (HrStartDiscovery dst now) = map_option fst (start_discovery dst now r)"
| "hr_step g r (HrRrep dst hop hops seq now) = Some (fst (on_rrep_received dst hop hops seq now r))"
| "hr_step g r (HrTimeout dst now) = map_option fst (on_discovery_timeout dst now r)"
| "hr_step g r (HrAnnounce pubkey from hops seq coords now) = Some (fst (process_announce pubkey from hops seq coords now r))"
| "hr_step g r (HrLearn src from now) = Some (learn_from_data src from now r)"
| "hr_step g r (HrAddPrefix prefix len) = Some (add_mesh_prefix prefix len r)"
| "hr_step g r (HrRemovePrefix prefix) = Some (remove_mesh_prefix prefix r)"
| "hr_step g r (HrSetRpl joined parent) = Some (set_rpl_state joined parent r)"
| "hr_step g r (HrSetLoadng enabled) = Some (set_loadng_enabled enabled r)"
| "hr_step g r (HrSetCoords c) = Some (set_node_coords c r)"
| "hr_step g r (HrNeighborCoords n c) = Some (update_neighbor_coords n c r)"

lemmas hr_config_defs = process_announce_def learn_from_data_def add_mesh_prefix_def mesh_prefix_new_def
  remove_mesh_prefix_def set_rpl_state_def set_loadng_enabled_def set_node_coords_def update_neighbor_coords_def

lemma hr_config_inv:
  assumes "hr_inv r"
  shows "hr_inv (fst (process_announce pubkey from hops seq coords now r))" and "hr_inv (learn_from_data src from now r)"
    and "hr_inv (add_mesh_prefix prefix len r)" and "hr_inv (remove_mesh_prefix prefix r)"
    and "hr_inv (set_rpl_state joined parent r)" and "hr_inv (set_loadng_enabled enabled r)"
    and "hr_inv (set_node_coords c r)" and "hr_inv (update_neighbor_coords n c r)"
  using assms by (auto simp: hr_config_defs Let_def case_prod_unfold hr_inv_def gt_ok_update not_less)

lemma hr_step_safe:
  assumes "hr_inv r"
  shows "\<exists>r'. hr_step g r e = Some r' \<and> hr_inv r'"
proof (cases e)
  case (HrStartDiscovery dst now)
  then show ?thesis using start_discovery_inv [OF assms, of dst now] by auto
next
  case (HrTimeout dst now)
  then show ?thesis using on_discovery_timeout_inv [OF assms, of dst now] by auto
qed (use assms in \<open>simp_all add: hr_config_inv hr_route_inv queue_pending_inv get_pending_inv clear_pending_inv
    expire_pending_inv on_rrep_received_inv\<close>)

interpretation hr_machine: safe_machine "hr_step g" hr_inv for g
  by unfold_locales (rule hr_step_safe)

lemma hybrid_new_inv: "hr_inv (hybrid_new addr)"
  by (simp add: hr_inv_def hybrid_new_def gt_ok_new pend_ok_def discs_ok_def hm_wf_def MAX_GRADIENT_ENTRIES_def)

lemma hr_reached_inv: "orun (hr_step g) es (hybrid_new addr) = Some r \<Longrightarrow> hr_inv r"
  using hr_machine.run_safe [OF hybrid_new_inv, of g es addr] by auto

lemma gt_ok_bounds: "gt_ok n t \<Longrightarrow> length (gt_entries t) \<le> n \<and> distinct (map ge_destination (gt_entries t))"
  using lru_rel_distinct by (auto simp: gt_ok_def lru_rel_def)

text \<open>
  C35. The router never panics and its tables stay bounded and consistent: from a fresh router,
  every history of calls succeeds; at most 64 routes are kept, one per destination; at most
  three packets wait per destination, each in the queue of its own destination; at most one
  discovery runs per destination, started by this node and inside the three rings; every mesh
  prefix has at most 128 bits.
\<close>

theorem hybrid_router_invariant:
  "\<exists>r. orun (hr_step g) es (hybrid_new addr) = Some r
     \<and> length (gt_entries (hr_gradient_table r)) \<le> 64 \<and> distinct (map ge_destination (gt_entries (hr_gradient_table r)))
     \<and> list_all (\<lambda>(k, q). q \<noteq> [] \<and> length q \<le> 3 \<and> list_all (\<lambda>p. pp_destination p = k) q) (hr_pending_queue r)
     \<and> distinct (map ad_destination (hr_active_discoveries r))
     \<and> list_all (\<lambda>d. rd_originator (ad_discovery d) = hr_node_address r \<and> rd_destination (ad_discovery d) = ad_destination d
          \<and> rd_ring_index (ad_discovery d) < 3 \<and> rd_state (ad_discovery d) = DSearching) (hr_active_discoveries r)
     \<and> list_all (\<lambda>p. mp_prefix_len p \<le> 128) (hr_mesh_prefixes r)"
proof -
  obtain r where r: "orun (hr_step g) es (hybrid_new addr) = Some r" and inv: "hr_inv r"
    using hr_machine.run_safe [OF hybrid_new_inv] by blast
  show ?thesis
    using inv gt_ok_bounds r
    by (intro exI [of _ r]) (auto simp: hr_inv_def pend_ok_def queue_ok_def discs_ok_def list_all_iff)
qed

text \<open>
  A packet waits for its turn by priority: when the three places of a destination are taken,
  the packet that gives way is one of lowest priority and, among those, one queued earliest by
  the clock value it carries; the others keep their order.
\<close>

theorem queue_pending_evicts_lowest:
  assumes "orun (hr_step g) es (hybrid_new addr) = Some r"
  shows "\<exists>q. queue_pending data dst prio now r = r\<lparr>hr_pending_queue := hm_insert dst q (hr_pending_queue r)\<rparr>
    \<and> (if length (pending_for dst r) < 3 then q = pending_for dst r @ [new_pending data dst prio now]
       else \<exists>ys v zs. pending_for dst r @ [new_pending data dst prio now] = ys @ v # zs \<and> q = ys @ zs
         \<and> (\<forall>x\<in>set (ys @ v # zs). pp_priority x < pp_priority v
              \<or> pp_priority x = pp_priority v \<and> pp_queued_at_ms v \<le> pp_queued_at_ms x))"
proof -
  have inv: "hr_inv r" using assms by (rule hr_reached_inv)
  then have "hr_max_pending_per_dest r = 3" "length (pending_for dst r) \<le> 3"
    using pend_ok_pending_for by (auto simp: hr_inv_def)
  then show ?thesis using queue_pending_spec [unfolded pending_key_le_def] by blast
qed

section \<open>Routing decisions\<close>

definition live_entry :: "ipv6_addr \<Rightarrow> u32 \<Rightarrow> 'c gradient_table \<Rightarrow> 'c gradient_entry option" where
  "live_entry dst now t =
     (case find (\<lambda>e. ge_destination e = dst) (gt_entries t) of
        Some e \<Rightarrow> if is_expired (ge_expires_ms e) now then None else Some e
      | None \<Rightarrow> None)"

lemma find_position:
  "find P xs = map_option (nth xs) (position P xs)"
  by (induction xs) (auto simp: option.map_comp comp_def)

lemma lookup_live: "snd (gradient_lookup dst now t) = live_entry dst now t"
proof (cases "position (\<lambda>e. ge_destination e = dst) (gt_entries t)")
  case None
  then show ?thesis by (simp add: gradient_lookup_def live_entry_def find_position)
next
  case (Some i)
  then obtain ys x zs where es: "gt_entries t = ys @ x # zs" "length ys = i" "ge_destination x = dst"
      "\<forall>y\<in>set ys. ge_destination y \<noteq> dst"
    by (rule position_split)
  then show ?thesis
    using Some lookup_split [OF es(1,4,3), of now] by (auto simp: live_entry_def find_position)
qed

text \<open>
  Greedy geographic forwarding: the neighbours with valid coordinates, and when such a neighbour
  is nearer to the destination than this node. The destination's coordinates are those of its
  entry in the gradient table, expired or not.
\<close>

definition dst_coords_of :: "ipv6_addr \<Rightarrow> 'c hybrid_router \<Rightarrow> 'c option" where
  "dst_coords_of dst r = Option.bind (find (\<lambda>e. ge_destination e = dst) (gt_entries (hr_gradient_table r))) ge_coords"

definition closer_neighbor :: "('c, 'd) geo_ops \<Rightarrow> ipv6_addr \<Rightarrow> 'c hybrid_router \<Rightarrow> ipv6_addr \<times> 'c \<Rightarrow> bool" where
  "closer_neighbor g dst r n \<longleftrightarrow>
     (\<exists>my dc. hr_node_coords r = Some my \<and> dst_coords_of dst r = Some dc \<and> geo_valid g my \<and> geo_valid g dc
        \<and> n \<in> set (hr_neighbor_coords r) \<and> geo_valid g (snd n) \<and> geo_less g (geo_dist g (snd n) dc) (geo_dist g my dc))"

definition closest_neighbor :: "('c, 'd) geo_ops \<Rightarrow> ipv6_addr \<Rightarrow> 'c hybrid_router \<Rightarrow> ipv6_addr \<Rightarrow> bool" where
  "closest_neighbor g dst r hop \<longleftrightarrow>
     (\<exists>nc dc. closer_neighbor g dst r (hop, nc) \<and> dst_coords_of dst r = Some dc \<and>
        (\<forall>n. closer_neighbor g dst r n \<longrightarrow> \<not> geo_less g (geo_dist g (snd n) dc) (geo_dist g nc dc)))"

text \<open>The state of the search over the neighbours \<open>ns\<close> seen so far.\<close>

definition gpsr_best :: "('c, 'd) geo_ops \<Rightarrow> 'c \<Rightarrow> 'd \<Rightarrow> (ipv6_addr \<times> 'c) set \<Rightarrow> ipv6_addr option \<times> 'd \<Rightarrow> bool" where
  "gpsr_best g dc far ns best \<longleftrightarrow>
     (\<forall>n\<in>ns. geo_valid g (snd n) \<longrightarrow> \<not> geo_less g (geo_dist g (snd n) dc) (snd best)) \<and>
     (case fst best of None \<Rightarrow> snd best = far
      | Some hop \<Rightarrow> geo_less g (snd best) far \<and> (\<exists>nc. (hop, nc) \<in> ns \<and> geo_valid g nc \<and> snd best = geo_dist g nc dc))"

lemma gpsr_pick_best:
  assumes "transp (geo_less g)" "irreflp (geo_less g)" and b: "gpsr_best g dc far ns best"
  shows "gpsr_best g dc far (insert n ns) (gpsr_pick g dc n best)"
proof (cases "geo_valid g (snd n) \<and> geo_less g (geo_dist g (snd n) dc) (snd best)")
  case True
  then have pick: "gpsr_pick g dc n best = (Some (fst n), geo_dist g (snd n) dc)"
    by (simp add: gpsr_pick_def Let_def)
  have "geo_less g (geo_dist g (snd n) dc) far"
    using True b transpD [OF assms(1)] by (auto simp: gpsr_best_def split: option.splits)
  moreover have "\<not> geo_less g (geo_dist g (snd m) dc) (geo_dist g (snd n) dc)" if "m \<in> insert n ns" "geo_valid g (snd m)" for m
    using that True b transpD [OF assms(1)] irreflpD [OF assms(2)] by (auto simp: gpsr_best_def)
  ultimately show ?thesis
    unfolding pick gpsr_best_def using True by (auto intro!: exI [of _ "snd n"])
next
  case False
  then have "gpsr_pick g dc n best = best" by (auto simp: gpsr_pick_def Let_def)
  then show ?thesis using b False by (auto simp: gpsr_best_def split: option.splits)
qed

lemma gpsr_fold:
  assumes "transp (geo_less g)" "irreflp (geo_less g)"
  shows "gpsr_best g dc far seen best \<Longrightarrow> gpsr_best g dc far (seen \<union> set ns) (fold (gpsr_pick g dc) ns best)"
proof (induction ns arbitrary: seen best)
  case (Cons n ns)
  from Cons.IH [OF gpsr_pick_best [OF assms Cons.prems]] show ?case by simp
qed simp

lemma gpsr_forward_spec:
  assumes "transp (geo_less g)" "irreflp (geo_less g)"
  shows "(gpsr_forward g dst r = None \<longleftrightarrow> (\<nexists>n. closer_neighbor g dst r n)) \<and>
    (\<forall>hop. gpsr_forward g dst r = Some hop \<longrightarrow> closest_neighbor g dst r hop)"
proof (cases "\<exists>my dc. hr_node_coords r = Some my \<and> dst_coords_of dst r = Some dc \<and> geo_valid g my \<and> geo_valid g dc")
  case False
  then have "gpsr_forward g dst r = None" "\<nexists>n. closer_neighbor g dst r n"
    by (auto simp: gpsr_forward_def dst_coords_of_def closer_neighbor_def split: option.splits)
  then show ?thesis by simp
next
  case True
  then obtain my dc where c: "hr_node_coords r = Some my" "dst_coords_of dst r = Some dc" "geo_valid g my" "geo_valid g dc"
    by blast
  define res where "res = fold (gpsr_pick g dc) (hr_neighbor_coords r) (None, geo_dist g my dc)"
  have f: "gpsr_forward g dst r = fst res" using c by (simp add: gpsr_forward_def dst_coords_of_def res_def)
  have "gpsr_best g dc (geo_dist g my dc) {} (None, geo_dist g my dc)" by (simp add: gpsr_best_def)
  from gpsr_fold [OF assms this, of "hr_neighbor_coords r"]
  have best: "gpsr_best g dc (geo_dist g my dc) (set (hr_neighbor_coords r)) res" by (simp add: res_def)
  have cl: "closer_neighbor g dst r n \<longleftrightarrow> n \<in> set (hr_neighbor_coords r) \<and> geo_valid g (snd n) \<and>
      geo_less g (geo_dist g (snd n) dc) (geo_dist g my dc)" for n
    using c by (auto simp: closer_neighbor_def)
  show ?thesis
  proof (cases "fst res")
    case None
    then have "\<nexists>n. closer_neighbor g dst r n" using best by (auto simp: gpsr_best_def cl)
    then show ?thesis using f None by simp
  next
    case (Some hop)
    then obtain nc where nc: "(hop, nc) \<in> set (hr_neighbor_coords r)" "geo_valid g nc" "snd res = geo_dist g nc dc"
        "geo_less g (snd res) (geo_dist g my dc)" using best by (auto simp: gpsr_best_def)
    have "closer_neighbor g dst r (hop, nc)" using nc by (simp add: cl)
    moreover have "\<not> geo_less g (geo_dist g (snd n) dc) (geo_dist g nc dc)" if "closer_neighbor g dst r n" for n
      using that best nc(3) by (simp add: gpsr_best_def cl)
    ultimately have "closest_neighbor g dst r hop" using c(2) unfolding closest_neighbor_def by blast
    then show ?thesis using f Some \<open>closer_neighbor g dst r (hop, nc)\<close> by auto
  qed
qed

lemma hr_route_cases:
  "snd (hr_route g dst now r) =
     (if dst = hr_node_address r then rr_deliver_local
      else case classify_address r dst of
        LinkLocal \<Rightarrow> rr_forward dst
      | External \<Rightarrow> route_external r
      | MeshLocal \<Rightarrow>
          (case live_entry dst now (hr_gradient_table r) of
             Some e \<Rightarrow> rr_forward (ge_next_hop e)
           | None \<Rightarrow>
               (case gpsr_forward g dst r of
                  Some hop \<Rightarrow> rr_forward hop
                | None \<Rightarrow> if hr_loadng_enabled r then rr_queue
                           else if dst ! 0 = 2 then route_external r else rr_drop)))"
proof -
  have "fst (gradient_lookup dst now t) = t" if "live_entry dst now t = None" for t :: "'a gradient_table"
    using that unfolding lookup_live [symmetric]
    by (auto simp: gradient_lookup_def Let_def split: option.splits if_splits)
  then show ?thesis
    by (auto simp: hr_route_def route_mesh_local_def Let_def lookup_live case_prod_unfold route_external_def
        split: address_class.split option.split)
qed

lemma route_external_cases:
  "route_external r = (if hr_rpl_joined r \<and> hr_rpl_parent r \<noteq> None then rr_forward (the (hr_rpl_parent r)) else rr_drop)"
  by (auto simp: route_external_def split: option.split)

text \<open>No route is known: neither a live entry nor a neighbour nearer to the destination.\<close>

definition no_local_route :: "('c, 'd) geo_ops \<Rightarrow> ipv6_addr \<Rightarrow> u32 \<Rightarrow> 'c hybrid_router \<Rightarrow> bool" where
  "no_local_route g dst now r \<longleftrightarrow>
     live_entry dst now (hr_gradient_table r) = None \<and> (\<nexists>n. closer_neighbor g dst r n)"

text \<open>A packet goes up the RPL tree: to external addresses, and to native ones without discovery.\<close>

definition goes_up :: "('c, 'd) geo_ops \<Rightarrow> ipv6_addr \<Rightarrow> u32 \<Rightarrow> 'c hybrid_router \<Rightarrow> bool" where
  "goes_up g dst now r \<longleftrightarrow> classify_address r dst = External
     \<or> classify_address r dst = MeshLocal \<and> no_local_route g dst now r \<and> \<not> hr_loadng_enabled r \<and> dst ! 0 = 2"


section \<open>A discovery from request to reply or failure\<close>

lemma not_expired_later: "0 < unat d \<Longrightarrow> unat d < 2 ^ 31 \<Longrightarrow> \<not> is_expired (now + d) now"
proof -
  assume d: "0 < unat d" "unat d < 2 ^ 31"
  have "unat (now - (now + d)) = unat (0 - d)" by simp
  also have "\<dots> = 2 ^ 32 - unat d" using d(1) by (subst unat_sub_if') simp
  finally have "unat (now - (now + d)) = 2 ^ 32 - unat d" .
  then show ?thesis using d by (simp add: is_expired_iff)
qed

lemma find_last_distinct:
  "distinct (map f (xs @ [x])) \<Longrightarrow> find (\<lambda>y. f y = f x) (xs @ [x]) = Some x"
  by (induction xs) auto

lemma update_gives_route:
  assumes ok: "gt_ok n t" "0 < n" and fresh: "\<not> is_expired (ge_expires_ms e) now"
  shows "\<exists>x. live_entry (ge_destination e) now (fst (gradient_update e now t)) = Some x
    \<and> (live_entry (ge_destination e) now t = None \<longrightarrow> x = e)"
proof -
  obtain s where s: "lru_rel n t s" using ok(1) by (auto simp: gt_ok_def)
  have n: "gt_max_entries t \<noteq> 0" using s ok(2) by (simp add: lru_rel_def)
  have dist: "distinct (map ge_destination (gt_entries (fst (gradient_update e now t))))"
    using gt_ok_bounds [OF gt_ok_update [OF ok(1)]] by blast
  have stored: ?thesis if x: "gt_entries (fst (gradient_update e now t)) = xs @ [e]" for xs
  proof -
    have "live_entry (ge_destination e) now (fst (gradient_update e now t)) = Some e"
      using dist fresh unfolding live_entry_def x by (subst find_last_distinct) simp_all
    then show ?thesis by blast
  qed
  from s show ?thesis
  proof (cases rule: entries_cases [where dst = "ge_destination e"])
    case absent
    show ?thesis by (rule stored) (simp add: update_absent [OF absent(1) n])
  next
    case (present ys x zs)
    have ne: "\<forall>y\<in>set ys. ge_destination y \<noteq> ge_destination x" using present(2,3) by simp
    note u = update_split [OF present(1) ne present(3) [symmetric] n, of now]
    have nf: "find (\<lambda>y. ge_destination y = ge_destination e) (gt_entries t) = Some x"
      unfolding present(1) using present(2,3) by (induction ys) auto
    show ?thesis
    proof (cases "is_expired (ge_expires_ms x) now \<or> should_replace e x")
      case True
      show ?thesis by (rule stored [of "ys @ zs"]) (simp add: u True)
    next
      case False
      then have "live_entry (ge_destination e) now t = Some x" by (simp add: live_entry_def nf)
      then show ?thesis using False by (simp add: u)
    qed
  qed
qed

lemma on_rrep_received_fields:
  assumes "on_rrep_received dst hop hops seq now r = (r', ps)"
  shows "ps = pending_for dst r" and "pending_for dst r' = []"
    and "hr_active_discoveries r' = filter (\<lambda>d. ad_destination d \<noteq> dst) (hr_active_discoveries r)"
    and "hr_node_address r' = hr_node_address r" and "hr_mesh_prefixes r' = hr_mesh_prefixes r"
    and "hr_gradient_table r' = fst (gradient_update \<lparr>ge_destination = dst, ge_next_hop = hop, ge_hop_count = hops,
       ge_seq_num = seq, ge_source = GRrep, ge_expires_ms = now + GRADIENT_TIMEOUT_MS, ge_coords = None\<rparr> now (hr_gradient_table r))"
  using assms by (auto simp: on_rrep_received_def get_pending_def pending_for_def Let_def)

text \<open>
  C27. A reply ends a discovery: in every reachable state, \<open>on_rrep_received\<close> hands out all packets
  that waited for the destination, in order, and leaves none; no discovery for it remains; and
  at that time the router forwards packets for it, along the route of the reply unless it had a
  live route already.
\<close>

theorem rrep_completes_discovery:
  assumes "orun (hr_step g) es (hybrid_new addr) = Some r"
    and "dst \<noteq> hr_node_address r" and "classify_address r dst = MeshLocal"
    and "on_rrep_received dst hop hops seq now r = (r', ps)"
  shows "ps = pending_for dst r \<and> pending_for dst r' = []
    \<and> dst \<notin> ad_destination ` set (hr_active_discoveries r')
    \<and> (\<exists>x. live_entry dst now (hr_gradient_table r') = Some x
          \<and> snd (hr_route g dst now r') = rr_forward (ge_next_hop x)
          \<and> (live_entry dst now (hr_gradient_table r) = None \<longrightarrow> ge_next_hop x = hop))"
proof -
  note f = on_rrep_received_fields [OF assms(4)]
  let ?e = "\<lparr>ge_destination = dst, ge_next_hop = hop, ge_hop_count = hops, ge_seq_num = seq, ge_source = GRrep,
    ge_expires_ms = now + GRADIENT_TIMEOUT_MS, ge_coords = None\<rparr>"
  have "gt_ok 64 (hr_gradient_table r)" using hr_reached_inv [OF assms(1)] by (simp add: hr_inv_def)
  moreover have "\<not> is_expired (ge_expires_ms ?e) now"
    using not_expired_later [of GRADIENT_TIMEOUT_MS now] by (simp add: GRADIENT_TIMEOUT_MS_def)
  ultimately obtain x where x: "live_entry dst now (hr_gradient_table r') = Some x"
      "live_entry dst now (hr_gradient_table r) = None \<Longrightarrow> x = ?e"
    using update_gives_route [of 64 "hr_gradient_table r" ?e now] unfolding f(6) by auto
  have "classify_address r' dst = MeshLocal"
    using assms(3) unfolding classify_address_def f(5) .
  then have "snd (hr_route g dst now r') = rr_forward (ge_next_hop x)"
    using assms(2) x(1) by (simp add: hr_route_cases f(4))
  then show ?thesis using f(1-3) x by auto
qed

definition searching :: "ipv6_addr \<Rightarrow> ipv6_addr \<Rightarrow> u16 \<Rightarrow> nat \<Rightarrow> active_discovery \<Rightarrow> bool" where
  "searching self dst s i d \<longleftrightarrow> ad_destination d = dst \<and> rd_originator (ad_discovery d) = self
     \<and> rd_destination (ad_discovery d) = dst \<and> rd_seq_num (ad_discovery d) = s \<and> rd_ring_index (ad_discovery d) = i"

text \<open>Two routers with the same tables and settings decide alike.\<close>

definition same_routes :: "'c hybrid_router \<Rightarrow> 'c hybrid_router \<Rightarrow> bool" where
  "same_routes r' r \<longleftrightarrow> hr_node_address r' = hr_node_address r \<and> hr_mesh_prefixes r' = hr_mesh_prefixes r
     \<and> hr_gradient_table r' = hr_gradient_table r \<and> hr_node_coords r' = hr_node_coords r
     \<and> hr_neighbor_coords r' = hr_neighbor_coords r \<and> hr_loadng_enabled r' = hr_loadng_enabled r
     \<and> hr_rpl_joined r' = hr_rpl_joined r \<and> hr_rpl_parent r' = hr_rpl_parent r"

lemma same_routes_decide:
  assumes "same_routes r' r"
  shows "snd (hr_route g x now r') = snd (hr_route g x now r)"
proof -
  note eq = assms [unfolded same_routes_def]
  have "gpsr_forward g x r' = gpsr_forward g x r" unfolding gpsr_forward_def by (simp only: eq)
  moreover have "classify_address r' x = classify_address r x" unfolding classify_address_def by (simp only: eq)
  moreover have "route_external r' = route_external r" unfolding route_external_def by (simp only: eq)
  ultimately show ?thesis unfolding hr_route_cases by (simp only: eq)
qed

lemma same_routes_trans: "same_routes a b \<Longrightarrow> same_routes b c \<Longrightarrow> same_routes a c"
  by (simp add: same_routes_def)

lemma timeout_advances:
  assumes "hr_active_discoveries r = ys @ [d]" and "searching self dst s i d" and "i < 2"
    and "\<forall>y\<in>set ys. ad_destination y \<noteq> dst"
  obtains r' d' where "on_discovery_timeout dst now r = Some (r', Some (ring_requests self dst s ! Suc i))"
    and "hr_active_discoveries r' = ys @ [d']" and "searching self dst s (Suc i) d'" and "same_routes r' r"
  using assms timeout_spec [of r ys d "[]" dst now] by (auto simp: searching_def same_routes_def)

lemma timeout_fails:
  assumes "hr_active_discoveries r = ys @ [d]" and "searching self dst s 2 d"
    and "\<forall>y\<in>set ys. ad_destination y \<noteq> dst"
  obtains r' where "on_discovery_timeout dst now r = Some (r', None)"
    and "hr_active_discoveries r' = ys" and "pending_for dst r' = []" and "same_routes r' r"
  using assms timeout_spec [of r ys d "[]" dst now] by (auto simp: searching_def clear_pending_def pending_for_def same_routes_def)

lemma start_searches:
  assumes "dst \<notin> ad_destination ` set (hr_active_discoveries r)"
  obtains r' d where "start_discovery dst now r = Some (r', Some (ring_requests (hr_node_address r) dst (hr_loadng_seq r) ! 0))"
    and "hr_active_discoveries r' = hr_active_discoveries r @ [d]"
    and "searching (hr_node_address r) dst (hr_loadng_seq r) 0 d" and "same_routes r' r"
  using assms by (auto simp: start_discovery_spec searching_def same_routes_def)

text \<open>
  C28. A discovery without a reply gives up and falls back on nothing: in every reachable state
  without a discovery for the destination, starting one and letting it time out three times sends
  requests with hop limits 4, 8 and 15 and then none, leaves no discovery and none of the packets
  that waited, and changes no routing decision. So the packets are dropped and the destination is
  discovered anew by the next packet, also when it is a native address for which the routing
  specification asks to continue through the border router.
\<close>

theorem discovery_gives_up:
  assumes "orun (hr_step g) es (hybrid_new addr) = Some r" and "dst \<notin> ad_destination ` set (hr_active_discoveries r)"
  shows "\<exists>r1 r2 r3 r4 a b c. start_discovery dst ta r = Some (r1, Some a)
    \<and> on_discovery_timeout dst tb r1 = Some (r2, Some b) \<and> on_discovery_timeout dst tc r2 = Some (r3, Some c)
    \<and> on_discovery_timeout dst td r3 = Some (r4, None)
    \<and> [a, b, c] = ring_requests (hr_node_address r) dst (hr_loadng_seq r)
    \<and> map rreq_hop_limit [a, b, c] = [4, 8, 15]
    \<and> hr_active_discoveries r4 = hr_active_discoveries r \<and> pending_for dst r4 = []
    \<and> (\<forall>x now. snd (hr_route g x now r4) = snd (hr_route g x now r))"
proof -
  have na: "\<forall>y\<in>set (hr_active_discoveries r). ad_destination y \<noteq> dst" using assms(2) by auto
  let ?m = "\<lambda>i. ring_requests (hr_node_address r) dst (hr_loadng_seq r) ! i"
  obtain r1 x1 where 1: "start_discovery dst ta r = Some (r1, Some (?m 0))"
      "hr_active_discoveries r1 = hr_active_discoveries r @ [x1]" "searching (hr_node_address r) dst (hr_loadng_seq r) 0 x1"
      "same_routes r1 r"
    using assms(2) by (rule start_searches)
  obtain r2 x2 where 2: "on_discovery_timeout dst tb r1 = Some (r2, Some (?m (Suc 0)))"
      "hr_active_discoveries r2 = hr_active_discoveries r @ [x2]" "searching (hr_node_address r) dst (hr_loadng_seq r) (Suc 0) x2"
      "same_routes r2 r1"
    using 1(2,3) zero_less_numeral na by (rule timeout_advances)
  obtain r3 x3 where 3: "on_discovery_timeout dst tc r2 = Some (r3, Some (?m (Suc (Suc 0))))"
      "hr_active_discoveries r3 = hr_active_discoveries r @ [x3]" "searching (hr_node_address r) dst (hr_loadng_seq r) (Suc (Suc 0)) x3"
      "same_routes r3 r2"
    using 2(2,3) _ na by (rule timeout_advances) simp
  obtain r4 where 4: "on_discovery_timeout dst td r3 = Some (r4, None)"
      "hr_active_discoveries r4 = hr_active_discoveries r" "pending_for dst r4 = []" and r4: "same_routes r4 r3"
    using 3(2) 3(3) [folded numeral_2_eq_2] na by (rule timeout_fails)
  have 5: "[?m 0, ?m (Suc 0), ?m (Suc (Suc 0))] = ring_requests (hr_node_address r) dst (hr_loadng_seq r)"
    "map rreq_hop_limit [?m 0, ?m (Suc 0), ?m (Suc (Suc 0))] = [4, 8, 15]"
    by (simp_all add: ring_requests_def EXPANDING_RING_def)
  have "same_routes r4 r" using same_routes_trans r4 3(4) 2(4) 1(4) by blast
  then have 6: "\<forall>x now. snd (hr_route g x now r4) = snd (hr_route g x now r)" using same_routes_decide by blast
  show ?thesis
    by (rule exI conjI 1(1) 2(1) 3(1) 4 5 6)+
qed

section \<open>Sample routers\<close>

definition int_geo :: "(int, int) geo_ops" where
  "int_geo = \<lparr>geo_valid = (\<lambda>_. True), geo_dist = (\<lambda>a b. abs (a - b)), geo_less = (<)\<rparr>"

definition sample_self :: ipv6_addr where "sample_self = 2 # replicate 15 1"
definition sample_peer :: ipv6_addr where "sample_peer = 2 # replicate 15 9"
definition sample_hop :: ipv6_addr where "sample_hop = [0xfe, 0x80] @ replicate 14 3"

definition sample_calls :: "int hr_event list" where
  "sample_calls = [HrQueuePending [7] sample_peer 0 5, HrStartDiscovery sample_peer 5, HrQueuePending [8] sample_peer 2 6,
     HrQueuePending [9] sample_peer 1 6]"

definition sample_router :: "int hybrid_router" where
  "sample_router = the (orun (hr_step int_geo) sample_calls (hybrid_new sample_self))"

lemma sample_router_reached: "orun (hr_step int_geo) sample_calls (hybrid_new sample_self) = Some sample_router"
  using hr_machine.run_safe [OF hybrid_new_inv, of int_geo sample_calls sample_self] by (auto simp: sample_router_def)

lemma sample_router_facts:
  "sample_peer \<noteq> hr_node_address sample_router \<and> classify_address sample_router sample_peer = MeshLocal
   \<and> map pp_priority (pending_for sample_peer sample_router) = [0, 2, 1]
   \<and> live_entry sample_peer 10 (hr_gradient_table sample_router) = None
   \<and> sample_hop \<notin> ad_destination ` set (hr_active_discoveries sample_router)"
  by code_simp

lemma int_geo_less: "transp (geo_less int_geo)" "irreflp (geo_less int_geo)"
  by (simp_all add: int_geo_def transp_def irreflp_def)

theorem queue_pending_evicts_lowest_witness:
  "\<exists>q ys v zs. queue_pending [4] sample_peer 1 9 sample_router = sample_router\<lparr>hr_pending_queue := hm_insert sample_peer q (hr_pending_queue sample_router)\<rparr>
     \<and> pending_for sample_peer sample_router @ [new_pending [4] sample_peer 1 9] = ys @ v # zs \<and> q = ys @ zs
     \<and> (\<forall>x\<in>set (ys @ v # zs). pp_priority x \<le> pp_priority v)"
proof -
  have "length (pending_for sample_peer sample_router) = 3"
    using sample_router_facts by (metis length_map length_Cons list.size(3) numeral_3_eq_3)
  then have n: "\<not> length (pending_for sample_peer sample_router) < 3" by simp
  obtain q ys v zs where
      "queue_pending [4] sample_peer 1 9 sample_router = sample_router\<lparr>hr_pending_queue := hm_insert sample_peer q (hr_pending_queue sample_router)\<rparr>"
      "pending_for sample_peer sample_router @ [new_pending [4] sample_peer 1 9] = ys @ v # zs" "q = ys @ zs"
      "\<forall>x\<in>set (ys @ v # zs). pp_priority x < pp_priority v \<or> pp_priority x = pp_priority v \<and> pp_queued_at_ms v \<le> pp_queued_at_ms x"
    using queue_pending_evicts_lowest [OF sample_router_reached, of "[4]" sample_peer 1 9] unfolding if_not_P [OF n] by blast
  then show ?thesis by (intro exI conjI) (assumption, assumption, assumption, auto intro: less_imp_le)
qed


theorem rrep_completes_discovery_witness:
  "\<exists>r' ps. on_rrep_received sample_peer sample_hop 2 7 10 sample_router = (r', ps) \<and> map pp_priority ps = [0, 2, 1]
     \<and> snd (hr_route int_geo sample_peer 10 r') = rr_forward sample_hop"
proof -
  obtain r' ps where r: "on_rrep_received sample_peer sample_hop 2 7 10 sample_router = (r', ps)" by (cases "on_rrep_received sample_peer sample_hop 2 7 10 sample_router")
  show ?thesis
    using rrep_completes_discovery [OF sample_router_reached _ _ r] sample_router_facts r by auto
qed

theorem discovery_gives_up_witness:
  "\<exists>r1 r2 r3 r4 a b c. start_discovery sample_hop 1 sample_router = Some (r1, Some a)
     \<and> on_discovery_timeout sample_hop 2 r1 = Some (r2, Some b) \<and> on_discovery_timeout sample_hop 3 r2 = Some (r3, Some c)
     \<and> on_discovery_timeout sample_hop 4 r3 = Some (r4, None) \<and> map rreq_hop_limit [a, b, c] = [4, 8, 15]"
proof -
  have "sample_hop \<notin> ad_destination ` set (hr_active_discoveries sample_router)" using sample_router_facts by blast
  from discovery_gives_up [OF sample_router_reached this, of 1 2 3 4] show ?thesis
    by (elim exE conjE) (rule exI conjI, assumption | rule exI conjI)+
qed

end
