(* ===== verification/Schc_Codec.thy ===== *)
theory Schc_Codec
  imports Addressing
begin

text \<open>
  The wire format of SCHC ACK-on-Error fragmentation (\<open>lichen-schc/src/fragment.rs\<close>): tile
  sizing, the integrity check, fragments, acknowledgements with their compressed bitmap, and
  control messages. The one-bit window and six-bit FCN push the content of a fragment one bit
  out of byte alignment, which is what the packing loops do.
\<close>

unbundle bit_operations_syntax

definition FRAGMENT_N :: nat where "FRAGMENT_N = 6"
definition ALL_1_FCN :: u8 where "ALL_1_FCN = push_bit FRAGMENT_N 1 - 1"
definition MIC_LENGTH :: nat where "MIC_LENGTH = 4"
definition MAX_ACK_REQUESTS :: nat where "MAX_ACK_REQUESTS = 4"
definition FRAGMENT_HEADER_BITS :: nat where "FRAGMENT_HEADER_BITS = 8 + 0 + 1 + 6"
definition FRAGMENT_ENVELOPE_MTU :: nat where "FRAGMENT_ENVELOPE_MTU = 185"
definition TILE_SIZE :: nat where
  "TILE_SIZE = (FRAGMENT_ENVELOPE_MTU * 8 - FRAGMENT_HEADER_BITS - MIC_LENGTH * 8) div 8"
definition WINDOW_SIZE :: nat where "WINDOW_SIZE = 63"
definition BITMAP_MASK :: u64 where "BITMAP_MASK = push_bit WINDOW_SIZE 1 - 1"
definition MAX_PACKET_SIZE :: nat where "MAX_PACKET_SIZE = 22554"
definition MAX_FRAGMENT_WIRE_SIZE :: nat where "MAX_FRAGMENT_WIRE_SIZE = TILE_SIZE + MIC_LENGTH + 2"
definition RULE_ID_A_TO_B :: u8 where "RULE_ID_A_TO_B = 0x78"
definition RULE_ID_B_TO_A :: u8 where "RULE_ID_B_TO_A = 0x79"

section \<open>Tile sizing\<close>

datatype tile_size_error = InvalidMtu | ArithmeticOverflow | NoPayload

definition fragment_payload_capacity ::
  "u64 \<Rightarrow> u64 \<Rightarrow> u64 \<Rightarrow> u64 \<Rightarrow> u64 \<Rightarrow> u64 \<Rightarrow> tile_size_error + u64" where
  "fragment_payload_capacity mtu rule_id_bits dtag_bits window_bits fcn_bits rcs_bits =
     (if mtu = 0 then Inl InvalidMtu
      else case Option.bind (Option.bind (Option.bind (checked_add rule_id_bits dtag_bits)
                  (\<lambda>bits. checked_add bits window_bits)) (\<lambda>bits. checked_add bits fcn_bits))
                  (\<lambda>bits. checked_add bits rcs_bits) of
        None \<Rightarrow> Inl ArithmeticOverflow
      | Some overhead_bits \<Rightarrow>
          (case checked_mul mtu 8 of
             None \<Rightarrow> Inl ArithmeticOverflow
           | Some available_bits \<Rightarrow>
               if available_bits < overhead_bits then Inl NoPayload
               else let payload_bytes = (available_bits - overhead_bits) div 8 in
                    if payload_bytes = 0 then Inl NoPayload else Inr payload_bytes))"

definition tile_size_for_mtu ::
  "u64 \<Rightarrow> u64 \<Rightarrow> u64 \<Rightarrow> u64 \<Rightarrow> u64 \<Rightarrow> u64 \<Rightarrow> tile_size_error + u64" where
  "tile_size_for_mtu mtu rule_id_bits dtag_bits window_bits fcn_bits rcs_bits =
     res_bind (fragment_payload_capacity mtu rule_id_bits dtag_bits window_bits fcn_bits 0)
       (\<lambda>regular. res_bind (fragment_payload_capacity mtu rule_id_bits dtag_bits window_bits fcn_bits rcs_bits)
         (\<lambda>terminal. Inr (min regular terminal)))"

section \<open>Errors and rules\<close>

record ack =
  ack_rule_id :: u8
  ack_window :: u8
  ack_bitmap :: u64
  ack_complete :: bool

datatype receiver_response = RespAck ack | RespReceiverAbort u8

datatype fragment_error =
    SfTooShort too_short
  | SfBufferTooSmall buffer_too_small
  | UnsupportedRule
  | InvalidWindow
  | InvalidFcn
  | InvalidTileLength
  | InvalidRcs
  | NonZeroPadding
  | MalformedAck
  | NonCanonicalAck
  | UnassignedBitmapBit
  | EmptyPacket
  | InvalidReceiverLimit
  | PacketTooLarge
  | SfInvalidState
  | VersionMismatch
  | PolicyFull
  | InvalidPeerEvidence
  | SessionBusy
  | ReceiverAllocationRejected receiver_response
  | InvalidPersistentState
  | PersistentRollback

definition check_rule :: "u8 \<Rightarrow> fragment_error + unit" where
  "check_rule rule_id =
     (if rule_id = RULE_ID_A_TO_B \<or> rule_id = RULE_ID_B_TO_A then Inr () else Inl UnsupportedRule)"

text \<open>\<open><[u8; 32]>::cmp\<close> is the lexicographic order of unsigned octets.\<close>

fun bytes_cmp :: "bytes \<Rightarrow> bytes \<Rightarrow> rordering" where
  "bytes_cmp [] [] = OEqual"
| "bytes_cmp [] (_ # _) = OLess"
| "bytes_cmp (_ # _) [] = OGreater"
| "bytes_cmp (a # as) (b # bs) = (if a < b then OLess else if b < a then OGreater else bytes_cmp as bs)"

definition canonical_fragmentation_rule :: "bytes \<Rightarrow> bytes \<Rightarrow> bool \<Rightarrow> fragment_error + u8" where
  "canonical_fragmentation_rule local_signer remote_signer outbound =
     (case bytes_cmp local_signer remote_signer of
        OLess \<Rightarrow> Inr (if outbound then RULE_ID_A_TO_B else RULE_ID_B_TO_A)
      | OGreater \<Rightarrow> Inr (if outbound then RULE_ID_B_TO_A else RULE_ID_A_TO_B)
      | OEqual \<Rightarrow> Inl InvalidPeerEvidence)"

section \<open>Integrity check\<close>

definition mic_bit :: "u32 \<Rightarrow> u32" where
  "mic_bit crc = (if crc AND 1 = 0 then drop_bit 1 crc else drop_bit 1 crc XOR 0xedb88320)"

definition mic_byte :: "u32 \<Rightarrow> u8 \<Rightarrow> u32" where
  "mic_byte crc byte = (mic_bit ^^ 8) (crc XOR ucast byte)"

definition compute_mic :: "bytes \<Rightarrow> bytes" where
  "compute_mic data = be_bytes 4 (NOT (foldl mic_byte 0xffffffff (data @ [0])))"

section \<open>Fragments\<close>

record fragment =
  fr_rule_id :: u8
  fr_window :: u8
  fr_fcn :: u8
  fr_payload :: bytes
  fr_mic :: bytes

definition is_all_1 :: "fragment \<Rightarrow> bool" where
  "is_all_1 f \<longleftrightarrow> fr_fcn f = ALL_1_FCN"

definition is_all_0 :: "fragment \<Rightarrow> bool" where
  "is_all_0 f \<longleftrightarrow> fr_fcn f = 0"

text \<open>\<open>out[1 + index] |= byte >> 7; out[2 + index] = byte << 1; index += 1\<close>.\<close>

definition pack_byte :: "bytes \<times> nat \<Rightarrow> u8 \<Rightarrow> bytes \<times> nat" where
  "pack_byte s byte =
     (case s of (out, index) \<Rightarrow>
        (out[1 + index := out ! (1 + index) OR drop_bit 7 byte, 2 + index := push_bit 1 byte], index + 1))"

definition fragment_write_to :: "fragment \<Rightarrow> bytes \<Rightarrow> fragment_error + (bytes \<times> nat)" where
  "fragment_write_to f out =
     res_bind (check_rule (fr_rule_id f)) (\<lambda>_.
       if fr_window f > 1 then Inl InvalidWindow
       else if fr_fcn f > ALL_1_FCN then Inl InvalidFcn
       else if is_all_1 f \<and> \<not> (1 \<le> length (fr_payload f) \<and> length (fr_payload f) \<le> TILE_SIZE) then Inl InvalidTileLength
       else if \<not> is_all_1 f \<and> (length (fr_payload f) \<noteq> TILE_SIZE \<or> fr_mic f \<noteq> replicate MIC_LENGTH 0) then Inl InvalidTileLength
       else if \<not> is_all_1 f \<and> fr_window f = 1 \<and> is_all_0 f then Inl InvalidFcn
       else
         let content_len = length (fr_payload f) + (if is_all_1 f then MIC_LENGTH else 0);
             needed = content_len + 2 in
         if length out < needed then Inl (SfBufferTooSmall (mk_buffer_too_small needed (length out)))
         else
           let out = splice out 0 (replicate needed 0);
               out = out[0 := fr_rule_id f];
               out = out[1 := push_bit 7 (fr_window f AND 1) OR push_bit 1 (fr_fcn f AND (push_bit FRAGMENT_N 1 - 1))];
               (out, index) = (if is_all_1 f then foldl pack_byte (out, 0) (fr_mic f) else (out, 0));
               (out, index) = foldl pack_byte (out, index) (fr_payload f)
           in Inr (out, needed))"

definition unpack_at :: "bytes \<Rightarrow> nat \<Rightarrow> u8" where
  "unpack_at data wire = push_bit 7 (data ! wire) OR drop_bit 1 (data ! (wire + 1))"

text \<open>The caller's tile buffer only matters by its length \<open>out_len\<close>; the payload is what was written to it.\<close>

definition fragment_from_bytes :: "bytes \<Rightarrow> nat \<Rightarrow> fragment_error + fragment" where
  "fragment_from_bytes data out_len =
     (if length data < 2 then Inl (SfTooShort (mk_too_short 2 (length data)))
      else if length data > MAX_FRAGMENT_WIRE_SIZE then Inl InvalidTileLength
      else
        let rule_id = data ! 0;
            window = drop_bit 7 (data ! 1) AND 1;
            fcn = drop_bit 1 (data ! 1) AND (push_bit FRAGMENT_N 1 - 1);
            content_len = length data - 2;
            content_offset = (if fcn = ALL_1_FCN then MIC_LENGTH else 0);
            decoded = (if fcn = ALL_1_FCN then
                         (if \<not> (MIC_LENGTH + 1 \<le> content_len \<and> content_len \<le> MIC_LENGTH + TILE_SIZE) then Inl InvalidTileLength
                          else Inr (content_len - content_offset))
                       else if length data \<noteq> TILE_SIZE + 2 then Inl InvalidTileLength
                       else if window = 1 \<and> fcn = 0 then Inl InvalidFcn
                       else Inr TILE_SIZE)
        in res_bind decoded (\<lambda>payload_len.
          if out_len < payload_len then Inl (SfBufferTooSmall (mk_buffer_too_small payload_len out_len))
          else if fcn \<noteq> ALL_1_FCN \<and> (data ! (length data - 1)) AND 1 \<noteq> 0 then Inl NonZeroPadding
          else Inr \<lparr>fr_rule_id = rule_id, fr_window = window, fr_fcn = fcn,
                    fr_payload = map (\<lambda>i. unpack_at data (1 + content_offset + i)) [0..<payload_len],
                    fr_mic = (if fcn = ALL_1_FCN then map (\<lambda>i. unpack_at data (1 + i)) [0..<MIC_LENGTH]
                              else replicate MIC_LENGTH 0)\<rparr>))"

definition is_receiver_session_opener :: "bytes \<Rightarrow> u8 \<Rightarrow> bool" where
  "is_receiver_session_opener payload rule_id =
     (case fragment_from_bytes payload TILE_SIZE of
        Inr f \<Rightarrow> fr_rule_id f = rule_id \<and> fr_window f = 0 \<and> fr_fcn f = of_nat WINDOW_SIZE - 1 \<and> \<not> is_all_1 f
      | Inl _ \<Rightarrow> False)"

section \<open>Acknowledgements\<close>

definition ack_new :: "u8 \<Rightarrow> u8 \<Rightarrow> u64 \<Rightarrow> bool \<Rightarrow> ack" where
  "ack_new rule_id window bitmap complete =
     \<lparr>ack_rule_id = rule_id, ack_window = window, ack_bitmap = bitmap AND BITMAP_MASK, ack_complete = complete\<rparr>"

definition trailing_ones :: "u64 \<Rightarrow> nat" where
  "trailing_ones w = length (takeWhile (bit w) [0..<64])"

definition trailing_zeros :: "u64 \<Rightarrow> nat" where
  "trailing_zeros w = length (takeWhile (\<lambda>i. \<not> bit w i) [0..<64])"

definition count_ones :: "u64 \<Rightarrow> nat" where
  "count_ones w = length (filter (bit w) [0..<64])"

definition div_ceil :: "nat \<Rightarrow> nat \<Rightarrow> nat" where
  "div_ceil a b = (if a mod b = 0 then a div b else a div b + 1)"

definition or_bit :: "nat \<Rightarrow> nat \<Rightarrow> bytes \<Rightarrow> bytes" where
  "or_bit k b out = out[k := out ! k OR push_bit b 1]"

definition ack_fill_first :: "u64 \<Rightarrow> bytes \<Rightarrow> nat \<Rightarrow> bytes" where
  "ack_fill_first bitmap out i = (if bitmap AND push_bit (62 - i) 1 \<noteq> 0 then or_bit 1 (5 - i) out else out)"

definition ack_fill_rest :: "u64 \<Rightarrow> bytes \<Rightarrow> nat \<Rightarrow> bytes" where
  "ack_fill_rest bitmap out i =
     (if bitmap AND push_bit (56 - i) 1 \<noteq> 0 then or_bit (2 + i div 8) (7 - i mod 8) out else out)"

definition ack_restore :: "bytes \<Rightarrow> nat \<Rightarrow> bytes" where
  "ack_restore out i =
     (if i < 6 then or_bit 1 (5 - i) out else or_bit (2 + (i - 6) div 8) (7 - (i - 6) mod 8) out)"

definition ack_write_to :: "ack \<Rightarrow> bytes \<Rightarrow> fragment_error + (bytes \<times> nat)" where
  "ack_write_to a out =
     res_bind (check_rule (ack_rule_id a)) (\<lambda>_.
       if ack_window a > 1 then Inl InvalidWindow
       else if ack_complete a then
         (if ack_bitmap a \<noteq> 0 then Inl MalformedAck
          else if length out < 2 then Inl (SfBufferTooSmall (mk_buffer_too_small 2 (length out)))
          else Inr (out[0 := ack_rule_id a, 1 := push_bit 7 (ack_window a) OR 0x40], 2))
       else
         let trailing = trailing_ones (ack_bitmap a AND BITMAP_MASK);
             n = WINDOW_SIZE - trailing;
             remaining = n - 6;
             body_bytes = div_ceil remaining 8;
             needed = 2 + body_bytes in
         if length out < needed then Inl (SfBufferTooSmall (mk_buffer_too_small needed (length out)))
         else
           let out = splice out 0 (replicate needed 0);
               out = out[0 := ack_rule_id a];
               out = out[1 := push_bit 7 (ack_window a)];
               out = foldl (ack_fill_first (ack_bitmap a)) out [0..<min n 6];
               out = foldl (ack_fill_rest (ack_bitmap a)) out [0..<remaining];
               out = (if trailing > 0 then foldl ack_restore out [n..<6 + body_bytes * 8] else out)
           in Inr (out, needed))"

definition ack_read_bit :: "bytes \<Rightarrow> nat \<Rightarrow> bool" where
  "ack_read_bit data i =
     (if i < 6 then drop_bit (5 - i) (data ! 1) AND 1 \<noteq> 0
      else drop_bit (7 - (i - 6) mod 8) (data ! (2 + (i - 6) div 8)) AND 1 \<noteq> 0)"

definition ack_read_bitmap :: "bytes \<Rightarrow> u64" where
  "ack_read_bitmap data =
     (let total_bits = 6 + (length data - 2) * 8;
          bitmap = foldl (\<lambda>bm i. if ack_read_bit data i then bm OR push_bit (62 - i) 1 else bm) 0 [0..<min total_bits 63];
          bitmap = (if total_bits < 63 then bitmap OR (push_bit (63 - total_bits) 1 - 1) else bitmap)
      in bitmap AND BITMAP_MASK)"

definition ack_from_bytes_for :: "bytes \<Rightarrow> u64 option \<Rightarrow> fragment_error + ack" where
  "ack_from_bytes_for data assigned =
     (if length data < 2 then Inl (SfTooShort (mk_too_short 2 (length data)))
      else if length data > 10 then Inl MalformedAck
      else if (data ! 1) AND 0x40 \<noteq> 0 then
        (if length data \<noteq> 2 then Inl MalformedAck
         else let a = ack_new (data ! 0) (drop_bit 7 (data ! 1) AND 1) 0 True in
              res_bind (ack_write_to a (replicate 2 0)) (\<lambda>(canonical, len).
                if take len canonical \<noteq> data then Inl NonCanonicalAck else Inr a))
      else
        let bitmap = ack_read_bitmap data;
            trailing = trailing_ones (bitmap AND BITMAP_MASK);
            n = WINDOW_SIZE - trailing;
            remaining = n - 6;
            body_bytes = div_ceil remaining 8;
            expected_len = 2 + body_bytes in
        if n > WINDOW_SIZE then Inl MalformedAck
        else if expected_len \<noteq> length data then Inl NonCanonicalAck
        else
          let a = ack_new (data ! 0) (drop_bit 7 (data ! 1) AND 1) bitmap False in
          res_bind (ack_write_to a (replicate 10 0)) (\<lambda>(canonical, len).
            if take len canonical \<noteq> data then Inl NonCanonicalAck
            else if (case assigned of Some msk \<Rightarrow> bitmap AND NOT msk AND BITMAP_MASK \<noteq> 0 | None \<Rightarrow> False)
            then Inl UnassignedBitmapBit
            else Inr a))"

definition ack_from_bytes :: "bytes \<Rightarrow> fragment_error + ack" where
  "ack_from_bytes data = ack_from_bytes_for data None"

section \<open>Control messages\<close>

datatype control = CtlAckRequest u8 u8 | CtlSenderAbort u8 | CtlReceiverAbort u8

definition control_write_to :: "control \<Rightarrow> bytes \<Rightarrow> fragment_error + (bytes \<times> nat)" where
  "control_write_to c out =
     res_bind (case c of
         CtlAckRequest rule_id window \<Rightarrow>
           if window \<le> 1 then Inr (rule_id, push_bit 7 window, 2) else Inl InvalidWindow
       | CtlSenderAbort rule_id \<Rightarrow> Inr (rule_id, 0xfe, 2)
       | CtlReceiverAbort rule_id \<Rightarrow> Inr (rule_id, 0xff, 3 :: nat))
       (\<lambda>(rule_id, body, needed).
         res_bind (check_rule rule_id) (\<lambda>_.
           if length out < needed then Inl (SfBufferTooSmall (mk_buffer_too_small needed (length out)))
           else let out = out[0 := rule_id, 1 := body];
                    out = (if needed = 3 then out[2 := 0xff] else out)
                in Inr (out, needed)))"

text \<open>The bytes a control message leaves at the front of a three-byte scratch buffer.\<close>

definition control_bytes :: "control \<Rightarrow> fragment_error + bytes" where
  "control_bytes c = res_bind (control_write_to c (replicate 3 0)) (\<lambda>(out, n). Inr (take n out))"

definition is_sender_facing_control :: "bytes \<Rightarrow> u8 \<Rightarrow> fragment_error + bool" where
  "is_sender_facing_control data rule_id =
     res_bind (control_bytes (CtlReceiverAbort rule_id)) (\<lambda>c.
       if data = c then Inr True
       else res_bind (control_bytes (CtlSenderAbort rule_id)) (\<lambda>c.
         if data = c then Inr False
         else
           let window = drop_bit 7 (case data of _ # b # _ \<Rightarrow> b | _ \<Rightarrow> 0) in
           res_bind (control_bytes (CtlAckRequest rule_id window)) (\<lambda>c.
             if data = c then Inr False
             else Inr (case ack_from_bytes data of Inr _ \<Rightarrow> True | Inl _ \<Rightarrow> False))))"

section \<open>Packing and unpacking\<close>

fun pack_wire :: "u8 \<Rightarrow> bytes \<Rightarrow> bytes" where
  "pack_wire h [] = [h]"
| "pack_wire h (b # bs) = (h OR drop_bit 7 b) # pack_wire (push_bit 1 b) bs"

lemma length_pack_wire [simp]: "length (pack_wire h bs) = Suc (length bs)"
  by (induction bs arbitrary: h) auto

lemma pack_wire_foldl:
  assumes "length pre = 1 + i" and "length bs \<le> length rest"
  shows "foldl pack_byte (pre @ h # rest, i) bs = (pre @ pack_wire h bs @ drop (length bs) rest, i + length bs)"
  using assms
proof (induction bs arbitrary: pre i h rest)
  case (Cons b bs)
  then obtain z rest' where r: "rest = z # rest'" by (cases rest) auto
  have "pack_byte (pre @ h # rest, i) b = ((pre @ [h OR drop_bit 7 b]) @ push_bit 1 b # rest', Suc i)"
    using Cons.prems r unfolding pack_byte_def
    by (simp add: list_update_append nth_append)
  then show ?case
    using Cons.IH [of "pre @ [h OR drop_bit 7 b]" "Suc i" rest' "push_bit 1 b"] Cons.prems r by simp
qed simp

lemma u8_eqI: "(\<And>n. n < 8 \<Longrightarrow> bit a n = bit b n) \<Longrightarrow> a = (b :: u8)"
  by (rule bit_word_eqI) simp

lemma unpack_adjacent:
  fixes h b c :: u8
  assumes "\<not> bit h 0"
  shows "push_bit 7 (h OR drop_bit 7 b) OR drop_bit 1 (push_bit 1 b OR drop_bit 7 c) = b"
proof (rule u8_eqI)
  fix n :: nat assume "n < 8"
  moreover from this have "n \<noteq> 7 \<Longrightarrow> n < 7" by simp
  ultimately show "bit (push_bit 7 (h OR drop_bit 7 b) OR drop_bit 1 (push_bit 1 b OR drop_bit 7 c)) n = bit b n"
    using assms bit_imp_le_length [of c] unfolding bit_or_iff bit_push_bit_iff bit_drop_bit_eq comp_apply
    by (cases "n = 7") force+
qed

lemma unpack_last:
  fixes h b :: u8
  assumes "\<not> bit h 0"
  shows "push_bit 7 (h OR drop_bit 7 b) OR drop_bit 1 (push_bit 1 b) = b"
  using unpack_adjacent [OF assms, of b 0] by simp

lemma not_bit_push_1 [simp]: "\<not> bit (push_bit (Suc 0) b :: u8) 0"
  unfolding bit_push_bit_iff by simp

lemma unpack_pack_wire:
  assumes "\<not> bit h 0" and "i < length bs" and "length pre = k"
  shows "unpack_at (pre @ pack_wire h bs @ junk) (k + i) = bs ! i"
  using assms
proof (induction bs arbitrary: h i pre k)
  case (Cons b bs)
  show ?case
  proof (cases i)
    case 0
    have "unpack_at (pre @ pack_wire h (b # bs) @ junk) k = b"
      using Cons.prems unpack_adjacent [OF Cons.prems(1), of b] unpack_last [OF Cons.prems(1), of b]
      by (cases bs) (auto simp: unpack_at_def nth_append)
    then show ?thesis using 0 by simp
  next
    case (Suc j)
    have "unpack_at ((pre @ [h OR drop_bit 7 b]) @ pack_wire (push_bit 1 b) bs @ junk) (Suc k + j) = bs ! j"
      using Cons.prems Suc by (intro Cons.IH) (auto simp del: push_bit_Suc)
    then show ?thesis using Suc by simp
  qed
qed simp

lemma pack_wire_header: "drop_bit 1 (hd (pack_wire h bs)) = drop_bit 1 h"
  by (cases bs) (auto intro!: u8_eqI simp: bit_simps)

lemma push_1_and_1: "push_bit 1 b AND 1 = (0 :: u8)"
proof (rule u8_eqI)
  fix n show "bit (push_bit 1 b AND 1) n = bit (0 :: u8) n"
    unfolding bit_and_iff bit_push_bit_iff by (simp add: bit_1_iff)
qed

lemma pack_wire_padding: "bs \<noteq> [] \<Longrightarrow> last (pack_wire h bs) AND 1 = 0"
proof (induction bs arbitrary: h)
  case (Cons b bs)
  show ?case
  proof (cases bs)
    case Nil
    then have "last (pack_wire h (b # bs)) = push_bit 1 b" by (metis last.simps list.simps(3) pack_wire.simps)
    then show ?thesis using push_1_and_1 by metis
  next
    case (Cons c cs)
    then have "last (pack_wire h (b # bs)) = last (pack_wire (push_bit 1 b) bs)"
      by (metis last_ConsR length_0_conv length_pack_wire nat.simps(3) pack_wire.simps(2))
    then show ?thesis using Cons.IH [of "push_bit 1 b"] Cons by (metis list.simps(3))
  qed
qed simp

lemmas schc_consts =
  FRAGMENT_N_def ALL_1_FCN_def MIC_LENGTH_def MAX_ACK_REQUESTS_def FRAGMENT_HEADER_BITS_def
  FRAGMENT_ENVELOPE_MTU_def TILE_SIZE_def WINDOW_SIZE_def MAX_PACKET_SIZE_def MAX_FRAGMENT_WIRE_SIZE_def

definition fragment_content :: "fragment \<Rightarrow> bytes" where
  "fragment_content f = (if is_all_1 f then fr_mic f @ fr_payload f else fr_payload f)"

definition fragment_header :: "fragment \<Rightarrow> u8" where
  "fragment_header f = push_bit 7 (fr_window f AND 1) OR push_bit 1 (fr_fcn f AND (push_bit FRAGMENT_N 1 - 1))"

definition fragment_ok :: "fragment \<Rightarrow> bool" where
  "fragment_ok f \<longleftrightarrow> check_rule (fr_rule_id f) = Inr () \<and> fr_window f \<le> 1 \<and> fr_fcn f \<le> ALL_1_FCN \<and>
     length (fr_mic f) = MIC_LENGTH \<and>
     (if is_all_1 f then 1 \<le> length (fr_payload f) \<and> length (fr_payload f) \<le> TILE_SIZE
      else length (fr_payload f) = TILE_SIZE \<and> fr_mic f = replicate MIC_LENGTH 0 \<and> \<not> (fr_window f = 1 \<and> is_all_0 f))"

definition fragment_wire :: "fragment \<Rightarrow> bytes" where
  "fragment_wire f = fr_rule_id f # pack_wire (fragment_header f) (fragment_content f)"

lemma length_fragment_wire [simp]: "length (fragment_wire f) = length (fragment_content f) + 2"
  by (simp add: fragment_wire_def)

lemma fragment_content_length:
  "fragment_ok f \<Longrightarrow> length (fr_payload f) + (if is_all_1 f then MIC_LENGTH else 0) = length (fragment_content f)"
  by (simp add: fragment_content_def fragment_ok_def)

lemma pack_wire_not_Nil [simp]: "pack_wire h bs \<noteq> []"
  by (cases bs) auto

lemma fragment_write_to_valid:
  assumes f: "fragment_ok f"
  shows "fragment_write_to f out =
    (if length out < length (fragment_wire f)
     then Inl (SfBufferTooSmall (mk_buffer_too_small (length (fragment_wire f)) (length out)))
     else Inr (splice out 0 (fragment_wire f), length (fragment_wire f)))"
proof -
  let ?n = "length (fragment_content f) + 2"
  have init: "(splice out 0 (replicate ?n 0))[0 := fr_rule_id f, 1 := fragment_header f]
      = [fr_rule_id f] @ fragment_header f # (replicate (length (fragment_content f)) 0 @ drop ?n out)"
    by (simp add: splice_def numeral_2_eq_2)
  have fold: "foldl pack_byte ((splice out 0 (replicate ?n 0))[0 := fr_rule_id f, 1 := fragment_header f], 0) (fragment_content f)
      = (splice out 0 (fragment_wire f), length (fragment_content f))"
    unfolding init by (subst pack_wire_foldl) (auto simp: fragment_wire_def splice_def)
  have split: "(case (if is_all_1 f then foldl pack_byte (x, 0) (fr_mic f) else (x, 0)) of
      (out, index) \<Rightarrow> foldl pack_byte (out, index) (fr_payload f)) = foldl pack_byte (x, 0) (fragment_content f)" for x
    by (simp add: fragment_content_def split: prod.split)
  have ok: "check_rule (fr_rule_id f) = Inr ()" "\<not> fr_window f > 1" "\<not> fr_fcn f > ALL_1_FCN"
      "\<not> (is_all_1 f \<and> \<not> (1 \<le> length (fr_payload f) \<and> length (fr_payload f) \<le> TILE_SIZE))"
      "\<not> (\<not> is_all_1 f \<and> (length (fr_payload f) \<noteq> TILE_SIZE \<or> fr_mic f \<noteq> replicate MIC_LENGTH 0))"
      "\<not> (\<not> is_all_1 f \<and> fr_window f = 1 \<and> is_all_0 f)"
    using f by (auto simp: fragment_ok_def split: if_splits)
  have body: "(case (if is_all_1 f then foldl pack_byte (x, 0) (fr_mic f) else (x, 0)) of
      (out, index) \<Rightarrow> case foldl pack_byte (out, index) (fr_payload f) of (out, index) \<Rightarrow> Inr (out, n))
    = Inr (fst (foldl pack_byte (x, 0) (fragment_content f)), n)" for x n
    unfolding split [symmetric] by (simp split: prod.split)
  show ?thesis
    by (simp only: fragment_write_to_def fragment_content_length [OF f] Let_def ok if_False res_bind.simps
      length_fragment_wire fragment_header_def [symmetric] body fold fst_conv)
qed

lemma all_1_fcn: "ALL_1_FCN = 63" and fcn_mask: "push_bit FRAGMENT_N 1 - 1 = (mask 6 :: u8)"
  by (code_simp+)

lemma u8_low_bits:
  assumes "unat (x :: u8) < 2 ^ k" and "bit x n"
  shows "n < k"
proof (rule ccontr)
  assume "\<not> n < k"
  then have "2 ^ k \<le> (2 :: nat) ^ n" by simp
  moreover have "take_bit n (unat x) = unat x"
    using assms calculation by (intro take_bit_nat_eq_self) linarith
  then have "\<not> bit (unat x) n" by (metis bit_take_bit_iff less_irrefl)
  ultimately show False using assms by (simp add: bit_unsigned_iff)
qed

lemma fragment_header_fields:
  assumes w: "fr_window f \<le> 1" and c: "fr_fcn f \<le> ALL_1_FCN" and h: "drop_bit 1 h = drop_bit 1 (fragment_header f)"
  shows "drop_bit 7 h AND 1 = fr_window f" and "drop_bit 1 h AND (push_bit FRAGMENT_N 1 - 1) = fr_fcn f"
    and "\<not> bit (fragment_header f) 0"
proof -
  have wb: "bit (fr_window f) n \<Longrightarrow> n < 1" for n
    using w u8_low_bits [of "fr_window f" 1 n] by (simp add: word_le_nat_alt)
  have cb: "bit (fr_fcn f) n \<Longrightarrow> n < 6" for n
    using c u8_low_bits [of "fr_fcn f" 6 n] by (simp add: word_le_nat_alt all_1_fcn)
  have bits: "bit (fragment_header f) n \<longleftrightarrow> n < 8 \<and> (n = 7 \<and> bit (fr_window f) 0 \<or> 1 \<le> n \<and> bit (fr_fcn f) (n - 1))" for n
    unfolding fragment_header_def fcn_mask bit_or_iff bit_push_bit_iff bit_and_iff bit_mask_iff bit_1_iff
    using wb cb [of "n - 1"] by auto
  have "bit h (Suc n) = bit (fragment_header f) (Suc n)" for n
    using arg_cong [OF h, of "\<lambda>x. bit x n"] by (simp add: bit_drop_bit_eq)
  then have hb: "1 \<le> n \<Longrightarrow> bit h n = bit (fragment_header f) n" for n by (cases n) auto
  show "\<not> bit (fragment_header f) 0" by (simp add: bits)
  show "drop_bit 7 h AND 1 = fr_window f"
  proof (rule u8_eqI)
    fix n show "bit (drop_bit 7 h AND 1) n = bit (fr_window f) n"
      unfolding bit_and_iff bit_drop_bit_eq comp_apply bit_1_iff using hb [of "7 + n"] wb [of n] cb [of 6]
      by (cases n) (auto simp: bits)
  qed
  show "drop_bit 1 h AND (push_bit FRAGMENT_N 1 - 1) = fr_fcn f"
  proof (rule u8_eqI)
    fix n show "bit (drop_bit 1 h AND (push_bit FRAGMENT_N 1 - 1)) n = bit (fr_fcn f) n"
      unfolding fcn_mask bit_and_iff bit_drop_bit_eq comp_apply bit_mask_iff using hb [of "1 + n"] cb [of n]
      by (auto simp: bits)
  qed
qed

lemma fragment_from_bytes_wire:
  assumes f: "fragment_ok f" and out: "TILE_SIZE \<le> out_len"
  shows "fragment_from_bytes (fragment_wire f) out_len = Inr f"
proof -
  let ?d = "fragment_wire f"
  have hd: "?d ! 0 = fr_rule_id f" and d1: "?d ! 1 = hd (pack_wire (fragment_header f) (fragment_content f))"
    unfolding fragment_wire_def by (auto simp: hd_conv_nth simp flip: length_0_conv)
  have "drop_bit 1 (?d ! 1) = drop_bit 1 (fragment_header f)"
    unfolding d1 by (rule pack_wire_header)
  note flds = fragment_header_fields [OF _ _ this]
  have win: "drop_bit 7 (?d ! 1) AND 1 = fr_window f"
    and fcn: "drop_bit 1 (?d ! 1) AND (push_bit FRAGMENT_N 1 - 1) = fr_fcn f"
    and h0: "\<not> bit (fragment_header f) 0"
    using f flds by (auto simp: fragment_ok_def)
  have get: "unpack_at ?d (1 + i) = fragment_content f ! i" if "i < length (fragment_content f)" for i
    using unpack_pack_wire [OF h0 that, of "[fr_rule_id f]" 1 "[]"] by (simp add: fragment_wire_def)
  show ?thesis
  proof (cases "is_all_1 f")
    case True
    then have c: "fragment_content f = fr_mic f @ fr_payload f" "fr_fcn f = ALL_1_FCN" "length (fr_mic f) = MIC_LENGTH"
        "1 \<le> length (fr_payload f)" "length (fr_payload f) \<le> TILE_SIZE"
      using f by (auto simp: fragment_content_def fragment_ok_def is_all_1_def)
    have "map (\<lambda>i. unpack_at ?d (1 + i)) [0..<MIC_LENGTH] = fr_mic f"
      using c by (intro nth_equalityI) (auto simp: get [simplified] nth_append)
    moreover have "map (\<lambda>i. unpack_at ?d (1 + MIC_LENGTH + i)) [0..<length (fr_payload f)] = fr_payload f"
      using c get [of "MIC_LENGTH + _"] by (intro nth_equalityI) (auto simp: nth_append add.assoc)
    ultimately show ?thesis
      using c out unfolding fragment_from_bytes_def Let_def win fcn hd
      by (simp add: MAX_FRAGMENT_WIRE_SIZE_def del: upt_conv_Cons)
  next
    case False
    then have c: "fragment_content f = fr_payload f" "fr_fcn f \<noteq> ALL_1_FCN" "fr_mic f = replicate MIC_LENGTH 0"
        "length (fr_payload f) = TILE_SIZE" "\<not> (fr_window f = 1 \<and> fr_fcn f = 0)"
      using f by (auto simp: fragment_content_def fragment_ok_def is_all_1_def is_all_0_def)
    have "map (\<lambda>i. unpack_at ?d (1 + i)) [0..<TILE_SIZE] = fr_payload f"
      using c by (intro nth_equalityI) (auto simp: get [simplified])
    moreover have "?d ! (length ?d - 1) AND 1 = 0"
    proof -
      have "fragment_content f \<noteq> []" using c by (auto simp: schc_consts)
      then have "last ?d AND 1 = 0" using pack_wire_padding by (simp add: fragment_wire_def)
      then show ?thesis by (subst (asm) last_conv_nth) (auto simp: fragment_wire_def)
    qed
    ultimately show ?thesis
      using c out unfolding fragment_from_bytes_def Let_def win fcn hd
      by (simp add: MAX_FRAGMENT_WIRE_SIZE_def del: upt_conv_Cons)
  qed
qed

interpretation schc_fragment_codec:
  wire_codec fragment_write_to "\<lambda>data. fragment_from_bytes data TILE_SIZE" fragment_wire fragment_ok
  by unfold_locales (auto simp: fragment_write_to_valid fragment_from_bytes_wire)

section \<open>The bitmap of an acknowledgement\<close>

definition ack_bit :: "bytes \<Rightarrow> nat \<Rightarrow> bool" where
  "ack_bit out i = (if i < 6 then bit (out ! 1) (5 - i) else bit (out ! (2 + (i - 6) div 8)) (7 - (i - 6) mod 8))"

lemma and_push_1_iff: "w AND push_bit k 1 = (0 :: 'a::len word) \<longleftrightarrow> \<not> bit w k"
  by (simp add: and_exp_eq_0_iff_not_bit)

lemma drop_and_1_iff: "drop_bit k w AND 1 \<noteq> (0 :: 'a::len word) \<longleftrightarrow> bit w k"
  by (simp add: and_one_eq mod_2_eq_odd bit_iff_odd_drop_bit)

lemma ack_read_bit_iff: "ack_read_bit data i = ack_bit data i"
  by (simp add: ack_read_bit_def ack_bit_def drop_and_1_iff)

lemma ack_fill_first_eq: "i < 6 \<Longrightarrow> ack_fill_first bm out i = (if bit bm (62 - i) then ack_restore out i else out)"
  by (simp only: ack_fill_first_def ack_restore_def and_push_1_iff) simp

lemma ack_fill_rest_eq: "ack_fill_rest bm out i = (if bit bm (62 - (i + 6)) then ack_restore out (i + 6) else out)"
  by (simp only: ack_fill_rest_def ack_restore_def and_push_1_iff) simp

definition ack_in_range :: "bytes \<Rightarrow> nat \<Rightarrow> bool" where
  "ack_in_range out i \<longleftrightarrow> i < 6 + (length out - 2) * 8 \<and> 2 \<le> length out"

lemma length_ack_restore [simp]: "length (ack_restore out i) = length out"
  by (simp add: ack_restore_def or_bit_def)

lemma ack_restore_nth_0 [simp]: "ack_restore out i ! 0 = out ! 0"
  by (simp add: ack_restore_def or_bit_def)

lemma bit_or_bit:
  "k < length out \<Longrightarrow> bit (or_bit k b out ! m) n \<longleftrightarrow> bit (out ! m) n \<or> m = k \<and> n = b \<and> b < 8"
  unfolding or_bit_def by (auto simp: nth_list_update bit_or_iff bit_exp_iff)

lemma ack_restore_top: "2 \<le> length out \<Longrightarrow> 6 \<le> b \<Longrightarrow> bit (ack_restore out i ! 1) b = bit (out ! 1) b"
  unfolding ack_restore_def by (auto simp: or_bit_def bit_or_iff bit_exp_iff)

lemma ack_in_range_index: "ack_in_range out i \<Longrightarrow> \<not> i < 6 \<Longrightarrow> 2 + (i - 6) div 8 < length out"
proof -
  assume "ack_in_range out i" "\<not> i < 6"
  then have "i - 6 < (length out - 2) * 8" "2 \<le> length out" unfolding ack_in_range_def by linarith+
  then have "(i - 6) div 8 < length out - 2" by (simp add: div_less_iff_less_mult)
  then show ?thesis by simp
qed

lemma or_bit_append: "k < length out \<Longrightarrow> or_bit k b (out @ tail) = or_bit k b out @ tail"
  by (simp add: or_bit_def nth_append list_update_append)

lemma ack_restore_append: "ack_in_range out i \<Longrightarrow> ack_restore (out @ tail) i = ack_restore out i @ tail"
  using ack_in_range_index [of out i] unfolding ack_restore_def
  by (cases "i < 6") (simp_all add: or_bit_append ack_in_range_def)

lemma ack_bit_restore:
  assumes "ack_in_range out i"
  shows "ack_bit (ack_restore out i) j \<longleftrightarrow> j = i \<or> ack_bit out j"
proof (cases "i < 6")
  case True
  have "1 < length out" using assms by (simp add: ack_in_range_def)
  moreover have "j < 6 \<Longrightarrow> 5 - j = 5 - i \<longleftrightarrow> j = i" using True by linarith
  ultimately show ?thesis
    using True unfolding ack_bit_def ack_restore_def by (cases "j < 6") (auto simp: bit_or_bit)
next
  case False
  note r = ack_in_range_index [OF assms False]
  have m: "7 - a = 7 - b \<longleftrightarrow> a = b" if "a < 8" "b < 8" for a b :: nat using that by linarith
  have "\<not> j < 6 \<Longrightarrow> (j - 6) div 8 = (i - 6) div 8 \<and> 7 - (j - 6) mod 8 = 7 - (i - 6) mod 8 \<longleftrightarrow> j = i"
  proof -
    assume j: "\<not> j < 6"
    have "(j - 6) div 8 = (i - 6) div 8 \<and> (j - 6) mod 8 = (i - 6) mod 8 \<longleftrightarrow> j - 6 = i - 6"
      by (metis div_mult_mod_eq)
    moreover have "j - 6 = i - 6 \<longleftrightarrow> j = i" using False j by linarith
    ultimately show ?thesis using m [of "(j - 6) mod 8" "(i - 6) mod 8"] by simp
  qed
  then show ?thesis
    using False r unfolding ack_bit_def ack_restore_def by (cases "j < 6") (auto simp: bit_or_bit)
qed

definition ack_restore_if :: "(nat \<Rightarrow> bool) \<Rightarrow> bytes \<Rightarrow> nat \<Rightarrow> bytes" where
  "ack_restore_if P out i = (if P i then ack_restore out i else out)"

lemma ack_restore_if_fold_all:
  assumes "\<forall>i\<in>set is. ack_in_range out i"
  shows "length (foldl (ack_restore_if P) out is) = length out \<and> foldl (ack_restore_if P) out is ! 0 = out ! 0 \<and>
    (2 \<le> length out \<longrightarrow> 6 \<le> b \<longrightarrow> bit (foldl (ack_restore_if P) out is ! 1) b = bit (out ! 1) b) \<and>
    (ack_bit (foldl (ack_restore_if P) out is) j \<longleftrightarrow> ack_bit out j \<or> j \<in> set is \<and> P j) \<and>
    foldl (ack_restore_if P) (out @ tail) is = foldl (ack_restore_if P) out is @ tail"
  using assms
proof (induction "is" arbitrary: out)
  case (Cons i js)
  have "\<forall>k\<in>set js. ack_in_range (ack_restore_if P out i) k"
    using Cons.prems by (auto simp: ack_in_range_def ack_restore_if_def)
  note IH = Cons.IH [OF this]
  have step: "length (ack_restore_if P out i) = length out" "ack_restore_if P out i ! 0 = out ! 0"
      "2 \<le> length out \<Longrightarrow> 6 \<le> b \<Longrightarrow> bit (ack_restore_if P out i ! 1) b = bit (out ! 1) b"
      "ack_bit (ack_restore_if P out i) j \<longleftrightarrow> ack_bit out j \<or> j = i \<and> P i"
      "ack_restore_if P (out @ tail) i = ack_restore_if P out i @ tail"
    using Cons.prems by (auto simp: ack_restore_if_def ack_bit_restore ack_restore_append ack_restore_top [simplified])
  show ?case
    unfolding foldl_Cons step(5) using IH step(1-4) by auto
qed simp

lemmas ack_restore_if_fold = ack_restore_if_fold_all [THEN conjunct1]
  ack_restore_if_fold_all [THEN conjunct2, THEN conjunct1]
  ack_restore_if_fold_all [THEN conjunct2, THEN conjunct2, THEN conjunct1, THEN mp, THEN mp]
  ack_restore_if_fold_all [THEN conjunct2, THEN conjunct2, THEN conjunct2, THEN conjunct1]
  ack_restore_if_fold_all [THEN conjunct2, THEN conjunct2, THEN conjunct2, THEN conjunct2]

lemma trailing_ones_spec:
  assumes "k < trailing_ones w" shows "bit w k" and "k < 64"
proof -
  have "k < 64" using assms length_takeWhile_le [of "bit w" "[0..<64]"] unfolding trailing_ones_def by simp
  moreover have "takeWhile (bit w) [0..<64] ! k = k"
    using assms calculation unfolding trailing_ones_def by (simp add: takeWhile_nth)
  ultimately show "k < 64" "bit w k"
    using assms set_takeWhileD [of k "bit w" "[0..<64]"] nth_mem [of k "takeWhile (bit w) [0..<64]"]
    unfolding trailing_ones_def by auto
qed

lemma bit_BITMAP_MASK: "bit BITMAP_MASK k \<longleftrightarrow> k < 63"
proof -
  have m: "BITMAP_MASK = mask 63" by (simp add: BITMAP_MASK_def WINDOW_SIZE_def mask_eq_decr_exp)
  show ?thesis unfolding m bit_mask_iff by auto
qed

lemma trailing_ones_le: "trailing_ones (w AND BITMAP_MASK) \<le> 63"
  using trailing_ones_spec(1) [of 63 "w AND BITMAP_MASK"] bit_BITMAP_MASK [of 63]
  unfolding bit_and_iff by linarith

definition ack_ok :: "ack \<Rightarrow> bool" where
  "ack_ok a \<longleftrightarrow> check_rule (ack_rule_id a) = Inr () \<and> ack_window a \<le> 1 \<and>
     ack_bitmap a AND BITMAP_MASK = ack_bitmap a \<and> (ack_complete a \<longrightarrow> ack_bitmap a = 0)"

definition ack_sent :: "ack \<Rightarrow> nat" where
  "ack_sent a = WINDOW_SIZE - trailing_ones (ack_bitmap a AND BITMAP_MASK)"

definition ack_body_bytes :: "ack \<Rightarrow> nat" where
  "ack_body_bytes a = div_ceil (ack_sent a - 6) 8"

definition ack_fill :: "ack \<Rightarrow> bytes \<Rightarrow> bytes" where
  "ack_fill a out =
     foldl (ack_restore_if (\<lambda>i. ack_sent a \<le> i \<or> bit (ack_bitmap a) (62 - i))) out
       ([0..<ack_sent a] @ (if ack_sent a < 63 then [ack_sent a..<6 + ack_body_bytes a * 8] else []))"

definition ack_wire :: "ack \<Rightarrow> bytes" where
  "ack_wire a =
     (if ack_complete a then [ack_rule_id a, push_bit 7 (ack_window a) OR 0x40]
      else ack_fill a (ack_rule_id a # push_bit 7 (ack_window a) # replicate (ack_body_bytes a) 0))"

lemma ack_body_bounds: "ack_sent a \<le> 6 + ack_body_bytes a * 8" "ack_body_bytes a \<le> 8" "ack_sent a \<le> 63"
proof -
  show s: "ack_sent a \<le> 63" by (simp add: ack_sent_def WINDOW_SIZE_def)
  have c: "x \<le> div_ceil x 8 * 8 \<and> (x \<le> 57 \<longrightarrow> div_ceil x 8 \<le> 8)" for x
    unfolding div_ceil_def using div_mult_mod_eq [of x 8] mod_less_divisor [of 8 x] by auto
  show "ack_sent a \<le> 6 + ack_body_bytes a * 8" "ack_body_bytes a \<le> 8"
    using s c [of "ack_sent a - 6"] unfolding ack_body_bytes_def by auto
qed

lemma ack_fill_loops:
  assumes "length out = 2 + ack_body_bytes a"
  shows "ack_fill a (out @ tail) = ack_fill a out @ tail"
    and "length (ack_fill a out) = length out"
    and "ack_fill a out ! 0 = out ! 0"
    and "6 \<le> b \<Longrightarrow> bit (ack_fill a out ! 1) b = bit (out ! 1) b"
    and "ack_bit (ack_fill a out) j \<longleftrightarrow> ack_bit out j \<or>
       (if j < ack_sent a then bit (ack_bitmap a) (62 - j) else ack_sent a < 63 \<and> j < 6 + ack_body_bytes a * 8)"
proof -
  let ?is = "[0..<ack_sent a] @ (if ack_sent a < 63 then [ack_sent a..<6 + ack_body_bytes a * 8] else [])"
  have r: "\<forall>i\<in>set ?is. ack_in_range out i"
    using assms ack_body_bounds [of a] by (auto simp: ack_in_range_def)
  show "ack_fill a (out @ tail) = ack_fill a out @ tail" unfolding ack_fill_def by (rule ack_restore_if_fold(5) [OF r])
  show "length (ack_fill a out) = length out" unfolding ack_fill_def by (rule ack_restore_if_fold(1) [OF r])
  show "ack_fill a out ! 0 = out ! 0" unfolding ack_fill_def by (rule ack_restore_if_fold(2) [OF r])
  show "6 \<le> b \<Longrightarrow> bit (ack_fill a out ! 1) b = bit (out ! 1) b"
    unfolding ack_fill_def using assms by (intro ack_restore_if_fold(3) [OF r]) auto
  show "ack_bit (ack_fill a out) j \<longleftrightarrow> ack_bit out j \<or>
       (if j < ack_sent a then bit (ack_bitmap a) (62 - j) else ack_sent a < 63 \<and> j < 6 + ack_body_bytes a * 8)"
    unfolding ack_fill_def ack_restore_if_fold(4) [OF r] using ack_body_bounds [of a] by (auto simp: not_less)
qed

lemma foldl_cong_list: "(\<And>s i. i \<in> set is \<Longrightarrow> f s i = g s i) \<Longrightarrow> foldl f s is = foldl g s is"
  by (induction "is" arbitrary: s) auto

lemma ack_fill_eq:
  assumes "trailing = trailing_ones (ack_bitmap a AND BITMAP_MASK)" and "n = ack_sent a"
  shows "(let out = foldl (ack_fill_first (ack_bitmap a)) out [0..<min n 6];
              out = foldl (ack_fill_rest (ack_bitmap a)) out [0..<n - 6]
          in if trailing > 0 then foldl ack_restore out [n..<6 + ack_body_bytes a * 8] else out) = ack_fill a out"
proof -
  let ?P = "\<lambda>i. ack_sent a \<le> i \<or> bit (ack_bitmap a) (62 - i)"
  have 1: "foldl (ack_fill_first (ack_bitmap a)) out [0..<min n 6] = foldl (ack_restore_if ?P) out [0..<min n 6]" for out
    using assms by (intro foldl_cong_list) (auto simp: ack_fill_first_eq ack_restore_if_def)
  have "[6..<n] = map (\<lambda>i. i + 6) [0..<n - 6]" by (cases "6 \<le> n") (auto simp: map_add_upt)
  then have 2: "foldl (ack_fill_rest (ack_bitmap a)) out [0..<n - 6] = foldl (ack_restore_if ?P) out [6..<n]" for out
    unfolding foldl_map using assms by (auto simp: foldl_map ack_fill_rest_eq ack_restore_if_def intro!: foldl_cong_list)
  have 3: "foldl ack_restore out [n..<m] = foldl (ack_restore_if ?P) out [n..<m]" for out m
    using assms by (intro foldl_cong_list) (auto simp: ack_restore_if_def)
  have t: "trailing > 0 \<longleftrightarrow> n < 63" using assms trailing_ones_le [of "ack_bitmap a"] by (auto simp: ack_sent_def WINDOW_SIZE_def)
  have "[0..<n] = [0..<min n 6] @ [6..<n]"
    using upt_add_eq_append [of 0 6 "n - 6"] by (cases "6 \<le> n") (simp_all add: min_def)
  then show ?thesis unfolding ack_fill_def Let_def 1 2 3 t using assms by simp
qed

lemma ack_write_to_valid:
  assumes a: "ack_ok a"
  shows "ack_write_to a out =
    (if length out < length (ack_wire a)
     then Inl (SfBufferTooSmall (mk_buffer_too_small (length (ack_wire a)) (length out)))
     else Inr (splice out 0 (ack_wire a), length (ack_wire a)))"
proof -
  have ok: "check_rule (ack_rule_id a) = Inr ()" "\<not> ack_window a > 1"
    using a by (auto simp: ack_ok_def)
  show ?thesis
  proof (cases "ack_complete a")
    case True
    then have "ack_bitmap a = 0" "length (ack_wire a) = 2" using a by (auto simp: ack_ok_def ack_wire_def)
    with True ok show ?thesis
      unfolding ack_write_to_def by (cases out; cases "tl out") (auto simp: ack_wire_def splice_def numeral_2_eq_2)
  next
    case False
    let ?h = "ack_rule_id a # push_bit 7 (ack_window a) # replicate (ack_body_bytes a) 0"
    have h: "length ?h = 2 + ack_body_bytes a" by simp
    have len: "length (ack_wire a) = 2 + ack_body_bytes a"
      using False ack_fill_loops(2) [OF h] by (simp add: ack_wire_def)
    have init: "(splice out 0 (replicate (2 + ack_body_bytes a) 0))[0 := ack_rule_id a, 1 := push_bit 7 (ack_window a)]
        = ?h @ drop (2 + ack_body_bytes a) out"
      by (simp add: splice_def)
    have "ack_fill a (?h @ drop (2 + ack_body_bytes a) out) = splice out 0 (ack_wire a)"
      unfolding ack_fill_loops(1) [OF h] using False len by (simp add: splice_def ack_wire_def)
    note fill = ack_fill_eq [OF refl refl, of a "(splice out 0 (replicate (2 + ack_body_bytes a) 0))[0 := ack_rule_id a, 1 := push_bit 7 (ack_window a)]",
        unfolded init this Let_def]
    show ?thesis
      by (simp only: ack_write_to_def ok False if_False res_bind.simps Let_def ack_sent_def [symmetric]
          ack_body_bytes_def [symmetric] len init fill)
  qed
qed

lemma bit_ack_read_bitmap:
  "bit (ack_read_bitmap data) k \<longleftrightarrow>
     k < 63 \<and> (if 62 - k < 6 + (length data - 2) * 8 then ack_bit data (62 - k) else True)"
proof -
  let ?t = "6 + (length data - 2) * 8"
  let ?f = "\<lambda>bm i. if ack_read_bit data i then bm OR push_bit (62 - i) 1 else bm :: u64"
  have fold: "bit (foldl ?f bm [0..<m]) k \<longleftrightarrow> bit bm k \<or> (\<exists>i<m. ack_bit data i \<and> k = 62 - i)" if "m \<le> 63" "k < 64" for m bm
    using that by (induction m) (auto simp: ack_read_bit_iff bit_or_iff bit_exp_iff less_Suc_eq)
  have mk: "bit (push_bit (63 - ?t) 1 - 1 :: u64) k \<longleftrightarrow> k < 64 \<and> k < 63 - ?t"
    by (simp only: push_bit_eq_mult mult_1 mask_eq_decr_exp [symmetric] bit_mask_iff) auto
  show ?thesis
  proof (cases "k < 63")
    case True
    have ex: "(\<exists>i<min ?t 63. ack_bit data i \<and> k = 62 - i) \<longleftrightarrow> 62 - k < ?t \<and> ack_bit data (62 - k)"
    proof
      assume "\<exists>i<min ?t 63. ack_bit data i \<and> k = 62 - i"
      then obtain i where "i < min ?t 63" "ack_bit data i" "k = 62 - i" by blast
      moreover from this have "62 - k = i" by linarith
      ultimately show "62 - k < ?t \<and> ack_bit data (62 - k)" by simp
    qed (use True in \<open>auto intro!: exI [of _ "62 - k"]\<close>)
    have "k < 63 - ?t \<longleftrightarrow> \<not> 62 - k < ?t" using True by linarith
    then show ?thesis
      using True fold [of "min ?t 63" 0] ex mk unfolding ack_read_bitmap_def Let_def
      by (auto simp: bit_and_iff bit_or_iff bit_BITMAP_MASK)
  next
    case False
    then show ?thesis unfolding ack_read_bitmap_def Let_def by (simp add: bit_and_iff bit_BITMAP_MASK)
  qed
qed

lemma ack_read_bitmap_wire:
  assumes a: "ack_ok a" and c: "\<not> ack_complete a"
  shows "ack_read_bitmap (ack_wire a) = ack_bitmap a"
proof (rule bit_word_eqI)
  fix k assume "k < LENGTH(64)"
  let ?h = "ack_rule_id a # push_bit 7 (ack_window a) # replicate (ack_body_bytes a) 0"
  have h: "length ?h = 2 + ack_body_bytes a" by simp
  have w: "ack_wire a = ack_fill a ?h" using c by (simp add: ack_wire_def)
  have len: "length (ack_wire a) = 2 + ack_body_bytes a" unfolding w ack_fill_loops(2) [OF h] by simp
  have zero: "\<not> ack_bit ?h i" if "i < 6 + ack_body_bytes a * 8" for i
  proof (cases "i < 6")
    case False
    then have "(i - 6) div 8 < ack_body_bytes a" using that by (simp add: div_less_iff_less_mult less_diff_conv2)
    then show ?thesis using False by (simp add: ack_bit_def)
  qed (auto simp: ack_bit_def bit_push_bit_iff)
  have trail: "bit (ack_bitmap a) k" if "ack_sent a \<le> 62 - k" "k < 63"
  proof -
    have "k < trailing_ones (ack_bitmap a AND BITMAP_MASK)"
      using that trailing_ones_le [of "ack_bitmap a"] unfolding ack_sent_def WINDOW_SIZE_def by linarith
    then show ?thesis using trailing_ones_spec(1) by (metis bit_and_iff)
  qed
  have m: "bit (ack_bitmap a) k \<Longrightarrow> k < 63"
    using a bit_BITMAP_MASK by (metis ack_ok_def bit_and_iff)
  have "62 - (62 - k) = k" if "k < 63" using that by simp
  then show "bit (ack_read_bitmap (ack_wire a)) k = bit (ack_bitmap a) k"
    using zero [of "62 - k"] trail m ack_body_bounds [of a]
    unfolding bit_ack_read_bitmap w ack_fill_loops(2,5) [OF h] h by (auto simp: not_less)
qed

lemma ack_window_bits:
  assumes "ack_window a \<le> 1"
  shows "drop_bit 7 (push_bit 7 (ack_window a)) = ack_window a" and "bit (ack_window a) n \<longleftrightarrow> n = 0 \<and> ack_window a = 1"
proof -
  have "ack_window a = 0 \<or> ack_window a = 1" using assms by (metis word_le_less_eq word_less_1)
  then show "drop_bit 7 (push_bit 7 (ack_window a)) = ack_window a" "bit (ack_window a) n \<longleftrightarrow> n = 0 \<and> ack_window a = 1"
    by (auto simp: bit_1_iff) 
qed

lemma and_0x40_iff: "x AND 0x40 = (0 :: u8) \<longleftrightarrow> \<not> bit x 6"
  using and_exp_eq_0_iff_not_bit [of x 6] by simp

lemma ack_wire_header:
  assumes a: "ack_ok a"
  shows "ack_wire a ! 0 = ack_rule_id a" and "drop_bit 7 (ack_wire a ! 1) AND 1 = ack_window a"
    and "(ack_wire a ! 1) AND 0x40 = 0 \<longleftrightarrow> \<not> ack_complete a"
    and "length (ack_wire a) = (if ack_complete a then 2 else 2 + ack_body_bytes a)"
proof -
  let ?h = "ack_rule_id a # push_bit 7 (ack_window a) # replicate (ack_body_bytes a) 0"
  have h: "length ?h = 2 + ack_body_bytes a" by simp
  note fill = ack_fill_loops [OF h]
  show "ack_wire a ! 0 = ack_rule_id a" "length (ack_wire a) = (if ack_complete a then 2 else 2 + ack_body_bytes a)"
    unfolding ack_wire_def by (simp_all add: fill)
  have w: "bit (ack_window a) n \<longleftrightarrow> n = 0 \<and> ack_window a = 1" for n
    using a by (intro ack_window_bits) (simp add: ack_ok_def)
  have p40: "bit (0x40 :: u8) n \<longleftrightarrow> n = 6" for n
    using bit_exp_iff [where ?'a = "8 word", of 6 n] by auto
  have hi: "bit (ack_wire a ! 1) b \<longleftrightarrow> b = 7 \<and> ack_window a = 1 \<or> b = 6 \<and> ack_complete a" if "6 \<le> b" for b
  proof -
    have "bit (push_bit 7 (ack_window a)) b \<longleftrightarrow> b = 7 \<and> ack_window a = 1"
      unfolding bit_push_bit_iff w by auto
    then show ?thesis
      using that fill(4) [of b] p40 [of b] unfolding ack_wire_def by (auto simp: bit_or_iff)
  qed
  show "(ack_wire a ! 1) AND 0x40 = 0 \<longleftrightarrow> \<not> ack_complete a"
    unfolding and_0x40_iff using hi [of 6] by simp
  show "drop_bit 7 (ack_wire a ! 1) AND 1 = ack_window a"
  proof (rule u8_eqI)
    fix n show "bit (drop_bit 7 (ack_wire a ! 1) AND 1) n = bit (ack_window a) n"
      unfolding bit_and_iff bit_drop_bit_eq comp_apply bit_1_iff w using hi [of "7 + n"] by auto
  qed
qed

lemma ack_ok_new:
  assumes "ack_ok a" shows "ack_new (ack_rule_id a) (ack_window a) (ack_bitmap a) (ack_complete a) = a"
  using assms by (simp add: ack_new_def ack_ok_def)

lemma ack_wire_length: "ack_ok a \<Longrightarrow> length (ack_wire a) \<le> 10" "ack_ok a \<Longrightarrow> 2 \<le> length (ack_wire a)"
  using ack_body_bounds(2) [of a] ack_wire_header(4) [of a] by simp_all

lemma ack_from_bytes_wire:
  assumes a: "ack_ok a" and m: "\<And>m. assigned = Some m \<Longrightarrow> ack_bitmap a AND NOT m AND BITMAP_MASK = 0"
  shows "ack_from_bytes_for (ack_wire a) assigned = Inr a"
proof (cases "ack_complete a")
  case True
  then have "ack_bitmap a = 0" "length (ack_wire a) = 2" using a ack_wire_header(4) [OF a] by (auto simp: ack_ok_def)
  with True ack_ok_new [OF a] show ?thesis
    unfolding ack_from_bytes_for_def ack_wire_header(1-3) [OF a] Let_def
    by (simp add: ack_write_to_valid [OF a] splice_def)
next
  case False
  have b: "ack_read_bitmap (ack_wire a) = ack_bitmap a" by (rule ack_read_bitmap_wire [OF a False])
  have n: "ack_new (ack_rule_id a) (ack_window a) (ack_bitmap a) False = a" using ack_ok_new [OF a] False by simp
  have len: "length (ack_wire a) = 2 + ack_body_bytes a" "ack_body_bytes a \<le> 8"
    using False ack_wire_header(4) [OF a] ack_body_bounds(2) [of a] by simp_all
  have "\<not> WINDOW_SIZE < ack_sent a" by (simp add: ack_sent_def)
  then show ?thesis
    using m len False unfolding ack_from_bytes_for_def ack_wire_header(1-3) [OF a] Let_def b n
      ack_sent_def [symmetric] ack_body_bytes_def [symmetric]
    by (auto simp: ack_write_to_valid [OF a] len(1) splice_def not_less [symmetric] split: option.split)
qed

lemma ack_write_to_Inr:
  "ack_write_to a out = Inr r \<Longrightarrow> check_rule (ack_rule_id a) = Inr () \<and> ack_window a \<le> 1 \<and> (ack_complete a \<longrightarrow> ack_bitmap a = 0)"
  unfolding ack_write_to_def by (auto simp: res_bind_Inr_iff split: if_splits)

lemma ack_canonical:
  assumes "ack_write_to a (replicate k 0) = Inr (canonical, len)" and "ack_bitmap a AND BITMAP_MASK = ack_bitmap a"
    and "take len canonical = data"
  shows "ack_ok a" and "data = ack_wire a"
proof -
  show a: "ack_ok a" using ack_write_to_Inr [OF assms(1)] assms(2) by (auto simp: ack_ok_def)
  show "data = ack_wire a"
    using assms(1,3) unfolding ack_write_to_valid [OF a] by (auto simp: take_splice_0 split: if_splits)
qed

lemma ack_new_masked: "ack_bitmap (ack_new r w b c) AND BITMAP_MASK = ack_bitmap (ack_new r w b c)"
  by (simp add: ack_new_def and.assoc)

lemma ack_from_bytes_for_Inr:
  assumes "ack_from_bytes_for data assigned = Inr a"
  shows "ack_ok a" and "data = ack_wire a"
proof -
  obtain k canonical len where "ack_write_to a (replicate k 0) = Inr (canonical, len)" "take len canonical = data"
      "ack_bitmap a AND BITMAP_MASK = ack_bitmap a"
    using assms ack_new_masked unfolding ack_from_bytes_for_def Let_def
    by (auto simp: res_bind_Inr_iff split: if_splits)
  then show "ack_ok a" "data = ack_wire a" by (blast intro: ack_canonical)+
qed

lemma ack_from_bytes_iff: "ack_from_bytes data = Inr a \<longleftrightarrow> ack_ok a \<and> data = ack_wire a"
  unfolding ack_from_bytes_def using ack_from_bytes_for_Inr ack_from_bytes_wire by blast

interpretation schc_ack_codec: wire_codec ack_write_to ack_from_bytes ack_wire ack_ok
  by unfold_locales (auto simp: ack_write_to_valid ack_from_bytes_iff)

section \<open>The integrity check\<close>

text \<open>The two forms of the bitwise CRC step, by masking and by branching, agree.\<close>

lemma mic_bit_eq: "mic_bit crc = crc32_bit crc"
proof (cases "bit crc 0")
  case True
  then have "crc AND 1 = 1" by (simp add: and_one_eq odd_iff_mod_2_eq_one [symmetric] bit_0)
  then show ?thesis by (simp add: mic_bit_def crc32_bit_def)
next
  case False
  then have "crc AND 1 = 0" by (simp add: and_one_eq even_iff_mod_2_eq_zero [symmetric] bit_0)
  then show ?thesis by (simp add: mic_bit_def crc32_bit_def)
qed

lemma compute_mic_crc32: "compute_mic data = be_bytes 4 (crc32_ieee (data @ [0]) 0)"
proof -
  have "mic_bit = crc32_bit" by (rule ext) (rule mic_bit_eq)
  then have eq: "mic_byte = crc32_byte" by (intro ext) (simp add: mic_byte_def crc32_byte_def)
  have m: "(0xffffffff :: u32) = - 1" by simp
  show ?thesis unfolding compute_mic_def crc32_ieee_def m eq by simp
qed

lemma length_compute_mic [simp]: "length (compute_mic data) = MIC_LENGTH"
  by (simp add: compute_mic_def MIC_LENGTH_def)

section \<open>The codec's properties\<close>

text \<open>
  C17. A fragment that \<open>Fragment::write_to\<close> writes is read back by \<open>Fragment::from_bytes\<close>
  unchanged, it fits the 185-octet envelope, and the rest of the buffer is not touched.
\<close>

theorem schc_fragment_roundtrip:
  assumes "fragment_write_to f out = Inr (out', n)" and "length (fr_mic f) = MIC_LENGTH"
  shows "fragment_from_bytes (take n out') TILE_SIZE = Inr f \<and> n \<le> MAX_FRAGMENT_WIRE_SIZE \<and> drop n out' = drop n out"
proof -
  have f: "fragment_ok f"
    using assms by (auto simp: fragment_write_to_def fragment_ok_def res_bind_Inr_iff Let_def not_less split: if_splits)
  have "fragment_from_bytes (take n out') TILE_SIZE = Inr f"
    using schc_fragment_codec.dec_enc [OF f assms(1)] .
  moreover have "drop n out' = drop n out"
    using schc_fragment_codec.enc_keeps_tail [OF f assms(1)] by simp
  moreover have "n = length (fragment_wire f)" using assms(1) schc_fragment_codec.enc_Inr_iff [OF f] by blast
  moreover from this have "n \<le> MAX_FRAGMENT_WIRE_SIZE"
    using f by (auto simp: fragment_ok_def fragment_content_def MAX_FRAGMENT_WIRE_SIZE_def split: if_splits)
  ultimately show ?thesis by blast
qed

definition short_all_1 :: fragment where
  "short_all_1 = \<lparr>fr_rule_id = 0x78, fr_window = 1, fr_fcn = 63, fr_payload = [0x81, 2], fr_mic = [9, 8, 7, 255]\<rparr>"

theorem schc_fragment_roundtrip_witness:
  "\<exists>out'. fragment_write_to short_all_1 (replicate 9 5) = Inr (out', 8) \<and>
     fragment_from_bytes (take 8 out') TILE_SIZE = Inr short_all_1 \<and> drop 8 out' = [5]"
proof -
  have w: "fragment_write_to short_all_1 (replicate 9 5) = Inr ([0x78, 0xfe, 18, 16, 15, 255, 2, 4, 5], 8)"
    by code_simp
  have "length (fr_mic short_all_1) = MIC_LENGTH" by code_simp
  then show ?thesis using w schc_fragment_roundtrip [OF w] by simp
qed

text \<open>
  C16. Acknowledgements have exactly one encoding: \<open>Ack::from_bytes\<close> accepts a byte string
  as the acknowledgement \<open>a\<close> exactly when it is what \<open>Ack::write_to\<close> writes for \<open>a\<close>, whose
  bitmap must lie in the 63-bit window.
\<close>

theorem schc_ack_canonical:
  "ack_from_bytes data = Inr a \<longleftrightarrow>
     ack_bitmap a AND BITMAP_MASK = ack_bitmap a \<and>
     (\<exists>out n. ack_write_to a (replicate 10 0) = Inr (out, n) \<and> take n out = data)"
proof
  assume "ack_from_bytes data = Inr a"
  then have a: "ack_ok a" "data = ack_wire a" by (simp_all add: ack_from_bytes_iff)
  then show "ack_bitmap a AND BITMAP_MASK = ack_bitmap a \<and>
     (\<exists>out n. ack_write_to a (replicate 10 0) = Inr (out, n) \<and> take n out = data)"
    using ack_wire_length(1) [OF a(1)] by (auto simp: ack_write_to_valid ack_ok_def take_splice_0)
next
  assume "ack_bitmap a AND BITMAP_MASK = ack_bitmap a \<and>
     (\<exists>out n. ack_write_to a (replicate 10 0) = Inr (out, n) \<and> take n out = data)"
  then show "ack_from_bytes data = Inr a" using ack_canonical ack_from_bytes_iff by blast
qed

end
