(* ===== verification/Schc_Session.thy ===== *)
theory Schc_Session
  imports Schc_Codec
begin

text \<open>
  The two ends of an ACK-on-Error session (\<open>FragmentSender\<close>, \<open>FragmentReceiver\<close> of
  \<open>lichen-schc/src/fragment.rs\<close>): tiling a packet, answering acknowledgements and timeouts,
  draining retransmissions, reassembling tiles in any order and closing the session with the
  integrity check.
\<close>

unbundle bit_operations_syntax

section \<open>Sender\<close>

datatype sender_status = SsReady | SsActive | SsSucceeded | SsAborted

datatype sender_output =
    SoNone
  | SoSuccess
  | SoAbort bool
  | SoRetransmit u8 u64 u8 bool
  | SoAckRequest bool

record fragment_sender =
  fs_payload :: bytes
  fs_rule_id :: u8
  fs_count :: nat
  fs_mic :: bytes
  fs_attempts :: u8
  fs_status :: sender_status
  fs_retransmit_at_ms :: "u64 option"

definition sender_new :: "bytes \<Rightarrow> u8 \<Rightarrow> nat \<Rightarrow> fragment_error + fragment_sender" where
  "sender_new payload rule_id receiver_limit =
     res_bind (check_rule rule_id) (\<lambda>_.
       if \<not> (1 \<le> receiver_limit \<and> receiver_limit \<le> MAX_PACKET_SIZE) then Inl InvalidReceiverLimit
       else if payload = [] then Inl EmptyPacket
       else if length payload > MAX_PACKET_SIZE then Inl PacketTooLarge
       else if length payload > receiver_limit then Inl PacketTooLarge
       else Inr \<lparr>fs_payload = payload, fs_rule_id = rule_id,
                 fs_count = div_ceil (length payload) TILE_SIZE, fs_mic = compute_mic payload,
                 fs_attempts = 0, fs_status = SsReady, fs_retransmit_at_ms = None\<rparr>)"

definition final_window :: "fragment_sender \<Rightarrow> u8" where
  "final_window s = of_nat ((fs_count s - 1) div WINDOW_SIZE)"

definition window_count :: "fragment_sender \<Rightarrow> nat" where
  "window_count s = unat (final_window s) + 1"

definition start_inner :: "fragment_sender \<Rightarrow> fragment_error + fragment_sender" where
  "start_inner s =
     (if fs_status s \<noteq> SsReady then Inl SfInvalidState
      else Inr (s\<lparr>fs_status := SsActive, fs_attempts := 1\<rparr>))"

definition get_fragment_inner :: "fragment_sender \<Rightarrow> nat \<Rightarrow> fragment option" where
  "get_fragment_inner s index =
     (if index \<ge> fs_count s then None
      else
        let final_fragment = (index + 1 = fs_count s);
            start = index * TILE_SIZE;
            stop = min (start + TILE_SIZE) (length (fs_payload s))
        in Some \<lparr>fr_rule_id = fs_rule_id s, fr_window = of_nat (index div WINDOW_SIZE),
                 fr_fcn = (if final_fragment then ALL_1_FCN else 62 - of_nat (index mod WINDOW_SIZE)),
                 fr_payload = slice start stop (fs_payload s),
                 fr_mic = (if final_fragment then fs_mic s else replicate MIC_LENGTH 0)\<rparr>)"

text \<open>The iterator of \<open>iter_inner\<close> yields \<open>get_fragment_inner\<close> at 0, 1, ... up to the first \<open>None\<close>.\<close>

definition sender_fragments :: "fragment_sender \<Rightarrow> fragment list" where
  "sender_fragments s = List.map_filter (get_fragment_inner s) [0..<fs_count s]"

definition fragment_bit :: "fragment \<Rightarrow> u64" where
  "fragment_bit f = (if is_all_1 f then 1 else push_bit (unat (fr_fcn f)) 1)"

definition assigned_bitmap_inner :: "fragment_sender \<Rightarrow> u8 \<Rightarrow> u64" where
  "assigned_bitmap_inner s window =
     foldl (\<lambda>bitmap f. bitmap OR fragment_bit f) 0 (filter (\<lambda>f. fr_window f = window) (sender_fragments s))"

definition abort_output :: "fragment_sender \<Rightarrow> fragment_sender \<times> sender_output" where
  "abort_output s = (s\<lparr>fs_status := SsAborted, fs_retransmit_at_ms := None\<rparr>, SoAbort False)"

definition handle_ack_inner :: "fragment_sender \<Rightarrow> ack \<Rightarrow> fragment_sender \<times> sender_output" where
  "handle_ack_inner s a =
     (if fs_status s \<noteq> SsActive \<or> ack_rule_id a \<noteq> fs_rule_id s then (s, SoNone)
      else if ack_complete a then
        (if ack_window a \<noteq> final_window s then (s, SoNone)
         else (s\<lparr>fs_status := SsSucceeded, fs_retransmit_at_ms := None\<rparr>, SoSuccess))
      else if ack_window a > final_window s then (s, SoNone)
      else
        let assigned = assigned_bitmap_inner s (ack_window a) in
        if ack_bitmap a AND NOT assigned AND BITMAP_MASK \<noteq> 0 then (s, SoNone)
        else
          let missing = assigned AND NOT (ack_bitmap a) in
          if missing = 0 then
            (if ack_window a = final_window s then abort_output s else (s, SoNone))
          else if unat (fs_attempts s) \<ge> MAX_ACK_REQUESTS then abort_output s
          else
            let s = s\<lparr>fs_attempts := fs_attempts s + 1\<rparr>;
                all1_missing = (ack_window a = final_window s \<and> missing AND 1 \<noteq> 0)
            in (s, SoRetransmit (ack_window a) missing 0 (\<not> all1_missing)))"

definition handle_ack_bytes_inner ::
  "fragment_sender \<Rightarrow> bytes \<Rightarrow> fragment_error + (fragment_sender \<times> sender_output)" where
  "handle_ack_bytes_inner s data =
     (if fs_status s \<noteq> SsActive \<or> \<not> (data \<noteq> [] \<and> hd data = fs_rule_id s) then Inr (s, SoNone)
      else res_bind (control_bytes (CtlReceiverAbort (fs_rule_id s))) (\<lambda>c.
        if data = c then Inr (s\<lparr>fs_status := SsAborted, fs_retransmit_at_ms := None\<rparr>, SoNone)
        else res_bind (ack_from_bytes data) (\<lambda>a.
          if ack_complete a then Inr (handle_ack_inner s a)
          else if ack_window a > final_window s then Inr (s, SoNone)
          else res_bind (ack_from_bytes_for data (Some (assigned_bitmap_inner s (ack_window a))))
            (\<lambda>a. Inr (handle_ack_inner s a)))))"

definition validate_authenticated_control :: "fragment_sender \<Rightarrow> bytes \<Rightarrow> fragment_error + unit" where
  "validate_authenticated_control s data =
     (if fs_status s \<noteq> SsActive \<or> \<not> (data \<noteq> [] \<and> hd data = fs_rule_id s) then Inl MalformedAck
      else res_bind (control_bytes (CtlReceiverAbort (fs_rule_id s))) (\<lambda>c.
        if data = c then Inr ()
        else res_bind (ack_from_bytes data) (\<lambda>a.
          if ack_complete a then (if ack_window a = final_window s then Inr () else Inl MalformedAck)
          else if ack_window a > final_window s then Inl MalformedAck
          else res_bind (ack_from_bytes_for data (Some (assigned_bitmap_inner s (ack_window a)))) (\<lambda>_. Inr ()))))"

definition timeout_inner :: "fragment_sender \<Rightarrow> fragment_error + (fragment_sender \<times> sender_output)" where
  "timeout_inner s =
     (if fs_status s \<noteq> SsActive then Inl SfInvalidState
      else if unat (fs_attempts s) \<ge> MAX_ACK_REQUESTS then Inr (abort_output s)
      else Inr (s\<lparr>fs_attempts := fs_attempts s + 1\<rparr>, SoAckRequest False))"

definition fragment_at_position :: "fragment_sender \<Rightarrow> u8 \<Rightarrow> u8 \<Rightarrow> fragment option" where
  "fragment_at_position s window pos =
     List.find (\<lambda>f. fr_window f = window \<and>
       (if is_all_1 f then pos = 62 else pos = 62 - fr_fcn f)) (sender_fragments s)"

text \<open>
  The scan of \<open>write_next_inner\<close> for the next missing position that carries a fragment, from
  position \<open>current\<close> on; \<open>None\<close> when the window is exhausted.
\<close>

function next_missing :: "fragment_sender \<Rightarrow> u8 \<Rightarrow> u64 \<Rightarrow> nat \<Rightarrow> (nat \<times> fragment) option" where
  "next_missing s window missing current =
     (if \<not> current < WINDOW_SIZE then None
      else if missing AND push_bit (62 - current) 1 = 0 then next_missing s window missing (current + 1)
      else case fragment_at_position s window (of_nat current) of
        Some f \<Rightarrow> Some (current, f)
      | None \<Rightarrow> next_missing s window missing (current + 1))"
  by pat_completeness auto
termination by (relation "measure (\<lambda>(_, _, _, current). WINDOW_SIZE - current)") auto

definition write_next_inner ::
  "fragment_sender \<Rightarrow> sender_output \<Rightarrow> bytes \<Rightarrow> fragment_error + (sender_output \<times> bytes \<times> nat option)" where
  "write_next_inner s output out =
     (case output of
        SoNone \<Rightarrow> Inr (output, out, None)
      | SoSuccess \<Rightarrow> Inr (output, out, None)
      | SoAbort written \<Rightarrow>
          if written then Inr (output, out, None)
          else res_bind (control_write_to (CtlSenderAbort (fs_rule_id s)) out) (\<lambda>(out, n). Inr (SoAbort True, out, Some n))
      | SoAckRequest written \<Rightarrow>
          if fs_status s \<noteq> SsActive \<or> written then Inr (output, out, None)
          else res_bind (control_write_to (CtlAckRequest (fs_rule_id s) (final_window s)) out)
                 (\<lambda>(out, n). Inr (SoAckRequest True, out, Some n))
      | SoRetransmit window missing pos request \<Rightarrow>
          if fs_status s \<noteq> SsActive then Inr (output, out, None)
          else case next_missing s window missing (unat pos) of
            Some (current, f) \<Rightarrow>
              res_bind (fragment_write_to f out)
                (\<lambda>(out, n). Inr (SoRetransmit window missing (of_nat current + 1) request, out, Some n))
          | None \<Rightarrow>
              if request then
                res_bind (control_write_to (CtlAckRequest (fs_rule_id s) (final_window s)) out)
                  (\<lambda>(out, n). Inr (SoRetransmit window missing (of_nat WINDOW_SIZE) False, out, Some n))
              else Inr (output, out, None))"

section \<open>Receiver\<close>

record receiver_result =
  rr_response :: "receiver_response option"
  rr_packet_len :: "nat option"
  rr_mic_ok :: "bool option"
  rr_aborted :: bool

definition rr_default :: receiver_result where
  "rr_default = \<lparr>rr_response = None, rr_packet_len = None, rr_mic_ok = None, rr_aborted = False\<rparr>"

record fragment_receiver =
  fx_storage :: bytes
  fx_limit :: nat
  fx_rule_id :: "u8 option"
  fx_bitmaps :: "u64 list"
  fx_all1 :: bool
  fx_all1_window :: u8
  fx_all1_mic :: bytes
  fx_final_tile :: bytes
  fx_final_len :: nat
  fx_attempts :: u8
  fx_done :: bool
  fx_packet_len :: "nat option"

definition receiver_response_write_to :: "receiver_response \<Rightarrow> bytes \<Rightarrow> fragment_error + (bytes \<times> nat)" where
  "receiver_response_write_to r out =
     (case r of RespAck a \<Rightarrow> ack_write_to a out
      | RespReceiverAbort rule_id \<Rightarrow> control_write_to (CtlReceiverAbort rule_id) out)"

definition receiver_new :: "bytes \<Rightarrow> fragment_error + fragment_receiver" where
  "receiver_new storage =
     (let limit = min (length storage) MAX_PACKET_SIZE in
      if limit = 0 then Inl InvalidReceiverLimit
      else Inr \<lparr>fx_storage = storage, fx_limit = limit, fx_rule_id = None, fx_bitmaps = [0, 0],
                fx_all1 = False, fx_all1_window = 0, fx_all1_mic = replicate MIC_LENGTH 0,
                fx_final_tile = replicate TILE_SIZE 0, fx_final_len = 0, fx_attempts = 0,
                fx_done = False, fx_packet_len = None\<rparr>)"

definition receiver_with_limit :: "bytes \<Rightarrow> nat \<Rightarrow> fragment_error + fragment_receiver" where
  "receiver_with_limit storage limit =
     (if \<not> (1 \<le> limit \<and> limit \<le> MAX_PACKET_SIZE) \<or> limit > length storage then Inl InvalidReceiverLimit
      else res_bind (receiver_new storage) (\<lambda>rx. Inr (rx\<lparr>fx_limit := limit\<rparr>)))"

definition receiver_packet :: "fragment_receiver \<Rightarrow> bytes option" where
  "receiver_packet rx = map_option (\<lambda>n. take n (fx_storage rx)) (fx_packet_len rx)"

definition receiver_reset :: "fragment_receiver \<Rightarrow> fragment_receiver" where
  "receiver_reset rx = rx\<lparr>fx_bitmaps := [0, 0], fx_all1 := False, fx_rule_id := None, fx_final_len := 0,
                          fx_attempts := 0, fx_packet_len := None, fx_done := False\<rparr>"

definition receiver_release :: "fragment_receiver \<Rightarrow> fragment_receiver" where
  "receiver_release rx = (receiver_reset rx)\<lparr>fx_done := True\<rparr>"

definition receiver_abort :: "fragment_receiver \<Rightarrow> u8 \<Rightarrow> fragment_receiver \<times> receiver_result" where
  "receiver_abort rx rule_id =
     (receiver_release rx, rr_default\<lparr>rr_response := Some (RespReceiverAbort rule_id), rr_aborted := True\<rparr>)"

definition receiver_expire :: "fragment_receiver \<Rightarrow> fragment_receiver \<times> receiver_response option" where
  "receiver_expire rx =
     (case fx_rule_id rx of
        None \<Rightarrow> (rx, None)
      | Some rule_id \<Rightarrow>
          if fx_done rx then (rx, None)
          else (receiver_release rx, Some (RespReceiverAbort rule_id)))"

definition respond :: "fragment_receiver \<Rightarrow> ack \<Rightarrow> fragment_receiver \<times> receiver_result" where
  "respond rx a =
     (if unat (fx_attempts rx) \<ge> MAX_ACK_REQUESTS then receiver_abort rx (ack_rule_id a)
      else (rx\<lparr>fx_attempts := fx_attempts rx + 1\<rparr>, rr_default\<lparr>rr_response := Some (RespAck a)\<rparr>))"

definition respond_with_packet :: "fragment_receiver \<Rightarrow> ack \<Rightarrow> fragment_receiver \<times> receiver_result" where
  "respond_with_packet rx a =
     (let packet_len = fx_packet_len rx; (rx, result) = respond rx a in
      (rx, if \<not> rr_aborted result then result\<lparr>rr_packet_len := packet_len, rr_mic_ok := Some True\<rparr> else result))"

definition respond_with_mic_failure :: "fragment_receiver \<Rightarrow> ack \<Rightarrow> fragment_receiver \<times> receiver_result" where
  "respond_with_mic_failure rx a =
     (let (rx, result) = respond rx a in
      (rx, if \<not> rr_aborted result then result\<lparr>rr_mic_ok := Some False\<rparr> else result))"

definition finalize :: "fragment_receiver \<Rightarrow> fragment_receiver \<times> receiver_result" where
  "finalize rx =
     (let rule_id = (case fx_rule_id rx of Some r \<Rightarrow> r | None \<Rightarrow> RULE_ID_A_TO_B) in
      if fx_all1_window rx = 1 \<and> fx_bitmaps rx ! 0 \<noteq> BITMAP_MASK
      then respond rx (ack_new rule_id 0 (fx_bitmaps rx ! 0) False)
      else
        let final_base = unat (fx_all1_window rx) * WINDOW_SIZE;
            bitmap = fx_bitmaps rx ! unat (fx_all1_window rx);
            regular_count = (if bitmap = 0 then 0 else WINDOW_SIZE - trailing_zeros bitmap);
            required = (if regular_count = 0 then 0 else BITMAP_MASK AND NOT (drop_bit regular_count BITMAP_MASK))
        in if bitmap AND required \<noteq> required
           then respond rx (ack_new rule_id (fx_all1_window rx) (bitmap OR 1) False)
           else
             let packet_len = (final_base + regular_count) * TILE_SIZE + fx_final_len rx in
             if packet_len > fx_limit rx then receiver_abort rx rule_id
             else
               let final_offset = (final_base + regular_count) * TILE_SIZE;
                   rx = rx\<lparr>fx_storage := splice (fx_storage rx) final_offset (take (fx_final_len rx) (fx_final_tile rx))\<rparr>
               in if compute_mic (take packet_len (fx_storage rx)) = fx_all1_mic rx then
                    (let rx = rx\<lparr>fx_packet_len := Some packet_len\<rparr>;
                         (rx, result) = respond_with_packet rx (ack_new rule_id (fx_all1_window rx) 0 True)
                     in (rx\<lparr>fx_done := True\<rparr>, result))
                  else
                    let full_window = (bitmap = required \<and> count_ones bitmap = regular_count);
                        ack_bm = (if full_window \<and> regular_count > 1 then bitmap else bitmap OR 1)
                    in respond_with_mic_failure rx (ack_new rule_id (fx_all1_window rx) ack_bm False))"

definition receive_all1 :: "fragment_receiver \<Rightarrow> fragment \<Rightarrow> fragment_receiver \<times> receiver_result" where
  "receive_all1 rx f =
     (if list_ex (\<lambda>b. b \<noteq> 0) (drop (unat (fr_window f) + 1) (fx_bitmaps rx)) \<or>
         fx_bitmaps rx ! unat (fr_window f) AND 1 \<noteq> 0
      then receiver_abort rx (fr_rule_id f)
      else if fx_all1 rx then
        (if fx_all1_window rx \<noteq> fr_window f \<or> fx_all1_mic rx \<noteq> fr_mic f \<or>
            take (fx_final_len rx) (fx_final_tile rx) \<noteq> fr_payload f
         then receiver_abort rx (fr_rule_id f)
         else finalize rx)
      else
        let retained = (count_ones (fx_bitmaps rx ! 0) + count_ones (fx_bitmaps rx ! 1)) * TILE_SIZE + length (fr_payload f) in
        if retained > fx_limit rx then receiver_abort rx (fr_rule_id f)
        else finalize (rx\<lparr>fx_all1 := True, fx_all1_window := fr_window f, fx_all1_mic := fr_mic f,
                          fx_final_len := length (fr_payload f),
                          fx_final_tile := splice (fx_final_tile rx) 0 (fr_payload f)\<rparr>))"

text \<open>Both entry points bind the session to the first Rule ID seen and abort on another one.\<close>

definition bind_rule ::
  "fragment_receiver \<Rightarrow> u8 \<Rightarrow> (fragment_receiver \<times> receiver_result) + fragment_receiver" where
  "bind_rule rx rule_id =
     (case fx_rule_id rx of
        Some active \<Rightarrow> if active \<noteq> rule_id then Inl (receiver_abort rx active) else Inr rx
      | None \<Rightarrow> Inr (rx\<lparr>fx_rule_id := Some rule_id\<rparr>))"

definition receive_ack_request :: "fragment_receiver \<Rightarrow> u8 \<Rightarrow> fragment_receiver \<times> receiver_result" where
  "receive_ack_request rx rule_id =
     (case bind_rule rx rule_id of
        Inl r \<Rightarrow> r
      | Inr rx \<Rightarrow>
          if fx_all1 rx then finalize rx
          else let window = (if fx_bitmaps rx ! 0 = BITMAP_MASK then 1 else 0 :: u8) in
               respond rx (ack_new rule_id window (fx_bitmaps rx ! unat window) False))"

definition fragment_valid :: "fragment \<Rightarrow> bool" where
  "fragment_valid f \<longleftrightarrow> check_rule (fr_rule_id f) = Inr () \<and> fr_window f \<le> 1 \<and> fr_fcn f \<le> ALL_1_FCN \<and>
     (is_all_1 f \<or> fr_window f = 0 \<or> fr_fcn f \<noteq> 0) \<and>
     (is_all_1 f \<and> 1 \<le> length (fr_payload f) \<and> length (fr_payload f) \<le> TILE_SIZE \<or>
      \<not> is_all_1 f \<and> length (fr_payload f) = TILE_SIZE \<and> fr_mic f = replicate MIC_LENGTH 0)"

definition receive_regular :: "fragment_receiver \<Rightarrow> fragment \<Rightarrow> fragment_receiver \<times> receiver_result" where
  "receive_regular rx f =
     (if fr_window f = 1 \<and> fr_fcn f = 0 then receiver_abort rx (fr_rule_id f)
      else if fx_all1 rx \<and> (fr_window f > fx_all1_window rx \<or> fr_window f = fx_all1_window rx \<and> fr_fcn f = 0)
      then receiver_abort rx (fr_rule_id f)
      else
        let ordinal = unat (fr_window f) * WINDOW_SIZE + 62 - unat (fr_fcn f);
            stop = (ordinal + 1) * TILE_SIZE in
        if stop > fx_limit rx then receiver_abort rx (fr_rule_id f)
        else
          let b = push_bit (unat (fr_fcn f)) 1;
              w = unat (fr_window f);
              bitmap = fx_bitmaps rx ! w in
          if bitmap AND b \<noteq> 0 then
            (if slice (ordinal * TILE_SIZE) stop (fx_storage rx) \<noteq> fr_payload f
             then receiver_abort rx (fr_rule_id f) else (rx, rr_default))
          else (rx\<lparr>fx_storage := splice (fx_storage rx) (ordinal * TILE_SIZE) (fr_payload f),
                   fx_bitmaps := (fx_bitmaps rx)[w := bitmap OR b]\<rparr>, rr_default))"

definition receive_inner :: "fragment_receiver \<Rightarrow> fragment \<Rightarrow> fragment_receiver \<times> receiver_result" where
  "receive_inner rx f =
     (if fx_done rx \<and> \<not> fragment_valid f then (rx, rr_default)
      else
        let rx = (if fx_done rx then receiver_reset rx else rx) in
        if \<not> fragment_valid f then receiver_abort rx (fr_rule_id f)
        else case bind_rule rx (fr_rule_id f) of
          Inl r \<Rightarrow> r
        | Inr rx \<Rightarrow> if is_all_1 f then receive_all1 rx f else receive_regular rx f)"

definition receive_bytes_inner ::
  "fragment_receiver \<Rightarrow> bytes \<Rightarrow> fragment_error + (fragment_receiver \<times> receiver_result)" where
  "receive_bytes_inner rx data =
     (if length data < 2 then Inl (SfTooShort (mk_too_short 2 (length data)))
      else res_bind (check_rule (data ! 0)) (\<lambda>_.
        let rule_id = data ! 0 in
        res_bind (control_bytes (CtlSenderAbort rule_id)) (\<lambda>c.
          if data = c then Inr (receiver_release rx, rr_default\<lparr>rr_aborted := True\<rparr>)
          else
            let window = drop_bit 7 (data ! 1) in
            res_bind (control_bytes (CtlAckRequest rule_id window)) (\<lambda>c.
              if data = c then
                Inr (receive_ack_request (if fx_done rx then receiver_reset rx else rx) rule_id)
              else res_bind (is_sender_facing_control data rule_id) (\<lambda>sender_facing.
                if sender_facing then Inl MalformedAck
                else case fragment_from_bytes data TILE_SIZE of
                  Inr f \<Rightarrow> Inr (receive_inner (if fx_done rx then receiver_reset rx else rx) f)
                | Inl _ \<Rightarrow> if fx_done rx then Inr (rx, rr_default)
                           else Inr (receiver_abort rx rule_id))))))"

declare next_missing.simps [simp del]

end
