(* ===== verification/Schc_Reassembly.thy ===== *)
theory Schc_Reassembly
  imports Schc_Session
begin

text \<open>
  Reassembly of a fragmented packet: what the sender transmits, how the receiver dispatches it,
  the invariant that ties the receiver's storage and bitmaps to the sender's packet, and its
  preservation over histories of genuine messages in any order.
\<close>

unbundle bit_operations_syntax

section \<open>What the sender transmits\<close>

definition tile :: "bytes \<Rightarrow> nat \<Rightarrow> bytes" where
  "tile P i = take TILE_SIZE (drop (i * TILE_SIZE) P)"

lemma tile_size: "TILE_SIZE = 179" by (simp add: schc_consts)

definition sender_of :: "bytes \<Rightarrow> u8 \<Rightarrow> fragment_sender \<Rightarrow> bool" where
  "sender_of P r s \<longleftrightarrow> fs_payload s = P \<and> fs_rule_id s = r \<and> check_rule r = Inr () \<and> P \<noteq> [] \<and>
     length P \<le> MAX_PACKET_SIZE \<and> fs_count s = div_ceil (length P) TILE_SIZE \<and> fs_mic s = compute_mic P"

lemma sender_new_of: "sender_new P r lim = Inr s \<Longrightarrow> sender_of P r s \<and> length P \<le> lim \<and> fs_status s = SsReady"
  unfolding sender_new_def sender_of_def by (auto simp: res_bind_Inr_iff split: if_splits)

definition tiles :: "bytes \<Rightarrow> nat" where
  "tiles P = div_ceil (length P) TILE_SIZE"

lemma tiles_bounds:
  assumes "P \<noteq> []"
  shows "1 \<le> tiles P" and "(tiles P - 1) * TILE_SIZE < length P" and "length P \<le> tiles P * TILE_SIZE"
    and "length P \<le> MAX_PACKET_SIZE \<Longrightarrow> tiles P \<le> 126"
proof -
  obtain q r where q: "length P = q * 179 + r" "r < 179" "tiles P = (if r = 0 then q else q + 1)"
    unfolding tiles_def div_ceil_def tile_size using mod_less_divisor [of 179 "length P"] by (metis div_mult_mod_eq zero_less_numeral)
  moreover have "0 < length P" using assms by simp
  ultimately show "1 \<le> tiles P" "(tiles P - 1) * TILE_SIZE < length P" "length P \<le> tiles P * TILE_SIZE"
      "length P \<le> MAX_PACKET_SIZE \<Longrightarrow> tiles P \<le> 126"
    unfolding tile_size MAX_PACKET_SIZE_def by (cases q; simp)+
qed

lemma length_tile: "(i + 1) * TILE_SIZE \<le> length P \<Longrightarrow> length (tile P i) = TILE_SIZE"
  unfolding tile_def by simp

lemma last_tile: 
  assumes "P \<noteq> []"
  shows "tile P (tiles P - 1) = drop ((tiles P - 1) * TILE_SIZE) P"
    and "1 \<le> length (tile P (tiles P - 1))" and "length (tile P (tiles P - 1)) \<le> TILE_SIZE"
proof -
  have "length P \<le> (tiles P - 1) * TILE_SIZE + TILE_SIZE"
    using tiles_bounds [OF assms] by (cases "tiles P") auto
  then show "tile P (tiles P - 1) = drop ((tiles P - 1) * TILE_SIZE) P" unfolding tile_def by simp
  show "1 \<le> length (tile P (tiles P - 1))" "length (tile P (tiles P - 1)) \<le> TILE_SIZE"
    using tiles_bounds(2) [OF assms] unfolding tile_def by (auto simp: tile_size)
qed

lemma inner_tile: "P \<noteq> [] \<Longrightarrow> i + 1 < tiles P \<Longrightarrow> (i + 1) * TILE_SIZE \<le> length P"
proof -
  assume "P \<noteq> []" "i + 1 < tiles P"
  then have "(i + 1) * TILE_SIZE \<le> (tiles P - 1) * TILE_SIZE" by (intro mult_le_mono1) simp
  then show ?thesis using tiles_bounds(2) [OF \<open>P \<noteq> []\<close>] by linarith
qed

definition frag :: "bytes \<Rightarrow> u8 \<Rightarrow> nat \<Rightarrow> fragment" where
  "frag P r i = \<lparr>fr_rule_id = r, fr_window = of_nat (i div 63),
     fr_fcn = (if i + 1 = tiles P then 63 else of_nat (62 - i mod 63)), fr_payload = tile P i,
     fr_mic = (if i + 1 = tiles P then compute_mic P else replicate MIC_LENGTH 0)\<rparr>"

lemma of_nat_62: "j < 63 \<Longrightarrow> (62 :: u8) - of_nat j = of_nat (62 - j)"
  by (simp add: of_nat_diff)

lemma slice_min: "slice a (min (a + n) (length P)) P = take n (drop a P)"
  by (cases "a + n \<le> length P") (simp_all add: slice_def min_def)

lemma get_fragment_frag:
  assumes "sender_of P r s"
  shows "get_fragment_inner s i = (if i < tiles P then Some (frag P r i) else None)"
proof -
  have s: "fs_payload s = P" "fs_rule_id s = r" "fs_count s = tiles P" "fs_mic s = compute_mic P"
    using assms by (simp_all add: sender_of_def tiles_def)
  have sl: "slice (i * TILE_SIZE) (min (i * TILE_SIZE + TILE_SIZE) (length P)) P = tile P i"
    unfolding tile_def by (rule slice_min)
  have f: "(62 :: u8) - of_nat (i mod 63) = of_nat (62 - i mod 63)" by (rule of_nat_62) simp
  have "i < tiles P \<longleftrightarrow> \<not> tiles P \<le> i" by auto
  then show ?thesis
    unfolding get_fragment_inner_def Let_def s sl frag_def WINDOW_SIZE_def all_1_fcn f by (simp only: if_not_P split: if_split) blast
qed

lemma sender_fragments_frag: "sender_of P r s \<Longrightarrow> sender_fragments s = map (frag P r) [0..<tiles P]"
  unfolding sender_fragments_def List.map_filter_def
  by (auto simp: get_fragment_frag sender_of_def tiles_def intro!: map_cong filter_True)

lemma frag_fcn:
  assumes "i < tiles P"
  shows "unat (fr_fcn (frag P r i)) = (if i + 1 = tiles P then 63 else 62 - i mod 63)"
    and "is_all_1 (frag P r i) \<longleftrightarrow> i + 1 = tiles P"
proof -
  have "62 - i mod 63 < 2 ^ LENGTH(8)" by simp
  then have u: "unat (of_nat (62 - i mod 63) :: u8) = 62 - i mod 63" by (rule unat_of_nat_small)
  then show "unat (fr_fcn (frag P r i)) = (if i + 1 = tiles P then 63 else 62 - i mod 63)"
    by (simp add: frag_def)
  show "is_all_1 (frag P r i) \<longleftrightarrow> i + 1 = tiles P"
    using u by (auto simp: is_all_1_def frag_def all_1_fcn word_unat_eq_iff)
qed

lemma frag_window: "i < 126 \<Longrightarrow> unat (fr_window (frag P r i)) = i div 63"
  by (simp add: frag_def unat_of_nat_small)

lemma frag_ok:
  assumes s: "sender_of P r s" and i: "i < tiles P"
  shows "fragment_ok (frag P r i)"
proof -
  have P: "P \<noteq> []" "check_rule r = Inr ()" "length P \<le> MAX_PACKET_SIZE" using s by (auto simp: sender_of_def)
  note b = tiles_bounds [OF P(1)]
  have i126: "i < 126" using i b(4) [OF P(3)] by simp
  have w: "fr_window (frag P r i) \<le> 1" using frag_window [OF i126] i126 by (simp add: word_le_nat_alt)
  have f: "fr_fcn (frag P r i) \<le> ALL_1_FCN" using frag_fcn(1) [OF i, of r] by (simp add: word_le_nat_alt all_1_fcn le_diff_conv split: if_splits)
  have z: "\<not> (fr_window (frag P r i) = 1 \<and> is_all_0 (frag P r i))" if "i + 1 \<noteq> tiles P"
  proof
    assume "fr_window (frag P r i) = 1 \<and> is_all_0 (frag P r i)"
    then have "i div 63 = 1" "62 - i mod 63 = 0"
      using frag_window [OF i126, of P r] frag_fcn(1) [OF i, of r] that by (auto simp: is_all_0_def)
    then have "i = 125" using div_mult_mod_eq [of i 63] mod_less_divisor [of 63 i] by linarith
    then show False using that i b(4) [OF P(3)] by simp
  qed
  have "i + 1 = tiles P \<Longrightarrow> tiles P - 1 = i" by simp
  then have lt: "i + 1 = tiles P \<Longrightarrow> 1 \<le> length (tile P i) \<and> length (tile P i) \<le> TILE_SIZE"
    using last_tile(2,3) [OF P(1)] by metis
  show ?thesis
    using P w f z lt frag_fcn(2) [OF i, of r] length_tile [OF inner_tile [OF P(1), of i]] i
    unfolding fragment_ok_def by (auto simp: frag_def)
qed
section \<open>Dispatch of genuine messages\<close>

lemma check_rule_cases: "check_rule r = Inr () \<Longrightarrow> r = 0x78 \<or> r = 0x79"
  by (simp add: check_rule_def RULE_ID_A_TO_B_def RULE_ID_B_TO_A_def split: if_splits)

lemma control_bytes_ok:
  assumes "check_rule r = Inr ()"
  shows "control_bytes (CtlSenderAbort r) = Inr [r, 0xfe]"
    and "control_bytes (CtlReceiverAbort r) = Inr [r, 0xff, 0xff]"
    and "w \<le> 1 \<Longrightarrow> control_bytes (CtlAckRequest r w) = Inr [r, push_bit 7 w]"
  using assms by (simp_all add: control_bytes_def control_write_to_def numeral_2_eq_2 numeral_3_eq_3)

lemma drop_7_le_1: "drop_bit 7 (x :: u8) \<le> 1"
proof -
  have "unat x < 2 ^ LENGTH(8)" by (rule unsigned_less)
  then have "unat x < 256" by simp
  then show ?thesis unfolding word_le_nat_alt by (simp add: drop_bit_eq_div unat_div)
qed

lemma ack_from_bytes_not_fragment:
  assumes f: "fragment_ok f" shows "ack_from_bytes (fragment_wire f) \<noteq> Inr a"
proof
  assume "ack_from_bytes (fragment_wire f) = Inr a"
  then have a: "ack_ok a" and w: "fragment_wire f = ack_wire a" by (simp_all add: ack_from_bytes_iff)
  have len: "length (fragment_wire f) \<le> 10" using ack_wire_length(1) [OF a] w by simp
  then have "is_all_1 f" using f by (auto simp: fragment_ok_def fragment_content_def tile_size split: if_splits)
  then have c: "fr_fcn f = ALL_1_FCN" "fragment_content f \<noteq> []" "length (fragment_wire f) > 2"
    using f by (auto simp: fragment_ok_def fragment_content_def is_all_1_def MIC_LENGTH_def)
  have "drop_bit 1 (fragment_wire f ! 1) = drop_bit 1 (fragment_header f)"
    using pack_wire_header unfolding fragment_wire_def by (simp add: hd_conv_nth [symmetric])
  then have "drop_bit 1 (fragment_wire f ! 1) AND (push_bit FRAGMENT_N 1 - 1) = 63"
    using fragment_header_fields(2) f c by (simp add: fragment_ok_def all_1_fcn)
  then have "bit (drop_bit 1 (fragment_wire f ! 1) AND mask 6) 5"
    unfolding fcn_mask by simp
  then have "bit (fragment_wire f ! 1) 6" by (simp add: bit_and_iff bit_drop_bit_eq)
  then have "ack_complete a" using ack_wire_header(3) [OF a] w and_0x40_iff by metis
  then show False using ack_wire_header(4) [OF a] w c by simp
qed

definition active_rx :: "fragment_receiver \<Rightarrow> fragment_receiver" where
  "active_rx rx = (if fx_done rx then receiver_reset rx else rx)"

lemma receive_bytes_fragment:
  assumes f: "fragment_ok f"
  shows "receive_bytes_inner rx (fragment_wire f) = Inr (receive_inner (active_rx rx) f)"
proof -
  let ?d = "fragment_wire f"
  have r: "check_rule (fr_rule_id f) = Inr ()" and hd: "?d ! 0 = fr_rule_id f"
    using f by (simp_all add: fragment_ok_def fragment_wire_def)
  have "length (fragment_content f) \<ge> 5"
    using f by (auto simp: fragment_ok_def fragment_content_def tile_size MIC_LENGTH_def split: if_splits)
  then have len: "length ?d \<ge> 7" by simp
  have ne: "\<not> length ?d < 2" "?d \<noteq> [a, b]" "?d \<noteq> [a, b, c]" for a b c
    using len by (linarith, use len in \<open>auto simp del: length_fragment_wire\<close>)
  have sf: "is_sender_facing_control ?d (fr_rule_id f) = Inr False"
    unfolding is_sender_facing_control_def control_bytes_ok(1,2) [OF r]
    using ne ack_from_bytes_not_fragment [OF f] drop_7_le_1
    by (auto simp: control_bytes_ok(3) [OF r] Let_def split: list.split sum.split)
  show ?thesis
    unfolding receive_bytes_inner_def hd r Let_def res_bind.simps control_bytes_ok(1) [OF r]
      control_bytes_ok(3) [OF r drop_7_le_1] sf active_rx_def
    using ne fragment_from_bytes_wire [OF f order_refl] by simp
qed

lemma receive_bytes_ack_request:
  assumes r: "check_rule r = Inr ()" and w: "w \<le> 1"
  shows "receive_bytes_inner rx [r, push_bit 7 w] = Inr (receive_ack_request (active_rx rx) r)"
proof -
  have w01: "w = 0 \<or> w = 1" using w by (metis word_le_less_eq word_less_1)
  then have "push_bit 7 w \<noteq> 0xfe" "drop_bit 7 (push_bit 7 w) = w" by auto
  then show ?thesis
    unfolding receive_bytes_inner_def active_rx_def using r w
    by (simp add: control_bytes_ok Let_def del: push_bit_numeral_minus_1)
qed

lemma receive_bytes_abort:
  assumes r: "check_rule r = Inr ()"
  shows "receive_bytes_inner rx [r, 0xfe] = Inr (receiver_release rx, rr_default\<lparr>rr_aborted := True\<rparr>)"
  unfolding receive_bytes_inner_def using r by (simp add: control_bytes_ok Let_def)
section \<open>Bitmaps of a window\<close>

definition regular_count :: "u64 \<Rightarrow> nat" where
  "regular_count bm = (if bm = 0 then 0 else WINDOW_SIZE - trailing_zeros bm)"

definition required_bits :: "nat \<Rightarrow> u64" where
  "required_bits n = (if n = 0 then 0 else BITMAP_MASK AND NOT (drop_bit n BITMAP_MASK))"

lemma trailing_zeros_spec:
  assumes "bm \<noteq> 0"
  shows "bit bm (trailing_zeros bm)" and "j < trailing_zeros bm \<Longrightarrow> \<not> bit bm j" and "trailing_zeros bm < 64"
proof -
  let ?t = "takeWhile (\<lambda>i. \<not> bit bm i) [0..<64]"
  have "\<exists>i<64. bit bm i"
  proof (rule ccontr)
    assume "\<not> ?thesis"
    then have "bm = 0" by (intro bit_word_eqI) auto
    with assms show False by simp
  qed
  then have "?t \<noteq> [0..<64]" unfolding takeWhile_eq_all_conv by auto
  then have l: "length ?t < 64"
    using length_takeWhile_le [of "\<lambda>i. \<not> bit bm i" "[0..<64]"] takeWhile_eq_take [of "\<lambda>i. \<not> bit bm i" "[0..<64]"]
    by (metis diff_zero le_neq_implies_less length_upt take_all order_refl)
  then show "trailing_zeros bm < 64" by (simp add: trailing_zeros_def)
  show "bit bm (trailing_zeros bm)"
    using nth_length_takeWhile [of "\<lambda>i. \<not> bit bm i" "[0..<64]"] l by (simp add: trailing_zeros_def)
  show "\<not> bit bm j" if "j < trailing_zeros bm"
    using that nth_mem [of j ?t] takeWhile_nth [of j "\<lambda>i. \<not> bit bm i" "[0..<64]"] l set_takeWhileD [of j _ "[0..<64]"]
    unfolding trailing_zeros_def by auto
qed

lemma masked_bit: "bm AND BITMAP_MASK = bm \<Longrightarrow> bit bm j \<Longrightarrow> j < 63"
  by (metis bit_BITMAP_MASK bit_and_iff)

lemma regular_count_spec:
  assumes m: "bm AND BITMAP_MASK = bm"
  shows "regular_count bm \<le> 63" and "j < 63 \<Longrightarrow> bit bm (62 - j) \<Longrightarrow> j < regular_count bm"
    and "regular_count bm > 0 \<Longrightarrow> bit bm (62 - (regular_count bm - 1))"
proof -
  show "regular_count bm \<le> 63" by (simp add: regular_count_def WINDOW_SIZE_def)
  show "j < regular_count bm" if j: "j < 63" "bit bm (62 - j)"
  proof -
    have "bm \<noteq> 0" using j by auto
    moreover have "\<not> 62 - j < trailing_zeros bm" using trailing_zeros_spec(2) [of bm "62 - j"] j calculation by blast
    ultimately show ?thesis using j by (simp add: regular_count_def WINDOW_SIZE_def)
  qed
  show "bit bm (62 - (regular_count bm - 1))" if c: "regular_count bm > 0"
  proof -
    have "bm \<noteq> 0" using c by (auto simp: regular_count_def)
    note t = trailing_zeros_spec(1) [OF this]
    then have "trailing_zeros bm < 63" using masked_bit [OF m] by blast
    then have "62 - (regular_count bm - 1) = trailing_zeros bm"
      using c by (simp add: regular_count_def WINDOW_SIZE_def split: if_splits)
    then show ?thesis using t by simp
  qed
qed

lemma bit_required_bits: "n \<le> 63 \<Longrightarrow> bit (required_bits n) j \<longleftrightarrow> j < 63 \<and> 62 - j < n"
  unfolding required_bits_def
  by (auto simp: bit_and_iff bit_not_iff bit_drop_bit_eq bit_BITMAP_MASK)

lemma required_bits_iff:
  assumes "n \<le> 63"
  shows "bm AND required_bits n = required_bits n \<longleftrightarrow> (\<forall>j<n. bit bm (62 - j))"
proof
  assume e: "bm AND required_bits n = required_bits n"
  show "\<forall>j<n. bit bm (62 - j)"
  proof safe
    fix j assume "j < n"
    then have "bit (required_bits n) (62 - j)" using assms by (simp add: bit_required_bits)
    then show "bit bm (62 - j)" using e by (metis bit_and_iff)
  qed
next
  assume a: "\<forall>j<n. bit bm (62 - j)"
  show "bm AND required_bits n = required_bits n"
  proof (rule bit_word_eqI)
    fix j :: nat
    have "j < 63 \<Longrightarrow> 62 - (62 - j) = j" by simp
    then show "bit (bm AND required_bits n) j = bit (required_bits n) j"
      using a assms by (auto simp: bit_and_iff bit_required_bits dest: spec [of _ "62 - j"])
  qed
qed

lemma bitmap_full_iff:
  assumes "bm AND BITMAP_MASK = bm"
  shows "bm = BITMAP_MASK \<longleftrightarrow> (\<forall>j<63. bit bm (62 - j))"
proof
  assume "bm = BITMAP_MASK" then show "\<forall>j<63. bit bm (62 - j)" by (auto simp: bit_BITMAP_MASK)
next
  assume a: "\<forall>j<63. bit bm (62 - j)"
  show "bm = BITMAP_MASK"
  proof (rule bit_word_eqI)
    fix j :: nat
    have "j < 63 \<Longrightarrow> 62 - (62 - j) = j" by simp
    then show "bit bm j = bit BITMAP_MASK j"
      using a masked_bit [OF assms, of j] by (auto simp: bit_BITMAP_MASK dest: spec [of _ "62 - j"])
  qed
qed

lemma count_ones_le:
  assumes m: "bm AND BITMAP_MASK = bm" and b: "\<And>j. j < 63 \<Longrightarrow> bit bm (62 - j) \<Longrightarrow> j < n"
  shows "count_ones bm \<le> n"
proof -
  have "set (filter (bit bm) [0..<64]) = {j. j < 64 \<and> bit bm j}" by auto
  then have "count_ones bm = card {j. j < 64 \<and> bit bm j}"
    unfolding count_ones_def using distinct_card [of "filter (bit bm) [0..<64]"] by (metis distinct_filter distinct_upt)
  also have "\<dots> \<le> card {..<n}"
  proof (rule card_inj_on_le)
    show "inj_on (\<lambda>j. 62 - j) {j. j < 64 \<and> bit bm j}"
    proof (rule inj_onI)
      fix x y assume "x \<in> {j. j < 64 \<and> bit bm j}" "y \<in> {j. j < 64 \<and> bit bm j}" "62 - x = 62 - y"
      moreover from this have "x < 63" "y < 63" using masked_bit [OF m] by auto
      ultimately show "x = y" by linarith
    qed
    show "(\<lambda>j. 62 - j) ` {j. j < 64 \<and> bit bm j} \<subseteq> {..<n}"
    proof (rule image_subsetI)
      fix j assume "j \<in> {j. j < 64 \<and> bit bm j}"
      then have j: "bit bm j" by simp
      then have "j < 63" by (rule masked_bit [OF m])
      then have "62 - (62 - j) = j" by simp
      then show "62 - j \<in> {..<n}" using b [of "62 - j"] j by simp
    qed
  qed simp
  finally show ?thesis by simp
qed
section \<open>The reassembly invariant\<close>

definition got :: "fragment_receiver \<Rightarrow> nat \<Rightarrow> bool" where
  "got rx k \<longleftrightarrow> bit (fx_bitmaps rx ! (k div 63)) (62 - k mod 63)"

definition faithful :: "bytes \<Rightarrow> bytes \<Rightarrow> bool" where
  "faithful P Q \<longleftrightarrow> Q = P \<or> length Q < length P \<and> compute_mic Q = compute_mic P"

definition rx_inv :: "bytes \<Rightarrow> u8 \<Rightarrow> fragment_receiver \<Rightarrow> bool" where
  "rx_inv P r rx \<longleftrightarrow>
     length (fx_bitmaps rx) = 2 \<and> (\<forall>w<2. fx_bitmaps rx ! w AND BITMAP_MASK = fx_bitmaps rx ! w) \<and>
     fx_limit rx \<le> length (fx_storage rx) \<and> length P \<le> fx_limit rx \<and>
     (fx_rule_id rx = None \<or> fx_rule_id rx = Some r) \<and> length (fx_final_tile rx) = TILE_SIZE \<and>
     (\<forall>k<126. got rx k \<longrightarrow> k + 1 < tiles P \<and> slice (k * TILE_SIZE) ((k + 1) * TILE_SIZE) (fx_storage rx) = tile P k) \<and>
     (fx_all1 rx \<longrightarrow> fx_all1_window rx = of_nat ((tiles P - 1) div 63) \<and> fx_all1_mic rx = compute_mic P \<and>
        fx_final_len rx = length (tile P (tiles P - 1)) \<and> take (fx_final_len rx) (fx_final_tile rx) = tile P (tiles P - 1)) \<and>
     (\<forall>n. fx_packet_len rx = Some n \<longrightarrow> fx_done rx \<and> faithful P (take n (fx_storage rx)))"

lemma got_reset: "k < 126 \<Longrightarrow> \<not> got (receiver_reset rx) k"
proof -
  assume "k < 126"
  then have "k div 63 = 0 \<or> k div 63 = 1" by linarith
  then show ?thesis by (auto simp: got_def receiver_reset_def)
qed

lemma rx_inv_reset:
  assumes "rx_inv P r rx"
  shows "rx_inv P r (receiver_reset rx)" "\<not> fx_done (receiver_reset rx)" "rx_inv P r (receiver_release rx)"
proof -
  have w: "\<forall>w<2. [0, 0 :: u64] ! w AND BITMAP_MASK = [0, 0] ! w" by (simp add: All_less_Suc numeral_2_eq_2)
  have g: "got (receiver_release rx) k = got (receiver_reset rx) k" for k by (simp add: receiver_release_def got_def)
  have b: "fx_bitmaps (receiver_reset rx) = [0, 0]" "fx_bitmaps (receiver_release rx) = [0, 0]"
    by (simp_all add: receiver_reset_def receiver_release_def)
  show "\<not> fx_done (receiver_reset rx)" by (simp add: receiver_reset_def)
  show "rx_inv P r (receiver_reset rx)" "rx_inv P r (receiver_release rx)"
    using assms w got_reset g unfolding rx_inv_def b
    by (simp_all add: receiver_reset_def receiver_release_def)
qed

lemma rx_inv_active: "rx_inv P r rx \<Longrightarrow> rx_inv P r (active_rx rx) \<and> \<not> fx_done (active_rx rx)"
  using rx_inv_reset by (auto simp: active_rx_def)

lemma rx_inv_abort: "rx_inv P r rx \<Longrightarrow> rx_inv P r (fst (receiver_abort rx x))"
  by (simp add: receiver_abort_def rx_inv_reset)

lemma rx_inv_attempts: "rx_inv P r (rx\<lparr>fx_attempts := n\<rparr>) = rx_inv P r rx"
  unfolding rx_inv_def got_def by simp

lemma rx_inv_respond: "rx_inv P r rx \<Longrightarrow> rx_inv P r (fst (respond rx a))"
  by (simp add: respond_def rx_inv_abort rx_inv_attempts)

lemma respond_result:
  "respond rx a = (if unat (fx_attempts rx) \<ge> 4 then receiver_abort rx (ack_rule_id a)
     else (rx\<lparr>fx_attempts := fx_attempts rx + 1\<rparr>, rr_default\<lparr>rr_response := Some (RespAck a)\<rparr>))"
  by (simp add: respond_def MAX_ACK_REQUESTS_def)

lemma bind_rule_genuine:
  assumes "rx_inv P r rx"
  shows "bind_rule rx r = Inr (rx\<lparr>fx_rule_id := Some r\<rparr>)" and "rx_inv P r (rx\<lparr>fx_rule_id := Some r\<rparr>)"
proof -
  show "bind_rule rx r = Inr (rx\<lparr>fx_rule_id := Some r\<rparr>)"
    using assms by (auto simp: bind_rule_def rx_inv_def split: option.split)
  show "rx_inv P r (rx\<lparr>fx_rule_id := Some r\<rparr>)" using assms unfolding rx_inv_def got_def by auto
qed

lemma rx_inv_got: "rx_inv P r rx \<Longrightarrow> k < 126 \<Longrightarrow> got rx k \<Longrightarrow> k + 1 < tiles P"
  by (simp add: rx_inv_def)

text \<open>Writing one tile slot leaves the other slots alone.\<close>

lemma slice_splice_disjoint:
  assumes "off + length bs \<le> length buf" and "j \<le> off \<or> off + length bs \<le> i" and "i \<le> j"
  shows "slice i j (splice buf off bs) = slice i j buf"
proof (cases "j \<le> off")
  case True
  then have "take j (splice buf off bs) = take j buf" using assms by (simp add: splice_def min_absorb1)
  then show ?thesis unfolding slice_def by (metis drop_take)
next
  case False
  then have o: "off + length bs \<le> i" using assms by simp
  then have "drop i (splice buf off bs) = drop i buf"
    using assms unfolding splice_def by (simp add: min_absorb2)
  then show ?thesis by (simp add: slice_def)
qed

lemma slice_splice_same: "off + length bs \<le> length buf \<Longrightarrow> slice off (off + length bs) (splice buf off bs) = bs"
  by (simp add: slice_def splice_def min_absorb2)

lemma tile_slots_disjoint:
  assumes "k \<noteq> m" and "length bs \<le> TILE_SIZE"
  shows "(k + 1) * TILE_SIZE \<le> m * TILE_SIZE \<or> m * TILE_SIZE + length bs \<le> k * TILE_SIZE"
proof (cases "k < m")
  case True
  then have "(k + 1) * TILE_SIZE \<le> m * TILE_SIZE" by (intro mult_le_mono1) simp
  then show ?thesis by simp
next
  case False
  then have "(m + 1) * TILE_SIZE \<le> k * TILE_SIZE" using assms by (intro mult_le_mono1) simp
  then show ?thesis using assms(2) by simp
qed

lemma rx_inv_write_slot:
  assumes inv: "rx_inv P r rx" and ng: "m < 126 \<Longrightarrow> \<not> got rx m" and bs: "length bs \<le> TILE_SIZE"
    and fits: "m * TILE_SIZE + length bs \<le> fx_limit rx" and nd: "fx_packet_len rx = None"
  shows "rx_inv P r (rx\<lparr>fx_storage := splice (fx_storage rx) (m * TILE_SIZE) bs\<rparr>)"
proof -
  let ?rx = "rx\<lparr>fx_storage := splice (fx_storage rx) (m * TILE_SIZE) bs\<rparr>"
  have l: "m * TILE_SIZE + length bs \<le> length (fx_storage rx)" using inv fits by (simp add: rx_inv_def)
  have "slice (k * TILE_SIZE) ((k + 1) * TILE_SIZE) (fx_storage ?rx) = slice (k * TILE_SIZE) ((k + 1) * TILE_SIZE) (fx_storage rx)"
    if "k < 126" "got rx k" for k
  proof -
    have "k \<noteq> m" using that ng by auto
    then show ?thesis using slice_splice_disjoint [OF l tile_slots_disjoint [OF _ bs]] by simp
  qed
  moreover have "got ?rx k = got rx k" for k by (simp add: got_def)
  ultimately show ?thesis using inv nd l unfolding rx_inv_def by auto
qed
section \<open>Closing a session\<close>

lemma tiles_prefix:
  assumes "\<forall>k<m. slice (k * TILE_SIZE) ((k + 1) * TILE_SIZE) S = tile P k" and "m * TILE_SIZE \<le> length S"
    and "m * TILE_SIZE \<le> length P"
  shows "take (m * TILE_SIZE) S = take (m * TILE_SIZE) P"
  using assms
proof (induction m)
  case (Suc m)
  have s: "take (Suc m * TILE_SIZE) X = take (m * TILE_SIZE) X @ take TILE_SIZE (drop (m * TILE_SIZE) X)" for X :: bytes
    by (metis add.commute mult_Suc take_add)
  have "take TILE_SIZE (drop (m * TILE_SIZE) S) = take TILE_SIZE (drop (m * TILE_SIZE) P)"
    using Suc.prems(1) by (auto simp: slice_def tile_def)
  then show ?case using Suc unfolding s by simp
qed simp

definition fin_window :: "bytes \<Rightarrow> nat" where
  "fin_window P = (tiles P - 1) div 63"

lemma fin_window_bounds:
  assumes "P \<noteq> []" "length P \<le> MAX_PACKET_SIZE"
  shows "fin_window P \<le> 1" and "unat (of_nat (fin_window P) :: u8) = fin_window P"
    and "fin_window P * 63 \<le> tiles P - 1" and "tiles P - 1 < fin_window P * 63 + 63"
    and "(of_nat (fin_window P) = (1 :: u8)) = (fin_window P = 1)"
proof -
  have t: "tiles P \<le> 126" using tiles_bounds(4) [OF assms] .
  show f: "fin_window P \<le> 1" unfolding fin_window_def using t by simp
  then have "fin_window P = 0 \<or> fin_window P = 1" by linarith
  then show "unat (of_nat (fin_window P) :: u8) = fin_window P" "(of_nat (fin_window P) = (1 :: u8)) = (fin_window P = 1)"
    by auto
  show "fin_window P * 63 \<le> tiles P - 1" "tiles P - 1 < fin_window P * 63 + 63"
    unfolding fin_window_def using div_mult_mod_eq [of "tiles P - 1" 63] mod_less_divisor [of 63 "tiles P - 1"] by linarith+
qed

definition received_tiles :: "fragment_receiver \<Rightarrow> nat \<Rightarrow> nat" where
  "received_tiles rx w = w * 63 + regular_count (fx_bitmaps rx ! w)"

text \<open>
  What \<open>finalize\<close> does once the final tile is held: it reports the first window with a hole,
  or assembles the contiguous tiles with the final one and compares the integrity check.
\<close>

lemma got_window: "j < 63 \<Longrightarrow> got rx (w * 63 + j) \<longleftrightarrow> bit (fx_bitmaps rx ! w) (62 - j)"
  by (simp add: got_def)

definition with_final :: "fragment_receiver \<Rightarrow> nat \<Rightarrow> fragment_receiver" where
  "with_final rx m = rx\<lparr>fx_storage := splice (fx_storage rx) (m * TILE_SIZE) (take (fx_final_len rx) (fx_final_tile rx))\<rparr>"

definition closing :: "bytes \<Rightarrow> u8 \<Rightarrow> fragment_receiver \<Rightarrow> bool" where
  "closing P r rx \<longleftrightarrow> rx_inv P r rx \<and> fx_all1 rx \<and> fx_rule_id rx = Some r \<and> \<not> fx_done rx \<and>
     P \<noteq> [] \<and> length P \<le> MAX_PACKET_SIZE"

lemma closing_window:
  assumes "closing P r rx"
  shows "unat (fx_all1_window rx) = fin_window P" and "fx_all1_window rx = of_nat (fin_window P)"
    and "fx_all1_window rx = 1 \<longleftrightarrow> fin_window P = 1" and "fin_window P \<le> 1"
    and "fx_bitmaps rx ! fin_window P AND BITMAP_MASK = fx_bitmaps rx ! fin_window P"
    and "fx_bitmaps rx ! 0 AND BITMAP_MASK = fx_bitmaps rx ! 0"
proof -
  have P: "P \<noteq> []" "length P \<le> MAX_PACKET_SIZE" using assms by (auto simp: closing_def)
  show w: "fx_all1_window rx = of_nat (fin_window P)"
    using assms by (simp add: closing_def rx_inv_def fin_window_def)
  show "unat (fx_all1_window rx) = fin_window P" "fx_all1_window rx = 1 \<longleftrightarrow> fin_window P = 1" "fin_window P \<le> 1"
    using fin_window_bounds [OF P] unfolding w by auto
  then show "fx_bitmaps rx ! fin_window P AND BITMAP_MASK = fx_bitmaps rx ! fin_window P"
      "fx_bitmaps rx ! 0 AND BITMAP_MASK = fx_bitmaps rx ! 0"
    using assms unfolding closing_def rx_inv_def by auto
qed

lemma received_tiles_bounds:
  assumes c: "closing P r rx"
  defines "m \<equiv> received_tiles rx (fin_window P)"
  shows "m \<le> tiles P - 1" and "m < 126 \<Longrightarrow> \<not> got rx m" and "m \<le> 125"
    and "\<lbrakk>fin_window P * 63 \<le> k; k < 126; got rx k\<rbrakk> \<Longrightarrow> k < m"
proof -
  let ?w = "fin_window P" let ?n = "regular_count (fx_bitmaps rx ! ?w)"
  have P: "P \<noteq> []" "length P \<le> MAX_PACKET_SIZE" and inv: "rx_inv P r rx" using c by (auto simp: closing_def)
  note cw = closing_window [OF c] and fb = fin_window_bounds [OF P] and rc = regular_count_spec [OF closing_window(5) [OF c]]
  have t: "tiles P \<le> 126" "1 \<le> tiles P" using tiles_bounds [OF P(1)] P(2) by auto
  show le: "m \<le> tiles P - 1"
  proof (cases "?n = 0")
    case True then show ?thesis using fb(3) by (simp add: m_def received_tiles_def)
  next
    case False
    then have "got rx (?w * 63 + (?n - 1))" using rc(1,3) by (subst got_window) auto
    then have "?w * 63 + (?n - 1) + 1 < tiles P"
      using rx_inv_got [OF inv, of "?w * 63 + (?n - 1)"] rc(1) cw(4) False by simp
    then show ?thesis using False by (simp add: m_def received_tiles_def)
  qed
  then show "m \<le> 125" using t by simp
  show k: "k < m" if "?w * 63 \<le> k" "k < 126" "got rx k" for k
  proof -
    have "k + 1 < tiles P" using rx_inv_got [OF inv that(2,3)] .
    then have j: "k - ?w * 63 < 63" "k = ?w * 63 + (k - ?w * 63)" using fb(4) that(1) by linarith+
    then have "bit (fx_bitmaps rx ! ?w) (62 - (k - ?w * 63))" using got_window [OF j(1), of rx ?w] that(3) by simp
    then have "k - ?w * 63 < ?n" using rc(2) j(1) by blast
    then show ?thesis using j(2) unfolding m_def received_tiles_def by linarith
  qed
  show "\<not> got rx m" if "m < 126" using k [of m] that by (auto simp: m_def received_tiles_def)
qed

lemma with_final_packet:
  assumes c: "closing P r rx" and pre: "\<forall>k<m. got rx k" and m: "m = received_tiles rx (fin_window P)"
  shows "m * TILE_SIZE + fx_final_len rx \<le> length P"
    and "rx_inv P r (with_final rx m)"
    and "take (m * TILE_SIZE + fx_final_len rx) (fx_storage (with_final rx m)) = take (m * TILE_SIZE) P @ tile P (tiles P - 1)"
    and "m = tiles P - 1 \<Longrightarrow> m * TILE_SIZE + fx_final_len rx = length P \<and> take (m * TILE_SIZE) P @ tile P (tiles P - 1) = P"
    and "m \<noteq> tiles P - 1 \<Longrightarrow> m * TILE_SIZE + fx_final_len rx < length P"
proof -
  have P: "P \<noteq> []" "length P \<le> MAX_PACKET_SIZE" and inv: "rx_inv P r rx" and a: "fx_all1 rx" "fx_packet_len rx = None"
    using c by (auto simp: closing_def rx_inv_def)
  have f: "fx_final_len rx = length (tile P (tiles P - 1))" "take (fx_final_len rx) (fx_final_tile rx) = tile P (tiles P - 1)"
      "fx_limit rx \<le> length (fx_storage rx)" "length P \<le> fx_limit rx"
    using inv a unfolding rx_inv_def by auto
  note b = received_tiles_bounds [OF c, folded m] and lt = last_tile [OF P(1)] and tb = tiles_bounds [OF P(1)]
  have L: "(tiles P - 1) * TILE_SIZE + fx_final_len rx = length P" unfolding f lt(1) using tb(2) by simp
  have le: "m * TILE_SIZE \<le> (tiles P - 1) * TILE_SIZE" using b(1) by (rule mult_le_mono1)
  show len: "m * TILE_SIZE + fx_final_len rx \<le> length P" using L le by linarith
  show "rx_inv P r (with_final rx m)"
    unfolding with_final_def f using inv b(2) lt(3) len a f by (intro rx_inv_write_slot) auto
  have "take (m * TILE_SIZE) (fx_storage rx) = take (m * TILE_SIZE) P"
    using inv pre b(3) len f unfolding rx_inv_def by (intro tiles_prefix) auto
  then show "take (m * TILE_SIZE + fx_final_len rx) (fx_storage (with_final rx m)) = take (m * TILE_SIZE) P @ tile P (tiles P - 1)"
    unfolding with_final_def using f len by (simp add: splice_def min_absorb2)
  show "m = tiles P - 1 \<Longrightarrow> m * TILE_SIZE + fx_final_len rx = length P \<and> take (m * TILE_SIZE) P @ tile P (tiles P - 1) = P"
    using L lt(1) by simp
  show "m * TILE_SIZE + fx_final_len rx < length P" if "m \<noteq> tiles P - 1"
  proof -
    have "m * TILE_SIZE < (tiles P - 1) * TILE_SIZE" using b(1) that by (simp add: tile_size)
    then show ?thesis using L by linarith
  qed
qed
definition delivered_result :: "ack \<Rightarrow> nat \<Rightarrow> receiver_result" where
  "delivered_result a n = \<lparr>rr_response = Some (RespAck a), rr_packet_len = Some n, rr_mic_ok = Some True, rr_aborted = False\<rparr>"

lemma window_tiles:
  assumes "n \<le> 63"
  shows "(\<forall>j<n. bit (fx_bitmaps rx ! w) (62 - j)) \<longleftrightarrow> (\<forall>k. w * 63 \<le> k \<longrightarrow> k < w * 63 + n \<longrightarrow> got rx k)"
proof
  assume a: "\<forall>j<n. bit (fx_bitmaps rx ! w) (62 - j)"
  show "\<forall>k. w * 63 \<le> k \<longrightarrow> k < w * 63 + n \<longrightarrow> got rx k"
  proof (intro allI impI)
    fix k assume k: "w * 63 \<le> k" "k < w * 63 + n"
    then obtain j where j: "k = w * 63 + j" using le_Suc_ex by blast
    with k have "j < n" by simp
    then show "got rx k" using a assms unfolding j by (subst got_window) auto
  qed
next
  assume a: "\<forall>k. w * 63 \<le> k \<longrightarrow> k < w * 63 + n \<longrightarrow> got rx k"
  show "\<forall>j<n. bit (fx_bitmaps rx ! w) (62 - j)"
  proof (intro allI impI)
    fix j assume "j < n"
    then have "got rx (w * 63 + j)" "j < 63" using a assms by simp_all
    then show "bit (fx_bitmaps rx ! w) (62 - j)" using got_window by blast
  qed
qed

lemma finalize_window_0:
  assumes c: "closing P r rx" and w: "fin_window P = 1" "\<not> (\<forall>k<63. got rx k)"
  shows "finalize rx = respond rx (ack_new r 0 (fx_bitmaps rx ! 0) False)"
proof -
  have "fx_bitmaps rx ! 0 \<noteq> BITMAP_MASK"
    using w bitmap_full_iff [OF closing_window(6) [OF c]] window_tiles [of 63 rx 0] by simp
  then show ?thesis
    using c closing_window(3) [OF c] w unfolding finalize_def closing_def by (simp add: Let_def)
qed

lemma finalize_full_0:
  assumes c: "closing P r rx" and w: "fin_window P = 1 \<longrightarrow> (\<forall>k<63. got rx k)"
  shows "(fx_all1_window rx = 1 \<and> fx_bitmaps rx ! 0 \<noteq> BITMAP_MASK) = False"
  using w closing_window(3) [OF c] bitmap_full_iff [OF closing_window(6) [OF c]] window_tiles [of 63 rx 0] by auto

lemma finalize_hole:
  assumes c: "closing P r rx" and w: "fin_window P = 1 \<longrightarrow> (\<forall>k<63. got rx k)"
    and h: "\<not> (\<forall>k < received_tiles rx (fin_window P). got rx k)"
  shows "finalize rx = respond rx (ack_new r (fx_all1_window rx) (fx_bitmaps rx ! fin_window P OR 1) False)"
proof -
  let ?b = "fx_bitmaps rx ! fin_window P"
  note rc = regular_count_spec [OF closing_window(5) [OF c]]
  have "\<not> (\<forall>j<regular_count ?b. bit ?b (62 - j))"
  proof
    assume a: "\<forall>j<regular_count ?b. bit ?b (62 - j)"
    have "got rx k" if k: "k < received_tiles rx (fin_window P)" for k
    proof (cases "k < fin_window P * 63")
      case True
      then show ?thesis using w closing_window(4) [OF c] by (cases "fin_window P = 1") auto
    next
      case False
      then show ?thesis using a k window_tiles [OF rc(1), of rx "fin_window P"] by (simp add: received_tiles_def)
    qed
    with h show False by blast
  qed
  then have q: "?b AND required_bits (regular_count ?b) \<noteq> required_bits (regular_count ?b)"
    using required_bits_iff [OF rc(1)] by blast
  show ?thesis
    using c q unfolding finalize_def closing_def Let_def closing_window(1) [OF c] finalize_full_0 [OF c w] if_False
      regular_count_def [symmetric] required_bits_def [symmetric]
    by simp
qed

lemma finalize_assembled:
  assumes c: "closing P r rx" and g: "\<forall>k < m. got rx k" and m: "m = received_tiles rx (fin_window P)"
  shows "finalize rx =
    (let Q = take (m * TILE_SIZE) P @ tile P (tiles P - 1); rx1 = with_final rx m in
     if compute_mic Q = compute_mic P then
       (let (rx2, result) = respond_with_packet (rx1\<lparr>fx_packet_len := Some (length Q)\<rparr>) (ack_new r (fx_all1_window rx) 0 True)
        in (rx2\<lparr>fx_done := True\<rparr>, result))
     else respond_with_mic_failure rx1
       (ack_new r (fx_all1_window rx)
         (if fx_bitmaps rx ! fin_window P = required_bits (regular_count (fx_bitmaps rx ! fin_window P)) \<and>
             count_ones (fx_bitmaps rx ! fin_window P) = regular_count (fx_bitmaps rx ! fin_window P) \<and>
             regular_count (fx_bitmaps rx ! fin_window P) > 1
          then fx_bitmaps rx ! fin_window P else fx_bitmaps rx ! fin_window P OR 1) False))"
proof -
  let ?b = "fx_bitmaps rx ! fin_window P" let ?n = "regular_count ?b"
  let ?Q = "take (m * TILE_SIZE) P @ tile P (tiles P - 1)"
  note rc = regular_count_spec [OF closing_window(5) [OF c]] and wf = with_final_packet [OF c g m]
  have gm: "m = fin_window P * 63 + ?n" using m by (simp add: received_tiles_def)
  have "\<forall>j<?n. bit ?b (62 - j)"
    using g window_tiles [OF rc(1), of rx "fin_window P"] unfolding gm by simp
  then have q: "\<not> ?b AND required_bits ?n \<noteq> required_bits ?n" using required_bits_iff [OF rc(1)] by blast
  have w: "fin_window P = 1 \<longrightarrow> (\<forall>k<63. got rx k)" using g unfolding gm by auto
  have inv: "rx_inv P r rx" "fx_all1 rx" using c by (auto simp: closing_def)
  then have f: "fx_final_len rx = length (tile P (tiles P - 1))" "fx_all1_mic rx = compute_mic P" "length P \<le> fx_limit rx"
    unfolding rx_inv_def by auto
  have "m * TILE_SIZE \<le> length P" using wf(1) by linarith
  then have Q: "length ?Q = m * TILE_SIZE + fx_final_len rx" using f by (simp add: min_absorb2)
  have lim: "\<not> (fin_window P * WINDOW_SIZE + ?n) * TILE_SIZE + fx_final_len rx > fx_limit rx"
    using wf(1) f(3) unfolding gm WINDOW_SIZE_def by linarith
  have r: "fx_rule_id rx = Some r" using c by (simp add: closing_def)
  have gm': "fin_window P * WINDOW_SIZE + ?n = m" unfolding gm WINDOW_SIZE_def ..
  have mic: "fx_all1_mic (with_final rx m) = compute_mic P" "fx_all1_window (with_final rx m) = fx_all1_window rx"
    using f by (simp_all add: with_final_def)
  show ?thesis
    using q lim
    unfolding finalize_def Let_def closing_window(1) [OF c] finalize_full_0 [OF c w] if_False regular_count_def [symmetric] required_bits_def [symmetric]
      gm' with_final_def [symmetric] wf(3) Q mic r option.case
    by (simp add: with_final_def split: prod.split)
qed
text \<open>An acknowledgement that reports what a receiver holds of window \<open>w\<close> and asks for something.\<close>

definition ack_reports :: "bytes \<Rightarrow> fragment_receiver \<Rightarrow> nat \<Rightarrow> u64 \<Rightarrow> bool" where
  "ack_reports P rx w b \<longleftrightarrow>
     w \<le> fin_window P \<and> b AND BITMAP_MASK = b \<and>
     (\<forall>j<63. bit b (62 - j) \<longleftrightarrow> got rx (w * 63 + j) \<or> j = 62 \<and> w = fin_window P \<and> bit b 0) \<and>
     (w = fin_window P \<and> bit b 0 \<longrightarrow> fx_all1 rx) \<and>
     (w = fin_window P \<longrightarrow> (\<forall>k < w * 63. got rx k)) \<and>
     ((\<exists>k. w * 63 \<le> k \<and> k < w * 63 + 63 \<and> k + 1 < tiles P \<and> \<not> got rx k) \<or> w = fin_window P \<and> \<not> bit b 0)"

definition awaiting :: "bytes \<Rightarrow> u8 \<Rightarrow> fragment_receiver \<Rightarrow> bool" where
  "awaiting P r rx \<longleftrightarrow> rx_inv P r rx \<and> \<not> fx_done rx \<and> fx_rule_id rx = Some r"

definition asks_repair :: "bytes \<Rightarrow> u8 \<Rightarrow> fragment_receiver \<Rightarrow> receiver_result \<Rightarrow> nat \<Rightarrow> bool" where
  "asks_repair P r rx res w \<longleftrightarrow> awaiting P r rx \<and>
     (\<exists>b. rr_response res = Some (RespAck (ack_new r (of_nat w) b False)) \<and> ack_reports P rx w b) \<and>
     rr_packet_len res = None \<and> \<not> rr_aborted res"

definition delivers :: "bytes \<Rightarrow> u8 \<Rightarrow> fragment_receiver \<Rightarrow> receiver_result \<Rightarrow> bool" where
  "delivers P r rx res \<longleftrightarrow> rx_inv P r rx \<and> fx_done rx \<and>
     rr_response res = Some (RespAck (ack_new r (of_nat (fin_window P)) 0 True)) \<and>
     rr_packet_len res = fx_packet_len rx \<and> fx_packet_len rx \<noteq> None \<and> \<not> rr_aborted res"

lemma ack_reports_attempts: "ack_reports P (rx\<lparr>fx_attempts := n\<rparr>) w b = ack_reports P rx w b"
  by (simp add: ack_reports_def got_def)

lemma awaiting_attempts: "awaiting P r (rx\<lparr>fx_attempts := n\<rparr>) = awaiting P r rx"
  by (simp add: awaiting_def rx_inv_attempts)

lemma respond_repair:
  assumes "awaiting P r rx" and "ack_reports P rx w b" and "unat (fx_attempts rx) < 4"
  shows "\<exists>rx' res. respond rx (ack_new r (of_nat w) b False) = (rx', res) \<and> asks_repair P r rx' res w \<and>
    fx_attempts rx' = fx_attempts rx + 1 \<and> rr_response res = Some (RespAck (ack_new r (of_nat w) b False))"
  using assms unfolding asks_repair_def
  by (auto simp: respond_result rr_default_def ack_reports_attempts awaiting_attempts)

lemma mic_failure_repair:
  assumes "awaiting P r rx" and "ack_reports P rx w b" and "unat (fx_attempts rx) < 4"
  shows "\<exists>rx' res. respond_with_mic_failure rx (ack_new r (of_nat w) b False) = (rx', res) \<and> asks_repair P r rx' res w \<and>
    fx_attempts rx' = fx_attempts rx + 1"
  using assms unfolding asks_repair_def respond_with_mic_failure_def
  by (auto simp: respond_result rr_default_def ack_reports_attempts awaiting_attempts)

lemma bit_or_1: "bit (b OR 1 :: u64) n \<longleftrightarrow> bit b n \<or> n = 0"
  by (auto simp: bit_or_iff bit_1_iff)

lemma masked_or_1: "b AND BITMAP_MASK = b \<Longrightarrow> (b OR 1) AND BITMAP_MASK = b OR 1"
  by (rule bit_word_eqI) (metis bit_BITMAP_MASK bit_and_iff bit_or_1 zero_less_numeral)

lemma closing_awaiting: "closing P r rx \<Longrightarrow> awaiting P r rx"
  by (simp add: closing_def awaiting_def)

lemma with_final_fields [simp]:
  "got (with_final rx m) k = got rx k" "fx_all1 (with_final rx m) = fx_all1 rx" "fx_done (with_final rx m) = fx_done rx"
  "fx_attempts (with_final rx m) = fx_attempts rx" "fx_rule_id (with_final rx m) = fx_rule_id rx"
  by (simp_all add: with_final_def got_def)

lemma reports_final:
  assumes c: "closing P r rx" and b: "b = fx_bitmaps rx ! fin_window P \<or> b = fx_bitmaps rx ! fin_window P OR 1"
    and w0: "\<forall>k < fin_window P * 63. got rx k"
    and k: "fin_window P * 63 \<le> k" "k + 1 < tiles P" "\<not> got rx k"
  shows "ack_reports P rx (fin_window P) b"
proof -
  have P: "P \<noteq> []" "length P \<le> MAX_PACKET_SIZE" "fx_all1 rx" using c by (auto simp: closing_def)
  note cw = closing_window [OF c]
  have "bit b (62 - j) \<longleftrightarrow> got rx (fin_window P * 63 + j) \<or> j = 62 \<and> bit b 0" if "j < 63" for j
  proof -
    have "62 - j = 0 \<longleftrightarrow> j = 62" using that by linarith
    then show ?thesis using b that got_window [OF that, of rx "fin_window P"] by (auto simp: bit_or_1)
  qed
  moreover have "b AND BITMAP_MASK = b" using b cw(5) masked_or_1 by blast
  moreover have "k < fin_window P * 63 + 63" using fin_window_bounds(4) [OF P(1,2)] k(2) by linarith
  ultimately show ?thesis unfolding ack_reports_def using P w0 k by auto
qed

lemma reports_window_0:
  assumes inv: "rx_inv P r rx" and w: "fin_window P = 1" and k: "k < 63" "\<not> got rx k"
  shows "ack_reports P rx 0 (fx_bitmaps rx ! 0)"
proof -
  have "bit (fx_bitmaps rx ! 0) (62 - j) = got rx j" if "j < 63" for j using got_window [OF that, of rx 0] by simp
  moreover have "fx_bitmaps rx ! 0 AND BITMAP_MASK = fx_bitmaps rx ! 0" using inv by (simp add: rx_inv_def)
  moreover have "k + 1 < tiles P"
  proof -
    have "63 \<le> tiles P - 1" using w unfolding fin_window_def by (metis div_less not_le zero_neq_one)
    then show ?thesis using k by linarith
  qed
  ultimately show ?thesis unfolding ack_reports_def using w k by auto
qed

definition closes :: "bytes \<Rightarrow> u8 \<Rightarrow> fragment_receiver \<Rightarrow> fragment_receiver \<Rightarrow> receiver_result \<Rightarrow> bool" where
  "closes P r rx rx' res \<longleftrightarrow>
     delivers P r rx' res \<and> ((\<forall>k. k + 1 < tiles P \<longrightarrow> got rx k) \<longrightarrow> receiver_packet rx' = Some P) \<or>
     (\<exists>w. asks_repair P r rx' res w \<and> fx_attempts rx' = fx_attempts rx + 1 \<and> (\<exists>k. k + 1 < tiles P \<and> \<not> got rx k) \<and>
        ((\<forall>k<63. got rx k) \<longrightarrow> w = fin_window P))"

lemma finalize_full:
  assumes c: "closing P r rx" and att: "unat (fx_attempts rx) < 4"
    and g: "\<forall>k<m. got rx k" and m: "m = received_tiles rx (fin_window P)"
  shows "\<exists>rx' res. finalize rx = (rx', res) \<and> closes P r rx rx' res"
proof -
  let ?Q = "take (m * TILE_SIZE) P @ tile P (tiles P - 1)" and ?rx = "with_final rx m"
  have P: "P \<noteq> []" "length P \<le> MAX_PACKET_SIZE" "fx_all1 rx" using c by (auto simp: closing_def)
  note wf = with_final_packet [OF c g m] and mb = received_tiles_bounds [OF c, folded m] and cw = closing_window [OF c]
  have f: "fx_final_len rx = length (tile P (tiles P - 1))" using c P by (simp add: closing_def rx_inv_def)
  have Q: "length ?Q = m * TILE_SIZE + fx_final_len rx" using f wf(1) by (simp add: min_absorb2)
  have aw: "awaiting P r ?rx" using wf(2) c by (simp add: awaiting_def closing_def)
  have ngm: "\<not> got rx m" using mb(2,3) by simp
  show ?thesis
  proof (cases "compute_mic ?Q = compute_mic P")
    case True
    then have fa: "faithful P ?Q" using wf(4,5) Q unfolding faithful_def by (cases "m = tiles P - 1") auto
    define rx' where "rx' = ?rx\<lparr>fx_packet_len := Some (length ?Q), fx_attempts := fx_attempts rx + 1, fx_done := True\<rparr>"
    have fin: "finalize rx = (rx', delivered_result (ack_new r (of_nat (fin_window P)) 0 True) (length ?Q))"
      unfolding finalize_assembled [OF c g m] Let_def using True att cw(2)
      by (simp add: respond_with_packet_def respond_result rr_default_def delivered_result_def rx'_def)
    have pk: "take (length ?Q) (fx_storage ?rx) = ?Q" using wf(3) Q by simp
    have "rx_inv P r rx'" using wf(2) fa pk unfolding rx_inv_def rx'_def by (auto simp: got_def)
    then have d: "delivers P r rx' (delivered_result (ack_new r (of_nat (fin_window P)) 0 True) (length ?Q))"
      by (simp add: delivers_def delivered_result_def rx'_def)
    have "receiver_packet rx' = Some ?Q" using pk by (simp add: receiver_packet_def rx'_def)
    moreover have "m = tiles P - 1" if "\<forall>k. k + 1 < tiles P \<longrightarrow> got rx k" using spec [OF that, of m] ngm mb(1) by linarith
    ultimately show ?thesis using fin d wf(4) unfolding closes_def by auto
  next
    case False
    then have "m \<noteq> tiles P - 1" using wf(4) by auto
    then have m1: "m + 1 < tiles P" using mb(1) by simp
    have pre: "\<forall>k < fin_window P * 63. got rx k" using g m by (simp add: received_tiles_def)
    define b where "b = (if fx_bitmaps rx ! fin_window P = required_bits (regular_count (fx_bitmaps rx ! fin_window P)) \<and>
             count_ones (fx_bitmaps rx ! fin_window P) = regular_count (fx_bitmaps rx ! fin_window P) \<and>
             regular_count (fx_bitmaps rx ! fin_window P) > 1
          then fx_bitmaps rx ! fin_window P else fx_bitmaps rx ! fin_window P OR 1)"
    have "b = fx_bitmaps rx ! fin_window P \<or> b = fx_bitmaps rx ! fin_window P OR 1" by (simp add: b_def)
    then have "ack_reports P rx (fin_window P) b"
      using pre ngm m1 m by (intro reports_final [OF c, of b m]) (auto simp: received_tiles_def)
    then have "ack_reports P ?rx (fin_window P) b" unfolding ack_reports_def by simp
    moreover have "finalize rx = respond_with_mic_failure ?rx (ack_new r (of_nat (fin_window P)) b False)"
      unfolding finalize_assembled [OF c g m] Let_def b_def using False cw(2) by simp
    ultimately show ?thesis
      using mic_failure_repair [OF aw, of "fin_window P" b] att m1 ngm unfolding closes_def by auto
  qed
qed

lemma finalize_outcome:
  assumes c: "closing P r rx" and att: "unat (fx_attempts rx) < 4"
  shows "\<exists>rx' res. finalize rx = (rx', res) \<and> closes P r rx rx' res"
proof -
  let ?m = "received_tiles rx (fin_window P)"
  have P: "P \<noteq> []" "length P \<le> MAX_PACKET_SIZE" and inv: "rx_inv P r rx" using c by (auto simp: closing_def)
  note cw = closing_window [OF c] and mb = received_tiles_bounds [OF c] and tb = tiles_bounds [OF P(1)]
  consider (w0) "fin_window P = 1" "\<not> (\<forall>k<63. got rx k)"
    | (hole) "fin_window P = 1 \<longrightarrow> (\<forall>k<63. got rx k)" "\<not> (\<forall>k<?m. got rx k)"
    | (full) "\<forall>k<?m. got rx k" by blast
  then show ?thesis
  proof cases
    case w0
    then obtain k where k: "k < 63" "\<not> got rx k" by blast
    have k1: "k + 1 < tiles P" using k w0(1) unfolding fin_window_def by (cases "tiles P - 1 < 63") auto
    have "finalize rx = respond rx (ack_new r (of_nat 0) (fx_bitmaps rx ! 0) False)"
      using finalize_window_0 [OF c w0] by simp
    then show ?thesis
      using respond_repair [OF closing_awaiting [OF c] reports_window_0 [OF inv w0(1) k] att] k k1 w0(2)
      unfolding closes_def by auto
  next
    case hole
    have pre: "\<forall>k < fin_window P * 63. got rx k" using hole(1) cw(4) by (cases "fin_window P = 1") auto
    obtain k where k: "k < ?m" "\<not> got rx k" using hole(2) by blast
    have k1: "fin_window P * 63 \<le> k" "k + 1 < tiles P" using pre k mb(1) by (auto simp: not_less [symmetric])
    have "finalize rx = respond rx (ack_new r (of_nat (fin_window P)) (fx_bitmaps rx ! fin_window P OR 1) False)"
      using finalize_hole [OF c hole] cw(2) by simp
    then show ?thesis
      using respond_repair [OF closing_awaiting [OF c] reports_final [OF c disjI2 [OF refl] pre k1 k(2)] att] k k1
      unfolding closes_def by auto
  next
    case full
    then show ?thesis by (rule finalize_full [OF c att _ refl])
  qed
qed
lemma release_ignores [simp]:
  "receiver_release (rx\<lparr>fx_packet_len := x\<rparr>) = receiver_release rx"
  "(receiver_release rx)\<lparr>fx_done := True\<rparr> = receiver_release rx"
  by (simp_all add: receiver_release_def receiver_reset_def)

lemma finalize_exhausted:
  assumes c: "closing P r rx" and att: "\<not> unat (fx_attempts rx) < 4"
  shows "rx_inv P r (fst (finalize rx))" and "rr_aborted (snd (finalize rx))" and "rr_packet_len (snd (finalize rx)) = None"
    and "rr_response (snd (finalize rx)) \<noteq> Some (RespAck a)"
proof -
  let ?m = "received_tiles rx (fin_window P)"
  have inv: "rx_inv P r rx" using c by (simp add: closing_def)
  have ab: "respond y a = receiver_abort y (ack_rule_id a)" if "fx_attempts y = fx_attempts rx" for y a
    using att that by (simp add: respond_result)
  have out: "rx_inv P r (fst (receiver_abort y x))" "rr_aborted (snd (receiver_abort y x))" "rr_packet_len (snd (receiver_abort y x)) = None"
      "rr_response (snd (receiver_abort y x)) \<noteq> Some (RespAck a)" if "rx_inv P r y" for x y
    using rx_inv_abort [OF that] by (simp_all add: receiver_abort_def rr_default_def)
  consider (w0) "fin_window P = 1" "\<not> (\<forall>k<63. got rx k)"
    | (hole) "fin_window P = 1 \<longrightarrow> (\<forall>k<63. got rx k)" "\<not> (\<forall>k<?m. got rx k)"
    | (full) "\<forall>k<?m. got rx k" by blast
  then have "\<exists>y x. finalize rx = receiver_abort y x \<and> rx_inv P r y"
  proof cases
    case w0
    then show ?thesis using finalize_window_0 [OF c w0] ab inv by auto
  next
    case hole
    then show ?thesis using finalize_hole [OF c hole] ab inv by auto
  next
    case full
    have inv': "rx_inv P r (with_final rx ?m)" by (rule with_final_packet(2) [OF c full refl])
    have "finalize rx = receiver_abort (with_final rx ?m) r"
      unfolding finalize_assembled [OF c full refl] Let_def
      by (simp add: respond_with_packet_def respond_with_mic_failure_def ab receiver_abort_def rr_default_def ack_new_def)
    then show ?thesis using inv' by blast
  qed
  then show "rx_inv P r (fst (finalize rx))" "rr_aborted (snd (finalize rx))" "rr_packet_len (snd (finalize rx)) = None"
      "rr_response (snd (finalize rx)) \<noteq> Some (RespAck a)"
    using out by auto
qed

section \<open>Receiving genuine messages\<close>

lemma frag_rule [simp]: "fr_rule_id (frag P r i) = r"
  by (simp add: frag_def)

lemma u8_le_1: "(w :: u8) \<le> 1 \<Longrightarrow> w = 0 \<or> w = 1"
  by (metis word_le_less_eq word_less_1)

lemma frag_valid: "fragment_ok f \<Longrightarrow> fragment_valid f"
  using u8_le_1 [of "fr_window f"] by (auto simp: fragment_ok_def fragment_valid_def is_all_0_def split: if_splits)

lemma receive_inner_genuine:
  assumes inv: "rx_inv P r rx" "\<not> fx_done rx" and ok: "fragment_ok (frag P r i)"
  shows "receive_inner rx (frag P r i) = (let rx = rx\<lparr>fx_rule_id := Some r\<rparr> in
    if is_all_1 (frag P r i) then receive_all1 rx (frag P r i) else receive_regular rx (frag P r i))"
  using inv frag_valid [OF ok] bind_rule_genuine(1) [OF inv(1)] by (simp add: receive_inner_def Let_def)

lemma got_update:
  assumes "length (fx_bitmaps rx) = 2" and "i < 126" and "k < 126"
  shows "got (rx\<lparr>fx_bitmaps := (fx_bitmaps rx)[i div 63 := fx_bitmaps rx ! (i div 63) OR push_bit (62 - i mod 63) 1]\<rparr>) k
    \<longleftrightarrow> got rx k \<or> k = i"
proof -
  have "i div 63 < 2" "k div 63 < 2" using assms by auto
  moreover have "k = i \<longleftrightarrow> k div 63 = i div 63 \<and> 62 - k mod 63 = 62 - i mod 63"
  proof
    assume "k div 63 = i div 63 \<and> 62 - k mod 63 = 62 - i mod 63"
    moreover have "k mod 63 < 63" "i mod 63 < 63" by simp_all
    ultimately have "k div 63 = i div 63" "k mod 63 = i mod 63" by linarith+
    then show "k = i" by (metis div_mult_mod_eq)
  qed simp
  ultimately show ?thesis
    using assms(1) unfolding got_def by (auto simp: nth_list_update bit_or_iff bit_exp_iff)
qed

lemma regular_in_order:
  assumes "i + 1 < tiles P"
  shows "i div 63 \<le> fin_window P" and "i div 63 = fin_window P \<Longrightarrow> i mod 63 \<noteq> 62"
proof -
  show "i div 63 \<le> fin_window P" unfolding fin_window_def using assms by (intro div_le_mono) simp
  show "i mod 63 \<noteq> 62" if w: "i div 63 = fin_window P"
  proof
    assume "i mod 63 = 62"
    then have "i + 1 = (i div 63 + 1) * 63" using div_mult_mod_eq [of i 63] by simp
    moreover have "(i + 1) div 63 \<le> fin_window P" unfolding fin_window_def using assms by (intro div_le_mono) simp
    ultimately show False using w by simp
  qed
qed

lemma masked_update:
  assumes "\<forall>v<2. bs ! v AND BITMAP_MASK = bs ! v" and "b AND BITMAP_MASK = b" and "length bs = 2"
  shows "\<forall>v<2. (bs[w := b]) ! v AND BITMAP_MASK = (bs[w := b]) ! v"
  using assms by (cases "w < 2") (simp_all add: nth_list_update)

lemma rx_inv_mark:
  assumes inv: "rx_inv P r rx" and i126: "i < 126" and i: "i + 1 < tiles P"
    and sl: "slice (i * TILE_SIZE) ((i + 1) * TILE_SIZE) (fx_storage rx) = tile P i"
  shows "rx_inv P r (rx\<lparr>fx_bitmaps := (fx_bitmaps rx)[i div 63 := fx_bitmaps rx ! (i div 63) OR push_bit (62 - i mod 63) 1]\<rparr>)"
proof -
  let ?b = "fx_bitmaps rx ! (i div 63) OR push_bit (62 - i mod 63) 1"
  have l: "length (fx_bitmaps rx) = 2" and w: "i div 63 < 2" using inv i126 by (auto simp: rx_inv_def)
  have b: "fx_bitmaps rx ! (i div 63) AND BITMAP_MASK = fx_bitmaps rx ! (i div 63)"
    using inv w unfolding rx_inv_def by blast
  have "?b AND BITMAP_MASK = ?b"
  proof (rule bit_word_eqI)
    fix n show "bit (?b AND BITMAP_MASK) n = bit ?b n"
      unfolding bit_and_iff bit_or_iff bit_push_bit_iff bit_BITMAP_MASK bit_1_iff
      using masked_bit [OF b, of n] by auto
  qed
  then have "\<forall>v<2. ((fx_bitmaps rx)[i div 63 := ?b]) ! v AND BITMAP_MASK = ((fx_bitmaps rx)[i div 63 := ?b]) ! v"
    using masked_update [OF _ _ l] inv unfolding rx_inv_def by blast
  note m = this
  have "k + 1 < tiles P \<and> slice (k * TILE_SIZE) ((k + 1) * TILE_SIZE) (fx_storage rx) = tile P k"
    if "k < 126" "got rx k \<or> k = i" for k
    using that inv sl i unfolding rx_inv_def by blast
  note t = this
  define rx' where "rx' = rx\<lparr>fx_bitmaps := (fx_bitmaps rx)[i div 63 := ?b]\<rparr>"
  have flds: "fx_storage rx' = fx_storage rx" "fx_limit rx' = fx_limit rx" "fx_rule_id rx' = fx_rule_id rx"
      "fx_final_tile rx' = fx_final_tile rx" "fx_all1 rx' = fx_all1 rx" "fx_all1_window rx' = fx_all1_window rx"
      "fx_all1_mic rx' = fx_all1_mic rx" "fx_final_len rx' = fx_final_len rx" "fx_packet_len rx' = fx_packet_len rx"
      "fx_done rx' = fx_done rx" "fx_bitmaps rx' = (fx_bitmaps rx)[i div 63 := ?b]"
    by (simp_all add: rx'_def)
  have g: "got rx' k \<longleftrightarrow> got rx k \<or> k = i" if "k < 126" for k
    unfolding rx'_def by (rule got_update [OF l i126 that])
  have "rx_inv P r rx'"
    using inv l m t g unfolding rx_inv_def flds length_list_update by blast
  then show ?thesis unfolding rx'_def .
qed

lemma receive_regular_genuine:
  assumes inv: "rx_inv P r rx" "\<not> fx_done rx" and s: "sender_of P r s" and i: "i + 1 < tiles P"
  shows "\<exists>rx'. receive_regular rx (frag P r i) = (rx', rr_default) \<and> rx_inv P r rx' \<and> \<not> fx_done rx' \<and>
    fx_rule_id rx' = fx_rule_id rx \<and> fx_all1 rx' = fx_all1 rx \<and> fx_attempts rx' = fx_attempts rx \<and>
    (\<forall>k<126. got rx' k \<longleftrightarrow> got rx k \<or> k = i)"
proof -
  let ?f = "frag P r i" and ?st = "(i + 1) * TILE_SIZE"
  have P: "P \<noteq> []" "length P \<le> MAX_PACKET_SIZE" using s by (auto simp: sender_of_def)
  have i126: "i < 126" using i tiles_bounds(4) [OF P] by simp
  have w: "unat (fr_window ?f) = i div 63" by (rule frag_window [OF i126])
  have fcn: "unat (fr_fcn ?f) = 62 - i mod 63" using frag_fcn(1) [of i P r] i by simp
  have z: "\<not> (fr_window ?f = 1 \<and> fr_fcn ?f = 0)"
    using frag_ok [OF s, of i] frag_fcn(2) [of i P r] i by (auto simp: fragment_ok_def is_all_0_def split: if_splits)
  have a: "\<not> (fx_all1 rx \<and> (fr_window ?f > fx_all1_window rx \<or> fr_window ?f = fx_all1_window rx \<and> fr_fcn ?f = 0))"
  proof
    assume h: "fx_all1 rx \<and> (fr_window ?f > fx_all1_window rx \<or> fr_window ?f = fx_all1_window rx \<and> fr_fcn ?f = 0)"
    then have "unat (fx_all1_window rx) = fin_window P"
      using inv(1) fin_window_bounds(2) [OF P] by (simp add: rx_inv_def fin_window_def)
    with h w fcn have "fin_window P < i div 63 \<or> i div 63 = fin_window P \<and> 62 - i mod 63 = 0"
      by (auto simp: word_less_nat_alt)
    then show False using regular_in_order [OF i] mod_less_divisor [of 63 i] by linarith
  qed
  have "i div 63 * 63 + 62 - (62 - i mod 63) = i" using div_mult_mod_eq [of i 63] mod_less_divisor [of 63 i] by linarith
  then have ord: "i div 63 * WINDOW_SIZE + 62 - (62 - i mod 63) = i" by (simp add: WINDOW_SIZE_def)
  have lim: "?st \<le> length P" "length P \<le> fx_limit rx" "fx_limit rx \<le> length (fx_storage rx)" "length (fx_bitmaps rx) = 2"
    using inner_tile [OF P(1) i] inv(1) by (auto simp: rx_inv_def)
  have pl: "fr_payload ?f = tile P i" "length (tile P i) = TILE_SIZE" using length_tile [OF lim(1)] by (simp_all add: frag_def)
  have gi: "fx_bitmaps rx ! (i div 63) AND push_bit (62 - i mod 63) 1 \<noteq> 0 \<longleftrightarrow> got rx i"
    unfolding and_push_1_iff got_def by simp
  have red: "receive_regular rx ?f = (if got rx i then (rx, rr_default)
      else (rx\<lparr>fx_storage := splice (fx_storage rx) (i * TILE_SIZE) (tile P i),
               fx_bitmaps := (fx_bitmaps rx)[i div 63 := fx_bitmaps rx ! (i div 63) OR push_bit (62 - i mod 63) 1]\<rparr>, rr_default))"
  proof -
    have st: "\<not> ?st > fx_limit rx" using lim by linarith
    have sl: "got rx i \<Longrightarrow> \<not> slice (i * TILE_SIZE) ?st (fx_storage rx) \<noteq> tile P i" using inv(1) i126 by (simp add: rx_inv_def)
    show ?thesis
    proof (cases "got rx i")
      case True
      show ?thesis using sl [OF True] by (simp only: receive_regular_def Let_def z a if_False ord st w fcn gi pl True if_True)
    qed (simp only: receive_regular_def Let_def z a if_False ord st w fcn gi pl)
  qed
  show ?thesis
  proof (cases "got rx i")
    case True
    then show ?thesis using red inv by auto
  next
    case False
    have "fx_packet_len rx = None" using inv by (auto simp: rx_inv_def)
    then have "rx_inv P r (rx\<lparr>fx_storage := splice (fx_storage rx) (i * TILE_SIZE) (tile P i)\<rparr>)"
      using inv(1) False pl(2) lim by (intro rx_inv_write_slot) auto
    moreover have "slice (i * TILE_SIZE) ((i + 1) * TILE_SIZE) (splice (fx_storage rx) (i * TILE_SIZE) (tile P i)) = tile P i"
      using slice_splice_same [of "i * TILE_SIZE" "tile P i" "fx_storage rx"] pl(2) lim by (simp add: add.commute)
    ultimately show ?thesis
      using red False rx_inv_mark [OF _ i126 i, of r "rx\<lparr>fx_storage := splice (fx_storage rx) (i * TILE_SIZE) (tile P i)\<rparr>"] inv(2)
        got_update [OF lim(4) i126] by (simp add: got_def)
  qed
qed
lemma window_bit_got:
  assumes "rx_inv P r rx" and "v < 2" and "j < 63" and "bit (fx_bitmaps rx ! v) (62 - j)"
  shows "v * 63 + j + 1 < tiles P"
proof -
  have "got rx (v * 63 + j)" using got_window [OF assms(3)] assms(4) by blast
  moreover have "v * 63 + j < 126" using assms(2,3) by linarith
  ultimately show ?thesis using rx_inv_got [OF assms(1)] by blast
qed

lemma high_window_empty:
  assumes inv: "rx_inv P r rx" and P: "P \<noteq> []" "length P \<le> MAX_PACKET_SIZE" and v: "v < 2" "fin_window P < v"
  shows "fx_bitmaps rx ! v = 0"
proof (rule bit_word_eqI)
  fix f
  have m: "fx_bitmaps rx ! v AND BITMAP_MASK = fx_bitmaps rx ! v" using inv v unfolding rx_inv_def by blast
  have "\<not> bit (fx_bitmaps rx ! v) f"
  proof
    assume b: "bit (fx_bitmaps rx ! v) f"
    then have "f < 63" by (rule masked_bit [OF m])
    then have "62 - (62 - f) = f" "62 - f < 63" by auto
    then have "v * 63 + (62 - f) + 1 < tiles P" using window_bit_got [OF inv v(1), of "62 - f"] b by simp
    moreover have "tiles P - 1 < v * 63" using fin_window_bounds(4) [OF P] v(2) by linarith
    ultimately show False by linarith
  qed
  then show "bit (fx_bitmaps rx ! v) f = bit 0 f" by simp
qed

lemma retained_bound:
  assumes inv: "rx_inv P r rx" and P: "P \<noteq> []" "length P \<le> MAX_PACKET_SIZE"
  shows "(count_ones (fx_bitmaps rx ! 0) + count_ones (fx_bitmaps rx ! 1)) * TILE_SIZE + length (tile P (tiles P - 1)) \<le> fx_limit rx"
proof -
  have m: "fx_bitmaps rx ! 0 AND BITMAP_MASK = fx_bitmaps rx ! 0" "fx_bitmaps rx ! 1 AND BITMAP_MASK = fx_bitmaps rx ! 1"
    using inv by (auto simp: rx_inv_def)
  have "count_ones (fx_bitmaps rx ! 0) \<le> min 63 (tiles P - 1)"
    using window_bit_got [OF inv, of 0] by (intro count_ones_le [OF m(1)]) fastforce
  moreover have "count_ones (fx_bitmaps rx ! 1) \<le> tiles P - 1 - 63"
    using window_bit_got [OF inv, of 1] by (intro count_ones_le [OF m(2)]) fastforce
  ultimately have "count_ones (fx_bitmaps rx ! 0) + count_ones (fx_bitmaps rx ! 1) \<le> tiles P - 1" by linarith
  then have "(count_ones (fx_bitmaps rx ! 0) + count_ones (fx_bitmaps rx ! 1)) * TILE_SIZE \<le> (tiles P - 1) * TILE_SIZE"
    by (rule mult_le_mono1)
  moreover have "(tiles P - 1) * TILE_SIZE + length (tile P (tiles P - 1)) = length P"
    using last_tile(1) [OF P(1)] tiles_bounds(2) [OF P(1)] by simp
  moreover have "length P \<le> fx_limit rx" using inv by (simp add: rx_inv_def)
  ultimately show ?thesis by linarith
qed

lemma receive_all1_genuine:
  assumes aw: "awaiting P r rx" and s: "sender_of P r s" and i: "i + 1 = tiles P"
  shows "\<exists>rx1. receive_all1 rx (frag P r i) = finalize rx1 \<and> closing P r rx1 \<and>
    fx_attempts rx1 = fx_attempts rx \<and> (\<forall>k. got rx1 k = got rx k)"
proof -
  let ?f = "frag P r i"
  have P: "P \<noteq> []" "length P \<le> MAX_PACKET_SIZE" using s by (auto simp: sender_of_def)
  have inv: "rx_inv P r rx" and nd: "\<not> fx_done rx" and ru: "fx_rule_id rx = Some r" using aw by (auto simp: awaiting_def)
  have i1: "tiles P - 1 = i" using i by simp
  have fw: "i div 63 = fin_window P" unfolding fin_window_def i1 ..
  have i126: "i < 126" using i tiles_bounds(4) [OF P] by simp
  have f: "fr_window ?f = of_nat (fin_window P)" "unat (fr_window ?f) = fin_window P" "fr_mic ?f = compute_mic P" "fr_payload ?f = tile P (tiles P - 1)"
    using frag_window [OF i126, of P r] i fw i1 by (simp_all add: frag_def)
  have l2: "length (fx_bitmaps rx) = 2" using inv by (simp add: rx_inv_def)
  have "b = 0" if b: "b \<in> set (drop (fin_window P + 1) (fx_bitmaps rx))" for b
  proof -
    obtain v where v: "v < length (fx_bitmaps rx) - (fin_window P + 1)" "b = fx_bitmaps rx ! (fin_window P + 1 + v)"
      using b unfolding in_set_conv_nth by auto
    then have "fin_window P + 1 + v < 2" using l2 by linarith
    then show ?thesis using high_window_empty [OF inv P] v(2) by simp
  qed
  then have d: "\<not> list_ex (\<lambda>b. b \<noteq> 0) (drop (fin_window P + 1) (fx_bitmaps rx))" by (auto simp: list_ex_iff)
  have "\<not> bit (fx_bitmaps rx ! fin_window P) 0"
  proof
    assume "bit (fx_bitmaps rx ! fin_window P) 0"
    then have "fin_window P * 63 + 62 + 1 < tiles P"
      using window_bit_got [OF inv, of "fin_window P" 62] fin_window_bounds(1) [OF P] by simp
    then show False using fin_window_bounds(4) [OF P] by linarith
  qed
  then have z: "\<not> fx_bitmaps rx ! fin_window P AND 1 \<noteq> 0" using and_push_1_iff [of "fx_bitmaps rx ! fin_window P" 0] by simp
  show ?thesis
  proof (cases "fx_all1 rx")
    case True
    then have "closing P r rx" using aw P by (simp add: closing_def awaiting_def)
    moreover have "receive_all1 rx ?f = finalize rx"
    proof -
      have "fx_all1_window rx = of_nat (fin_window P)" "fx_all1_mic rx = compute_mic P"
          "take (fx_final_len rx) (fx_final_tile rx) = tile P (tiles P - 1)"
        using True inv unfolding rx_inv_def fin_window_def by auto
      then show ?thesis using True d z unfolding receive_all1_def f(2) by (simp add: f(1,3,4) [simplified])
    qed
    ultimately show ?thesis by blast
  next
    case False
    define rx1 where "rx1 = rx\<lparr>fx_all1 := True, fx_all1_window := fr_window ?f, fx_all1_mic := fr_mic ?f,
        fx_final_len := length (fr_payload ?f), fx_final_tile := splice (fx_final_tile rx) 0 (fr_payload ?f)\<rparr>"
    have e: "receive_all1 rx ?f = finalize rx1"
      using retained_bound [OF inv P] d z False unfolding receive_all1_def f(2,4) Let_def rx1_def by simp
    have g: "got rx1 k = got rx k" for k by (simp add: got_def rx1_def)
    have "length (tile P (tiles P - 1)) \<le> length (fx_final_tile rx)" using last_tile(3) [OF P(1)] inv by (simp add: rx_inv_def)
    then have "rx_inv P r rx1"
      using inv g last_tile(3) [OF P(1)] unfolding rx_inv_def by (auto simp: rx1_def f fin_window_def take_splice_0)
    then have "closing P r rx1" using aw P by (simp add: closing_def awaiting_def rx1_def)
    then show ?thesis using e g by (auto simp: rx1_def)
  qed
qed

text \<open>The answer to an acknowledgement request before the final tile has arrived.\<close>

definition next_window :: "fragment_receiver \<Rightarrow> nat" where
  "next_window rx = (if fx_bitmaps rx ! 0 = BITMAP_MASK then 1 else 0)"

lemma next_window_le:
  assumes "rx_inv P r rx" shows "next_window rx \<le> fin_window P"
proof (cases "fx_bitmaps rx ! 0 = BITMAP_MASK")
  case True
  then have "bit (fx_bitmaps rx ! 0) (62 - 62)" by (simp add: bit_BITMAP_MASK)
  then have "0 * 63 + 62 + 1 < tiles P" using window_bit_got [OF assms, of 0 62] by simp
  then have "63 div 63 \<le> (tiles P - 1) div 63" by (intro div_le_mono) simp
  then show ?thesis using True by (simp add: next_window_def fin_window_def)
qed (simp add: next_window_def)

lemma reports_request:
  assumes aw: "awaiting P r rx" and P: "P \<noteq> []" "length P \<le> MAX_PACKET_SIZE" and n: "\<not> fx_all1 rx"
  shows "ack_reports P rx (next_window rx) (fx_bitmaps rx ! next_window rx)"
proof -
  let ?w = "next_window rx" let ?b = "fx_bitmaps rx ! ?w"
  have inv: "rx_inv P r rx" using aw by (simp add: awaiting_def)
  note le = next_window_le [OF inv] and fb = fin_window_bounds [OF P]
  have w2: "?w < 2" using le fb(1) by linarith
  have m: "?b AND BITMAP_MASK = ?b" "fx_bitmaps rx ! 0 AND BITMAP_MASK = fx_bitmaps rx ! 0" using inv w2 unfolding rx_inv_def by auto
  have z: "\<not> (?w = fin_window P \<and> bit ?b 0)"
    using window_bit_got [OF inv w2, of 62] fb(4) by auto
  have full: "fx_bitmaps rx ! 0 = BITMAP_MASK \<longleftrightarrow> (\<forall>k<63. got rx k)"
    using bitmap_full_iff [OF m(2)] window_tiles [of 63 rx 0] by simp
  have pre: "\<forall>k < ?w * 63. got rx k" using full by (auto simp: next_window_def)
  have "(\<exists>k. ?w * 63 \<le> k \<and> k < ?w * 63 + 63 \<and> k + 1 < tiles P \<and> \<not> got rx k) \<or> ?w = fin_window P"
  proof (cases "?w = fin_window P")
    case False
    then have "?w = 0" "fin_window P = 1" using le fb(1) by linarith+
    moreover from this obtain k where k: "k < 63" "\<not> got rx k" using full by (auto simp: next_window_def split: if_splits)
    ultimately show ?thesis using fb(3) by (auto intro!: exI [of _ k])
  qed simp
  moreover have "bit ?b (62 - j) \<longleftrightarrow> got rx (?w * 63 + j)" if "j < 63" for j using got_window [OF that] by blast
  ultimately show ?thesis unfolding ack_reports_def using le m(1) z pre by auto
qed

lemma receive_ack_request_genuine:
  assumes inv: "rx_inv P r rx" "\<not> fx_done rx" and P: "P \<noteq> []" "length P \<le> MAX_PACKET_SIZE"
  shows "fx_all1 rx \<Longrightarrow> \<exists>rx1. receive_ack_request rx r = finalize rx1 \<and> closing P r rx1 \<and>
      fx_attempts rx1 = fx_attempts rx \<and> (\<forall>k. got rx1 k = got rx k)"
    and "\<not> fx_all1 rx \<Longrightarrow> \<exists>rx1. receive_ack_request rx r =
        respond rx1 (ack_new r (of_nat (next_window rx)) (fx_bitmaps rx ! next_window rx) False) \<and> awaiting P r rx1 \<and>
        ack_reports P rx1 (next_window rx) (fx_bitmaps rx ! next_window rx) \<and> fx_attempts rx1 = fx_attempts rx \<and>
        (\<forall>k. got rx1 k = got rx k)"
proof -
  let ?rx = "rx\<lparr>fx_rule_id := Some r\<rparr>"
  note b = bind_rule_genuine [OF inv(1)]
  have aw: "awaiting P r ?rx" using b(2) inv(2) by (simp add: awaiting_def)
  have g: "got ?rx k = got rx k" for k by (simp add: got_def)
  {
    assume "fx_all1 rx"
    then show "\<exists>rx1. receive_ack_request rx r = finalize rx1 \<and> closing P r rx1 \<and>
      fx_attempts rx1 = fx_attempts rx \<and> (\<forall>k. got rx1 k = got rx k)"
      using aw P b(1) g by (intro exI [of _ ?rx]) (simp add: receive_ack_request_def closing_def awaiting_def)
  next
    assume n: "\<not> fx_all1 rx"
    then have "ack_reports P ?rx (next_window ?rx) (fx_bitmaps ?rx ! next_window ?rx)"
      by (intro reports_request [OF aw P]) simp
    moreover have "next_window ?rx = next_window rx" by (simp add: next_window_def)
    ultimately show "\<exists>rx1. receive_ack_request rx r =
        respond rx1 (ack_new r (of_nat (next_window rx)) (fx_bitmaps rx ! next_window rx) False) \<and> awaiting P r rx1 \<and>
        ack_reports P rx1 (next_window rx) (fx_bitmaps rx ! next_window rx) \<and> fx_attempts rx1 = fx_attempts rx \<and>
        (\<forall>k. got rx1 k = got rx k)"
      using aw b(1) g n
      by (intro exI [of _ ?rx]) (simp add: receive_ack_request_def next_window_def Let_def)
  }
qed
section \<open>Histories of genuine messages\<close>

text \<open>A message the sender's own code writes: one of its fragments, an ACK request, or its abort.\<close>

definition genuine :: "fragment_sender \<Rightarrow> bytes \<Rightarrow> bool" where
  "genuine s data \<longleftrightarrow>
     (\<exists>i f out n. get_fragment_inner s i = Some f \<and>
        fragment_write_to f (replicate MAX_FRAGMENT_WIRE_SIZE 0) = Inr (out, n) \<and> data = take n out) \<or>
     (\<exists>w. w \<le> 1 \<and> control_bytes (CtlAckRequest (fs_rule_id s) w) = Inr data) \<or>
     control_bytes (CtlSenderAbort (fs_rule_id s)) = Inr data"

definition rx_feed :: "fragment_receiver \<Rightarrow> bytes \<Rightarrow> fragment_receiver \<times> (fragment_error + receiver_result)" where
  "rx_feed rx data = (case receive_bytes_inner rx data of Inl e \<Rightarrow> (rx, Inl e) | Inr (rx, res) \<Rightarrow> (rx, Inr res))"

lemma fragment_wire_fits: "fragment_ok f \<Longrightarrow> length (fragment_wire f) \<le> MAX_FRAGMENT_WIRE_SIZE"
  by (auto simp: fragment_ok_def fragment_content_def MAX_FRAGMENT_WIRE_SIZE_def split: if_splits)

lemma fragment_written:
  "fragment_ok f \<Longrightarrow> fragment_write_to f (replicate MAX_FRAGMENT_WIRE_SIZE 0) = Inr (out, n) \<Longrightarrow> take n out = fragment_wire f"
  using schc_fragment_codec.enc_Inr_iff [of f] by (auto simp: take_splice_0 simp del: length_fragment_wire)

lemma genuine_cases:
  assumes s: "sender_of P r s" and g: "genuine s data"
  obtains (frag) i where "i < tiles P" "data = fragment_wire (frag P r i)"
    | (request) w where "w \<le> 1" "data = [r, push_bit 7 w]"
    | (sender_abort) "data = [r, 0xfe]"
proof -
  have r: "check_rule r = Inr ()" "fs_rule_id s = r" using s by (auto simp: sender_of_def)
  from g consider (1) i f out n where "get_fragment_inner s i = Some f"
      "fragment_write_to f (replicate MAX_FRAGMENT_WIRE_SIZE 0) = Inr (out, n)" "data = take n out"
    | (2) w where "w \<le> 1" "control_bytes (CtlAckRequest r w) = Inr data" | (3) "control_bytes (CtlSenderAbort r) = Inr data"
    unfolding genuine_def r(2) by blast
  then show thesis
  proof cases
    case 1
    then have "i < tiles P" "f = frag P r i" using get_fragment_frag [OF s, of i] by (auto split: if_splits)
    then show thesis using that(1) frag_ok [OF s] fragment_written 1 by metis
  next
    case 2
    then show thesis using that(2) control_bytes_ok(3) [OF r(1)] by auto
  next
    case 3
    then show thesis using that(3) control_bytes_ok(1) [OF r(1)] by auto
  qed
qed

lemma finalize_inv: "closing P r rx \<Longrightarrow> rx_inv P r (fst (finalize rx))"
  using finalize_outcome [of P r rx] finalize_exhausted(1) [of P r rx]
  by (cases "unat (fx_attempts rx) < 4") (auto simp: closes_def delivers_def asks_repair_def awaiting_def)

lemma feed_genuine:
  assumes inv: "rx_inv P r rx" and s: "sender_of P r s" and g: "genuine s data"
  shows "\<exists>rx' res. rx_feed rx data = (rx', Inr res) \<and> rx_inv P r rx'"
proof -
  have P: "P \<noteq> []" "length P \<le> MAX_PACKET_SIZE" "check_rule r = Inr ()" using s by (auto simp: sender_of_def)
  note a = rx_inv_active [OF inv]
  from s g show ?thesis
  proof (cases rule: genuine_cases)
    case (frag i)
    have ok: "fragment_ok (frag P r i)" by (rule frag_ok [OF s frag(1)])
    let ?rx = "(active_rx rx)\<lparr>fx_rule_id := Some r\<rparr>"
    have inv': "rx_inv P r ?rx" "\<not> fx_done ?rx" using bind_rule_genuine(2) a by auto
    have aw: "awaiting P r ?rx" using inv' by (simp add: awaiting_def)
    have "receive_inner (active_rx rx) (frag P r i) =
        (if is_all_1 (frag P r i) then receive_all1 ?rx (frag P r i) else receive_regular ?rx (frag P r i))"
      using receive_inner_genuine [of P r "active_rx rx" i] a ok by simp
    then have "rx_inv P r (fst (receive_inner (active_rx rx) (frag P r i)))"
      using receive_all1_genuine [OF aw s, of i] receive_regular_genuine [OF inv' s, of i] finalize_inv frag_fcn(2) [OF frag(1)] frag(1)
      by (cases "i + 1 = tiles P") auto
    then show ?thesis
      using frag(2) receive_bytes_fragment [OF ok, of rx] by (auto simp: rx_feed_def split: prod.split)
  next
    case (request w)
    have "rx_inv P r (fst (receive_ack_request (active_rx rx) r))"
      using receive_ack_request_genuine [of P r "active_rx rx"] a P finalize_inv rx_inv_respond
      by (cases "fx_all1 (active_rx rx)") (fastforce simp: awaiting_def)+
    then show ?thesis
      using receive_bytes_ack_request [OF P(3) request(1), of rx] request(2) by (auto simp: rx_feed_def split: prod.split)
  next
    case sender_abort
    then show ?thesis
      using receive_bytes_abort [OF P(3), of rx] rx_inv_reset(3) [OF inv] by (auto simp: rx_feed_def)
  qed
qed

lemma receiver_starts:
  assumes "receiver_with_limit st lim = Inr rx" and "length P \<le> lim"
  shows "rx_inv P r rx" and "\<not> fx_done rx" and "fx_attempts rx = 0" and "\<not> fx_all1 rx"
proof -
  have w: "\<forall>w<2. [0, 0 :: u64] ! w AND BITMAP_MASK = [0, 0] ! w" by (simp add: All_less_Suc numeral_2_eq_2)
  have rx: "fx_bitmaps rx = [0, 0]" "fx_limit rx = lim" "fx_storage rx = st" "lim \<le> length st" "fx_rule_id rx = None"
      "length (fx_final_tile rx) = TILE_SIZE" "fx_packet_len rx = None" "\<not> fx_all1 rx" "\<not> fx_done rx" "fx_attempts rx = 0"
    using assms by (auto simp: receiver_with_limit_def receiver_new_def res_bind_Inr_iff Let_def split: if_splits)
  have "\<not> got rx k" if "k < 126" for k
  proof -
    have "k div 63 = 0 \<or> k div 63 = 1" using that by linarith
    then show ?thesis using rx(1) by (auto simp: got_def)
  qed
  then show "rx_inv P r rx" using rx w assms(2) unfolding rx_inv_def by simp
  show "\<not> fx_done rx" "fx_attempts rx = 0" "\<not> fx_all1 rx" using rx by auto
qed

lemma history_inv:
  assumes "rx_inv P r rx" and "sender_of P r s" and "\<forall>d\<in>set ds. genuine s d"
  shows "rx_inv P r (fst (srun rx_feed ds rx)) \<and> (\<forall>x\<in>set (snd (srun rx_feed ds rx)). \<not> isl x)"
  using assms
proof (induction ds arbitrary: rx)
  case (Cons d ds)
  obtain rx1 res where "rx_feed rx d = (rx1, Inr res)" "rx_inv P r rx1"
    using feed_genuine [OF Cons.prems(1,2), of d] Cons.prems(3) by auto
  then show ?case using Cons.IH [of rx1] Cons.prems by (auto split: prod.split)
qed simp

end
