(* ===== verification/Schc_Repair.thy ===== *)
theory Schc_Repair
  imports Schc_Reassembly
begin

text \<open>
  Both ends of a fragmentation session together: the sender answers an acknowledgement by
  retransmitting exactly the missing tiles, a loss-free round completes the packet, and a
  sending session always ends.
\<close>

unbundle bit_operations_syntax

section \<open>Answering an acknowledgement\<close>

lemma bit_foldl_or:
  "bit (foldl (\<lambda>bm f. bm OR g f) a fs :: u64) n \<longleftrightarrow> bit a n \<or> (\<exists>f\<in>set fs. bit (g f) n)"
  by (induction fs arbitrary: a) (auto simp: bit_or_iff)

lemma fragment_bit_frag:
  assumes "i < tiles P" shows "bit (fragment_bit (frag P r i)) n \<longleftrightarrow> n = (if i + 1 = tiles P then 0 else 62 - i mod 63)"
  using frag_fcn [OF assms, of r] by (auto simp: fragment_bit_def bit_1_iff bit_exp_iff)

text \<open>The fragment a window position stands for: a regular tile, or the final one at position 62.\<close>

definition pos_tile :: "bytes \<Rightarrow> nat \<Rightarrow> nat \<Rightarrow> nat option" where
  "pos_tile P w p = (if w * 63 + p + 1 < tiles P then Some (w * 63 + p)
     else if w = fin_window P \<and> p = 62 then Some (tiles P - 1) else None)"

lemma window_of_tile:
  assumes P: "P \<noteq> []" "length P \<le> MAX_PACKET_SIZE" and i: "i < tiles P" and w: "w \<le> 1"
  shows "fr_window (frag P r i) = of_nat w \<longleftrightarrow> i div 63 = w"
proof -
  have "i < 126" using i tiles_bounds(4) [OF P] by simp
  then have "unat (fr_window (frag P r i)) = i div 63" by (rule frag_window)
  moreover have "unat (of_nat w :: u8) = w" using w by (cases w) auto
  ultimately show ?thesis by (metis word_unat_eq_iff)
qed

lemma tile_at_position:
  assumes i: "i < tiles P" and p: "p < 63"
  shows "i div 63 = w \<and> p = (if i + 1 = tiles P then 62 else i mod 63) \<longleftrightarrow> pos_tile P w p = Some i"
proof (cases "i + 1 = tiles P")
  case True
  then have i1: "tiles P - 1 = i" by simp
  show ?thesis unfolding pos_tile_def fin_window_def i1 using True p regular_in_order [of "w * 63 + p" P] by (auto simp: fin_window_def)
next
  case False
  then have i1: "i + 1 < tiles P" using i by simp
  have "i div 63 = w \<and> p = i mod 63 \<longleftrightarrow> i = w * 63 + p" using p by auto
  then show ?thesis using False i1 by (auto simp: pos_tile_def split: if_splits)
qed

lemma bit_assigned:
  assumes s: "sender_of P r s" and w: "w \<le> fin_window P"
  shows "bit (assigned_bitmap_inner s (of_nat w)) n \<longleftrightarrow> n < 63 \<and> pos_tile P w (62 - n) \<noteq> None"
proof -
  have P: "P \<noteq> []" "length P \<le> MAX_PACKET_SIZE" using s by (auto simp: sender_of_def)
  have w1: "w \<le> 1" using w fin_window_bounds(1) [OF P] by simp
  have "bit (assigned_bitmap_inner s (of_nat w)) n \<longleftrightarrow>
      (\<exists>i<tiles P. i div 63 = w \<and> n = (if i + 1 = tiles P then 0 else 62 - i mod 63))"
    unfolding assigned_bitmap_inner_def bit_foldl_or sender_fragments_frag [OF s]
    using fragment_bit_frag window_of_tile [OF P _ w1] by auto
  also have "\<dots> \<longleftrightarrow> (\<exists>i<tiles P. n < 63 \<and> i div 63 = w \<and> 62 - n = (if i + 1 = tiles P then 62 else i mod 63))"
  proof -
    have "n = (if i + 1 = tiles P then 0 else 62 - i mod 63) \<longleftrightarrow> n < 63 \<and> 62 - n = (if i + 1 = tiles P then 62 else i mod 63)" for i
      using mod_less_divisor [of 63 i] by auto
    then show ?thesis by blast
  qed
  also have "\<dots> \<longleftrightarrow> n < 63 \<and> (\<exists>i<tiles P. pos_tile P w (62 - n) = Some i)"
  proof -
    have "62 - n < 63" by simp
    from tile_at_position [OF _ this] show ?thesis by blast
  qed
  also have "\<dots> \<longleftrightarrow> n < 63 \<and> pos_tile P w (62 - n) \<noteq> None"
    using tiles_bounds(1) [OF P(1)] by (auto simp: pos_tile_def)
  finally show ?thesis .
qed

lemma find_upt:
  assumes "\<And>i. i < n \<Longrightarrow> Q (f i) \<longleftrightarrow> x = Some i" and "\<And>i. x = Some i \<Longrightarrow> i < n"
  shows "List.find Q (map f [0..<n]) = map_option f x"
proof (cases x)
  case None
  then show ?thesis using assms(1) by (auto simp: find_None_iff)
next
  case (Some i)
  then show ?thesis using assms by (auto simp: find_Some_iff intro!: exI [of _ i])
qed

lemma u8_of_nat_eq: "p < 256 \<Longrightarrow> q < 256 \<Longrightarrow> (of_nat p :: u8) = of_nat q \<longleftrightarrow> p = q"
proof -
  assume "p < 256" "q < 256"
  then have "unat (of_nat p :: u8) = p" "unat (of_nat q :: u8) = q" by (simp_all add: unat_of_nat_small)
  then show ?thesis by metis
qed

lemma fragment_at_position_tile:
  assumes s: "sender_of P r s" and w: "w \<le> fin_window P" and p: "p < 63"
  shows "fragment_at_position s (of_nat w) (of_nat p) = map_option (frag P r) (pos_tile P w p)"
proof -
  have P: "P \<noteq> []" "length P \<le> MAX_PACKET_SIZE" using s by (auto simp: sender_of_def)
  have w1: "w \<le> 1" using w fin_window_bounds(1) [OF P] by simp
  show ?thesis
    unfolding fragment_at_position_def sender_fragments_frag [OF s]
  proof (rule find_upt)
    fix i assume i: "i < tiles P"
    have "(of_nat p = (62 :: u8)) = (p = 62)" using u8_of_nat_eq [of p 62] p by simp
    moreover have "62 - fr_fcn (frag P r i) = of_nat (i mod 63)" if "i + 1 \<noteq> tiles P"
      using that of_nat_62 [of "62 - i mod 63"] mod_less_divisor [of 63 i] by (simp add: frag_def)
    moreover have "(of_nat p = (of_nat (i mod 63) :: u8)) = (p = i mod 63)"
      using p mod_less_divisor [of 63 i] by (intro u8_of_nat_eq) linarith+
    ultimately show "(fr_window (frag P r i) = of_nat w \<and>
        (if is_all_1 (frag P r i) then of_nat p = (62 :: u8) else of_nat p = 62 - fr_fcn (frag P r i))) = (pos_tile P w p = Some i)"
      using tile_at_position [OF i p, of w] window_of_tile [OF P i w1, of r] frag_fcn(2) [OF i, of r] by auto
  next
    fix i assume "pos_tile P w p = Some i"
    then show "i < tiles P" using tiles_bounds(1) [OF P(1)] by (auto simp: pos_tile_def split: if_splits)
  qed
qed
text \<open>Draining an output: every message \<open>write_next\<close> produces until it has none left.\<close>

fun drain :: "nat \<Rightarrow> fragment_sender \<Rightarrow> sender_output \<Rightarrow> bytes list" where
  "drain 0 s output = []"
| "drain (Suc fuel) s output =
     (case write_next_inner s output (replicate MAX_FRAGMENT_WIRE_SIZE 0) of
        Inr (output, out, Some n) \<Rightarrow> take n out # drain fuel s output
      | _ \<Rightarrow> [])"

definition missing_positions :: "u64 \<Rightarrow> nat \<Rightarrow> nat list" where
  "missing_positions missing p = filter (\<lambda>p. bit missing (62 - p)) [p..<63]"

definition repair_messages :: "bytes \<Rightarrow> u8 \<Rightarrow> nat \<Rightarrow> u64 \<Rightarrow> nat \<Rightarrow> bytes list" where
  "repair_messages P r w missing p =
     map (\<lambda>p. fragment_wire (frag P r (the (pos_tile P w p)))) (missing_positions missing p)"

definition assigned_only :: "bytes \<Rightarrow> nat \<Rightarrow> u64 \<Rightarrow> bool" where
  "assigned_only P w missing \<longleftrightarrow> (\<forall>p<63. bit missing (62 - p) \<longrightarrow> pos_tile P w p \<noteq> None)"

lemma missing_positions_step:
  "missing_positions missing p =
     (if p < 63 then (if bit missing (62 - p) then [p] else []) @ missing_positions missing (p + 1) else [])"
  by (simp add: missing_positions_def upt_conv_Cons)

lemma next_missing_spec:
  assumes s: "sender_of P r s" and w: "w \<le> fin_window P"
    and sub: "assigned_only P w missing"
  shows "next_missing s (of_nat w) missing p =
    (case missing_positions missing p of [] \<Rightarrow> None | q # _ \<Rightarrow> Some (q, frag P r (the (pos_tile P w q))))"
    and "missing_positions missing p = q # qs \<Longrightarrow> q < 63 \<and> qs = missing_positions missing (q + 1) \<and> bit missing (62 - q)"
proof (induction "63 - p" arbitrary: p)
  case 0
  then have "\<not> p < 63" by simp
  then have e: "missing_positions missing p = []" "\<not> p < WINDOW_SIZE" by (simp_all add: missing_positions_def WINDOW_SIZE_def)
  {
    case 1
    show ?case using e by (subst next_missing.simps) simp
  next
    case 2
    then show ?case using e by simp
  }
next
  case (Suc n)
  then have p: "p < 63" "n = 63 - (p + 1)" by simp_all
  note st = missing_positions_step [of missing p]
  {
    case 1
    show ?case
    proof (cases "bit missing (62 - p)")
      case True
      then obtain i where "pos_tile P w p = Some i" using sub p unfolding assigned_only_def by blast
      then show ?thesis
        using True p st fragment_at_position_tile [OF s w p(1)] and_push_1_iff [of missing "62 - p"]
        by (subst next_missing.simps) (simp add: WINDOW_SIZE_def)
    next
      case False
      then show ?thesis
        using p st Suc.hyps(1) [OF p(2)] and_push_1_iff [of missing "62 - p"]
        by (subst next_missing.simps) (simp add: WINDOW_SIZE_def)
    qed
  next
    case 2
    then show ?case using p st Suc.hyps(2) [OF p(2)] by (auto split: if_splits)
  }
qed

lemma request_written:
  assumes "check_rule r = Inr ()" and "w \<le> 1"
  shows "\<exists>out. control_write_to (CtlAckRequest r w) (replicate MAX_FRAGMENT_WIRE_SIZE 0) = Inr (out, 2) \<and>
    take 2 out = [r, push_bit 7 w]"
proof -
  obtain k where k: "MAX_FRAGMENT_WIRE_SIZE = Suc (Suc k)" using that [of 183] by (simp add: MAX_FRAGMENT_WIRE_SIZE_def MIC_LENGTH_def tile_size)
  show ?thesis using assms unfolding control_write_to_def k by (simp add: numeral_2_eq_2)
qed

lemma final_window_of:
  assumes "sender_of P r s"
  shows "final_window s = of_nat (fin_window P)" and "final_window s \<le> 1"
proof -
  have P: "P \<noteq> []" "length P \<le> MAX_PACKET_SIZE" "fs_count s = tiles P" using assms by (auto simp: sender_of_def tiles_def)
  show fw: "final_window s = of_nat (fin_window P)" by (simp add: final_window_def fin_window_def P WINDOW_SIZE_def)
  show "final_window s \<le> 1" unfolding fw using fin_window_bounds(1) [OF P(1,2)] by (cases "fin_window P") auto
qed

lemma write_next_repair:
  assumes s: "sender_of P r s" "fs_status s = SsActive" and w: "w \<le> fin_window P" and p: "p \<le> 63"
    and sub: "assigned_only P w missing"
  shows "missing_positions missing p = q # qs \<Longrightarrow>
      \<exists>out n. write_next_inner s (SoRetransmit (of_nat w) missing (of_nat p) request) (replicate MAX_FRAGMENT_WIRE_SIZE 0) =
        Inr (SoRetransmit (of_nat w) missing (of_nat (q + 1)) request, out, Some n) \<and>
        take n out = fragment_wire (frag P r (the (pos_tile P w q)))"
    and "missing_positions missing p = [] \<Longrightarrow>
      \<exists>out. write_next_inner s (SoRetransmit (of_nat w) missing (of_nat p) True) (replicate MAX_FRAGMENT_WIRE_SIZE 0) =
        Inr (SoRetransmit (of_nat w) missing (of_nat 63) False, out, Some 2) \<and> take 2 out = [r, push_bit 7 (final_window s)]"
    and "missing_positions missing p = [] \<Longrightarrow>
      write_next_inner s (SoRetransmit (of_nat w) missing (of_nat p) False) buf = Inr (SoRetransmit (of_nat w) missing (of_nat p) False, buf, None)"
proof -
  have P: "P \<noteq> []" "check_rule r = Inr ()" "fs_rule_id s = r" using s by (auto simp: sender_of_def)
  have up: "unat (of_nat p :: u8) = p" using p by (simp add: unat_of_nat_small)
  note nm = next_missing_spec [OF s(1) w sub, where p = p]
  {
    assume e: "missing_positions missing p = q # qs"
    then have q: "q < 63" "bit missing (62 - q)" using nm(2) by blast+
    then obtain i where i: "pos_tile P w q = Some i" using sub unfolding assigned_only_def by blast
    then have "i < tiles P" using tiles_bounds(1) [OF P(1)] by (auto simp: pos_tile_def split: if_splits)
    then have ok: "fragment_ok (frag P r i)" by (rule frag_ok [OF s(1)])
    have "of_nat q + 1 = (of_nat (q + 1) :: u8)" by simp
    then show "\<exists>out n. write_next_inner s (SoRetransmit (of_nat w) missing (of_nat p) request) (replicate MAX_FRAGMENT_WIRE_SIZE 0) =
        Inr (SoRetransmit (of_nat w) missing (of_nat (q + 1)) request, out, Some n) \<and>
        take n out = fragment_wire (frag P r (the (pos_tile P w q)))"
      using nm(1) e s(2) i fragment_wire_fits [OF ok] take_splice_0 [of "fragment_wire (frag P r i)"]
      unfolding write_next_inner_def by (simp add: up fragment_write_to_valid [OF ok] not_less)
  next
    assume e: "missing_positions missing p = []"
    then have n: "next_missing s (of_nat w) missing p = None" using nm(1) by simp
    show "\<exists>out. write_next_inner s (SoRetransmit (of_nat w) missing (of_nat p) True) (replicate MAX_FRAGMENT_WIRE_SIZE 0) =
        Inr (SoRetransmit (of_nat w) missing (of_nat 63) False, out, Some 2) \<and> take 2 out = [r, push_bit 7 (final_window s)]"
      using request_written [OF P(2) final_window_of(2) [OF s(1)]] n s(2) P(3)
      unfolding write_next_inner_def by (auto simp: up WINDOW_SIZE_def)
    show "write_next_inner s (SoRetransmit (of_nat w) missing (of_nat p) False) buf = Inr (SoRetransmit (of_nat w) missing (of_nat p) False, buf, None)"
      using n s(2) unfolding write_next_inner_def by (simp add: up)
  }
qed

lemma drain_repair:
  assumes s: "sender_of P r s" "fs_status s = SsActive" and w: "w \<le> fin_window P"
    and sub: "assigned_only P w missing"
    and fuel: "65 - p \<le> fuel" and p: "p \<le> 63"
  shows "drain fuel s (SoRetransmit (of_nat w) missing (of_nat p) request) =
    repair_messages P r w missing p @ (if request then [[r, push_bit 7 (final_window s)]] else [])"
  using fuel p
proof (induction fuel arbitrary: p)
  case (Suc fuel)
  note wn = write_next_repair [OF s w Suc.prems(2) sub]
  show ?case
  proof (cases "missing_positions missing p")
    case Nil
    have e63: "missing_positions missing 63 = []" by (simp add: missing_positions_def)
    have "drain fuel s (SoRetransmit (of_nat w) missing (of_nat 63) False) = []"
      using write_next_repair(3) [OF s w order_refl sub e63] by (cases fuel) auto
    then show ?thesis
      using wn(2,3) [OF Nil] Nil by (cases request) (auto simp: repair_messages_def)
  next
    case (Cons q qs)
    then have q: "q < 63" "qs = missing_positions missing (q + 1)"
      using next_missing_spec(2) [OF s(1) w sub] by blast+
    have "q \<in> set (missing_positions missing p)" using Cons by simp
    then have "p \<le> q" by (simp add: missing_positions_def)
    then have "65 - (q + 1) \<le> fuel" using Suc.prems q by linarith
    then show ?thesis
      using Suc.IH [of "q + 1"] q Cons wn(1) [OF Cons, of request] by (auto simp: repair_messages_def)
  qed
qed simp
lemma sender_of_upd: "sender_of P r (s\<lparr>fs_attempts := n\<rparr>) = sender_of P r s"
  by (simp add: sender_of_def)

definition missing_of :: "fragment_sender \<Rightarrow> nat \<Rightarrow> u64 \<Rightarrow> u64" where
  "missing_of s w b = assigned_bitmap_inner s (of_nat w) AND NOT b"

lemma bit_missing_of:
  assumes "sender_of P r s" and "w \<le> fin_window P" and "n < 63"
  shows "bit (missing_of s w b) n \<longleftrightarrow> pos_tile P w (62 - n) \<noteq> None \<and> \<not> bit b n"
  using bit_assigned [OF assms(1,2), of n] assms(3) by (auto simp: missing_of_def bit_and_iff bit_not_iff)

lemma missing_assigned_only:
  assumes "sender_of P r s" and "w \<le> fin_window P" shows "assigned_only P w (missing_of s w b)"
  unfolding assigned_only_def using bit_missing_of [OF assms] by auto

lemma reports_assigned:
  assumes s: "sender_of P r s" and inv: "rx_inv P r rx" and rep: "ack_reports P rx w b" and w1: "w \<le> 1"
  shows "b AND NOT (assigned_bitmap_inner s (of_nat w)) AND BITMAP_MASK = 0"
proof (rule bit_word_eqI)
  fix n
  have w: "w \<le> fin_window P" "b AND BITMAP_MASK = b" using rep by (auto simp: ack_reports_def)
  have "bit b n \<Longrightarrow> bit (assigned_bitmap_inner s (of_nat w)) n"
  proof -
    assume bn: "bit b n"
    then have n: "n < 63" by (rule masked_bit [OF w(2)])
    then have e: "62 - (62 - n) = n" "62 - n < 63" by simp_all
    have "got rx (w * 63 + (62 - n)) \<or> 62 - n = 62 \<and> w = fin_window P"
      using rep bn e unfolding ack_reports_def by metis
    then have "pos_tile P w (62 - n) \<noteq> None"
      using rx_inv_got [OF inv, of "w * 63 + (62 - n)"] w1 n by (auto simp: pos_tile_def)
    then show ?thesis using bit_assigned [OF s w(1)] n by blast
  qed
  then show "bit (b AND NOT (assigned_bitmap_inner s (of_nat w)) AND BITMAP_MASK) n = bit 0 n"
    by (auto simp: bit_and_iff bit_not_iff)
qed

lemma reports_missing:
  assumes s: "sender_of P r s" and rep: "ack_reports P rx w b"
  shows "missing_of s w b \<noteq> 0"
proof
  have P: "P \<noteq> []" "length P \<le> MAX_PACKET_SIZE" and w: "w \<le> fin_window P"
    using s rep by (auto simp: sender_of_def ack_reports_def)
  note fb = fin_window_bounds [OF P]
  assume z: "missing_of s w b = 0"
  have none: "\<not> (pos_tile P w p \<noteq> None \<and> \<not> bit b (62 - p))" if "p < 63" for p
    using bit_missing_of [OF s w, of "62 - p" b] z that by simp
  have r: "\<forall>j<63. bit b (62 - j) \<longleftrightarrow> got rx (w * 63 + j) \<or> j = 62 \<and> w = fin_window P \<and> bit b 0"
    using rep unfolding ack_reports_def by blast
  from rep consider k where "w * 63 \<le> k" "k < w * 63 + 63" "k + 1 < tiles P" "\<not> got rx k" | "w = fin_window P" "\<not> bit b 0"
    unfolding ack_reports_def by blast
  then show False
  proof cases
    case 1
    then obtain j where j: "k = w * 63 + j" "j < 63" by (metis add_less_cancel_left le_Suc_ex)
    then have "pos_tile P w j \<noteq> None" using 1(3) by (simp add: pos_tile_def)
    then have "bit b (62 - j)" using none [OF j(2)] by blast
    then have "j = 62" "w = fin_window P" using r j 1(4) by auto
    then show False using 1(3) j fb(4) by linarith
  next
    case 2
    then have "pos_tile P w 62 \<noteq> None" by (simp add: pos_tile_def)
    then show False using none [of 62] 2 by simp
  qed
qed

lemma handle_ack_repair:
  assumes s: "sender_of P r s" "fs_status s = SsActive" "unat (fs_attempts s) < 4" and rep: "ack_reports P rx w b"
    and inv: "rx_inv P r rx"
  defines "a \<equiv> ack_new r (of_nat w) b False" and "m \<equiv> missing_of s w b"
  shows "ack_ok a" and "handle_ack_bytes_inner s (ack_wire a) =
    Inr (s\<lparr>fs_attempts := fs_attempts s + 1\<rparr>, SoRetransmit (of_nat w) m 0 (\<not> (w = fin_window P \<and> bit m 0)))"
proof -
  have P: "P \<noteq> []" "length P \<le> MAX_PACKET_SIZE" "check_rule r = Inr ()" "fs_rule_id s = r" using s by (auto simp: sender_of_def)
  have w: "w \<le> fin_window P" "b AND BITMAP_MASK = b" using rep by (auto simp: ack_reports_def)
  note fb = fin_window_bounds [OF P(1,2)] and fw = final_window_of [OF s(1)]
  have w1: "w \<le> 1" using w fb(1) by simp
  have a: "ack_rule_id a = r" "ack_window a = of_nat w" "ack_bitmap a = b" "\<not> ack_complete a"
    using w by (simp_all add: a_def ack_new_def)
  show ok: "ack_ok a" using P(3) w1 w a by (cases w) (auto simp: ack_ok_def)
  have gt: "\<not> of_nat w > final_window s" unfolding fw(1) word_less_nat_alt fb(2) using w w1 by (cases w) auto
  have eq: "of_nat w = final_window s \<longleftrightarrow> w = fin_window P" unfolding fw(1) using w1 fb(1) by (intro u8_of_nat_eq) linarith+
  note sub = reports_assigned [OF s(1) inv rep w1]
  have nz: "m \<noteq> 0" unfolding m_def by (rule reports_missing [OF s(1) rep])
  have hd: "ack_wire a \<noteq> []" "hd (ack_wire a) = r" "ack_wire a \<noteq> [r, 0xff, 0xff]"
  proof -
    have l: "2 \<le> length (ack_wire a)" by (rule ack_wire_length(2) [OF ok])
    then show "ack_wire a \<noteq> []" by auto
    then show "hd (ack_wire a) = r" using ack_wire_header(1) [OF ok] a(1) by (simp add: hd_conv_nth)
    have "ack_wire a ! 1 AND 0x40 = 0" using ack_wire_header(3) [OF ok] a(4) by blast
    then show "ack_wire a \<noteq> [r, 0xff, 0xff]" by auto
  qed
  have f1: "ack_from_bytes (ack_wire a) = Inr a" using ok by (simp add: ack_from_bytes_iff)
  have f2: "ack_from_bytes_for (ack_wire a) (Some (assigned_bitmap_inner s (of_nat w))) = Inr a"
    using ok sub a by (intro ack_from_bytes_wire) auto
  have m1: "m AND 1 \<noteq> 0 \<longleftrightarrow> bit m 0" using and_push_1_iff [of m 0] by simp
  have att: "\<not> unat (fs_attempts s) \<ge> MAX_ACK_REQUESTS" using s(3) by (simp add: MAX_ACK_REQUESTS_def)
  have "handle_ack_inner s a = (s\<lparr>fs_attempts := fs_attempts s + 1\<rparr>, SoRetransmit (of_nat w) m 0 (\<not> (w = fin_window P \<and> bit m 0)))"
    using s(2) P(4) gt eq sub nz att m1 unfolding handle_ack_inner_def Let_def a missing_of_def [symmetric] m_def [symmetric]
    by (simp add: a final_window_def)
  then show "handle_ack_bytes_inner s (ack_wire a) =
    Inr (s\<lparr>fs_attempts := fs_attempts s + 1\<rparr>, SoRetransmit (of_nat w) m 0 (\<not> (w = fin_window P \<and> bit m 0)))"
    unfolding handle_ack_bytes_inner_def P(4) control_bytes_ok(2) [OF P(3)] using s(2) hd f1 f2 gt a by simp
qed
section \<open>A round of repair\<close>

text \<open>
  One lossless round: the receiver's response is written, the sender answers it, everything the
  sender then emits reaches the receiver, and the last answer is the next response.
\<close>

definition answer :: "fragment_sender \<Rightarrow> receiver_result \<Rightarrow> (fragment_sender \<times> sender_output) option" where
  "answer s res =
     (case rr_response res of None \<Rightarrow> None
      | Some resp \<Rightarrow>
          (case receiver_response_write_to resp (replicate 10 0) of Inl _ \<Rightarrow> None
           | Inr (out, n) \<Rightarrow>
               (case handle_ack_bytes_inner s (take n out) of Inl _ \<Rightarrow> None | Inr answered \<Rightarrow> Some answered)))"

definition repair_round ::
  "fragment_sender \<Rightarrow> fragment_receiver \<Rightarrow> receiver_result \<Rightarrow> (fragment_sender \<times> fragment_receiver \<times> receiver_result) option" where
  "repair_round s rx res =
     (case answer s res of None \<Rightarrow> None
      | Some (s, output) \<Rightarrow>
          (case srun rx_feed (drain 65 s output) rx of (rx, rs) \<Rightarrow>
             (case rev rs of Inr res # _ \<Rightarrow> Some (s, rx, res) | _ \<Rightarrow> None)))"

lemma awaiting_active: "awaiting P r rx \<Longrightarrow> active_rx rx = rx \<and> rx\<lparr>fx_rule_id := Some r\<rparr> = rx"
  by (cases rx) (simp add: awaiting_def active_rx_def)

lemma feed_fragment:
  assumes aw: "awaiting P r rx" and s: "sender_of P r s" and i: "i < tiles P"
  shows "rx_feed rx (fragment_wire (frag P r i)) =
    (let (rx, res) = (if i + 1 = tiles P then receive_all1 rx (frag P r i) else receive_regular rx (frag P r i)) in (rx, Inr res))"
proof -
  note ok = frag_ok [OF s i] and a = awaiting_active [OF aw]
  have "receive_inner rx (frag P r i) = (if i + 1 = tiles P then receive_all1 rx (frag P r i) else receive_regular rx (frag P r i))"
    using receive_inner_genuine [of P r rx i] aw ok a frag_fcn(2) [OF i, of r] by (simp add: awaiting_def)
  then show ?thesis
    using receive_bytes_fragment [OF ok, of rx] a by (simp add: rx_feed_def split: prod.split)
qed

lemma feed_regulars:
  assumes "awaiting P r rx" and s: "sender_of P r s" and "\<forall>i\<in>set is. i + 1 < tiles P"
  shows "\<exists>rx' rs. srun rx_feed (map (\<lambda>i. fragment_wire (frag P r i)) is) rx = (rx', rs) \<and> awaiting P r rx' \<and>
    fx_all1 rx' = fx_all1 rx \<and> fx_attempts rx' = fx_attempts rx \<and> (\<forall>k<126. got rx' k \<longleftrightarrow> got rx k \<or> k \<in> set is)"
  using assms(1,3)
proof (induction "is" arbitrary: rx)
  case (Cons i js)
  have aw: "rx_inv P r rx" "\<not> fx_done rx" "fx_rule_id rx = Some r" using Cons.prems by (auto simp: awaiting_def)
  have i: "i + 1 < tiles P" using Cons.prems by simp
  obtain rx1 where 1: "receive_regular rx (frag P r i) = (rx1, rr_default)" "rx_inv P r rx1" "\<not> fx_done rx1"
      "fx_rule_id rx1 = fx_rule_id rx" "fx_all1 rx1 = fx_all1 rx" "fx_attempts rx1 = fx_attempts rx"
      "\<forall>k<126. got rx1 k \<longleftrightarrow> got rx k \<or> k = i"
    using receive_regular_genuine [OF aw(1,2) s i] by blast
  have f: "rx_feed rx (fragment_wire (frag P r i)) = (rx1, Inr rr_default)"
    using feed_fragment [OF Cons.prems(1) s, of i] i 1(1) by simp
  have "awaiting P r rx1" using 1 aw by (simp add: awaiting_def)
  then obtain rx' rs where "srun rx_feed (map (\<lambda>i. fragment_wire (frag P r i)) js) rx1 = (rx', rs)" "awaiting P r rx'"
      "fx_all1 rx' = fx_all1 rx1" "fx_attempts rx' = fx_attempts rx1" "\<forall>k<126. got rx' k \<longleftrightarrow> got rx1 k \<or> k \<in> set js"
    using Cons.IH [of rx1] Cons.prems by auto
  then show ?case using f 1 by auto
qed simp

text \<open>The regular tiles among the missing positions of a window.\<close>

definition missing_tiles :: "bytes \<Rightarrow> nat \<Rightarrow> u64 \<Rightarrow> nat list" where
  "missing_tiles P w m = map (\<lambda>p. w * 63 + p) (filter (\<lambda>p. bit m (62 - p) \<and> w * 63 + p + 1 < tiles P) [0..<63])"

lemma repair_messages_split:
  assumes P: "P \<noteq> []" "length P \<le> MAX_PACKET_SIZE" and w: "w \<le> fin_window P" and sub: "assigned_only P w m"
  shows "repair_messages P r w m 0 = map (\<lambda>i. fragment_wire (frag P r i)) (missing_tiles P w m) @
    (if w = fin_window P \<and> bit m 0 then [fragment_wire (frag P r (tiles P - 1))] else [])"
proof -
  have u: "[0..<63] = [0..<62] @ [62]" using upt_Suc_append [of 0 62] by simp
  have lt: "w * 63 + p + 1 < tiles P" if "p < 62" "bit m (62 - p)" for p
    using sub that unfolding assigned_only_def by (auto simp: pos_tile_def split: if_splits dest: spec [of _ p])
  have f: "filter (\<lambda>p. bit m (62 - p) \<and> w * 63 + p + 1 < tiles P) [0..<62] = filter (\<lambda>p. bit m (62 - p)) [0..<62]"
    using lt by (intro filter_cong) auto
  have fw: "\<not> fin_window P * 63 + 62 + 1 < tiles P" using fin_window_bounds(4) [OF P] by linarith
  have t62: "w * 63 + 62 + 1 < tiles P" if "bit m 0" "w \<noteq> fin_window P"
    using sub that unfolding assigned_only_def by (auto simp: pos_tile_def split: if_splits dest: spec [of _ 62])
  have "map (\<lambda>p. fragment_wire (frag P r (the (pos_tile P w p)))) (filter (\<lambda>p. bit m (62 - p)) [0..<62]) =
      map (\<lambda>i. fragment_wire (frag P r i)) (map (\<lambda>p. w * 63 + p) (filter (\<lambda>p. bit m (62 - p)) [0..<62]))"
    using lt by (auto simp: pos_tile_def)
  then show ?thesis
    using fw t62 unfolding repair_messages_def missing_positions_def missing_tiles_def u filter_append map_append f
    by (auto simp: pos_tile_def)
qed
lemma window_repaired:
  assumes inv: "rx_inv P r rx" and s: "sender_of P r s" and rep: "ack_reports P rx w b"
    and g: "\<forall>k<126. got rx' k \<longleftrightarrow> got rx k \<or> k \<in> set (missing_tiles P w (missing_of s w b))"
  shows "w * 63 \<le> k \<Longrightarrow> k < w * 63 + 63 \<Longrightarrow> k + 1 < tiles P \<Longrightarrow> got rx' k"
    and "w = fin_window P \<Longrightarrow> k + 1 < tiles P \<Longrightarrow> got rx' k"
    and "k < 126 \<Longrightarrow> got rx k \<Longrightarrow> got rx' k"
proof -
  have P: "P \<noteq> []" "length P \<le> MAX_PACKET_SIZE" and w: "w \<le> fin_window P"
    using s rep by (auto simp: sender_of_def ack_reports_def)
  note fb = fin_window_bounds [OF P]
  have t: "k + 1 < tiles P \<Longrightarrow> k < 126" for k using tiles_bounds(4) [OF P] by linarith
  show keep: "k < 126 \<Longrightarrow> got rx k \<Longrightarrow> got rx' k" for k using g by blast
  show win: "got rx' k" if k: "w * 63 \<le> k" "k < w * 63 + 63" "k + 1 < tiles P" for k
  proof (cases "got rx k")
    case True then show ?thesis using keep t k by blast
  next
    case False
    obtain j where j: "k = w * 63 + j" "j < 63" using k(1,2) by (metis add_less_cancel_left le_Suc_ex)
    have "\<not> bit b (62 - j)"
    proof
      assume "bit b (62 - j)"
      then have "j = 62" "w = fin_window P" using rep j False unfolding ack_reports_def by auto
      then show False using k(3) j fb(4) by linarith
    qed
    then have "bit (missing_of s w b) (62 - j)"
      using bit_missing_of [OF s w, of "62 - j" b] j k(3) by (simp add: pos_tile_def)
    then have "k \<in> set (missing_tiles P w (missing_of s w b))" using j k(3) by (auto simp: missing_tiles_def)
    then show ?thesis using g t k(3) by blast
  qed
  show "got rx' k" if "w = fin_window P" "k + 1 < tiles P"
  proof (cases "w * 63 \<le> k")
    case True
    then show ?thesis using win that fb(4) by simp
  next
    case False
    then have "got rx k" using rep that unfolding ack_reports_def by simp
    then show ?thesis using keep t that by blast
  qed
qed

definition repaired :: "bytes \<Rightarrow> u8 \<Rightarrow> nat \<Rightarrow> u8 \<Rightarrow> fragment_receiver \<Rightarrow> receiver_result \<Rightarrow> bool" where
  "repaired P r w n rx res \<longleftrightarrow>
     delivers P r rx res \<and> (w = fin_window P \<longrightarrow> receiver_packet rx = Some P) \<or>
     w < fin_window P \<and> asks_repair P r rx res (fin_window P) \<and> fx_attempts rx = n + 1"

lemma closes_repaired:
  assumes c: "closes P r rx1 rx' res" and w: "w \<le> fin_window P" and P: "P \<noteq> []" "length P \<le> MAX_PACKET_SIZE"
    and g: "\<And>k. w = fin_window P \<Longrightarrow> k + 1 < tiles P \<Longrightarrow> got rx1 k"
    and g0: "\<And>k. w * 63 \<le> k \<Longrightarrow> k < w * 63 + 63 \<Longrightarrow> k + 1 < tiles P \<Longrightarrow> got rx1 k"
  shows "repaired P r w (fx_attempts rx1) rx' res"
proof (cases "w = fin_window P")
  case True
  then show ?thesis using c g unfolding closes_def repaired_def by blast
next
  case False
  then have "w = 0" "fin_window P = 1" using w fin_window_bounds(1) [OF P] by linarith+
  moreover from this have "\<forall>k<63. got rx1 k" using g0 fin_window_bounds(3) [OF P] by auto
  ultimately show ?thesis using c unfolding closes_def repaired_def by auto
qed

lemma last_message:
  assumes aw: "awaiting P r rx1" and att: "unat (fx_attempts rx1) < 4" and s: "sender_of P r s" and w: "w \<le> fin_window P"
    and g: "\<And>k. w = fin_window P \<Longrightarrow> k + 1 < tiles P \<Longrightarrow> got rx1 k"
    and g0: "\<And>k. w * 63 \<le> k \<Longrightarrow> k < w * 63 + 63 \<Longrightarrow> k + 1 < tiles P \<Longrightarrow> got rx1 k"
  shows "\<exists>rx' res. rx_feed rx1 (fragment_wire (frag P r (tiles P - 1))) = (rx', Inr res) \<and> repaired P r w (fx_attempts rx1) rx' res"
    and "fx_all1 rx1 \<or> w < fin_window P \<Longrightarrow>
      \<exists>rx' res. rx_feed rx1 [r, push_bit 7 (final_window s)] = (rx', Inr res) \<and> repaired P r w (fx_attempts rx1) rx' res"
proof -
  have P: "P \<noteq> []" "length P \<le> MAX_PACKET_SIZE" "check_rule r = Inr ()" using s by (auto simp: sender_of_def)
  have inv: "rx_inv P r rx1" "\<not> fx_done rx1" using aw by (auto simp: awaiting_def)
  have fin: "\<exists>rx' res. finalize rx2 = (rx', res) \<and> repaired P r w (fx_attempts rx1) rx' res"
    if c: "closing P r rx2" "fx_attempts rx2 = fx_attempts rx1" "\<forall>k. got rx2 k = got rx1 k" for rx2
    using finalize_outcome [OF c(1)] closes_repaired [OF _ w P(1,2), of r rx2] c att g g0 by metis
  have t: "tiles P - 1 < tiles P" "tiles P - 1 + 1 = tiles P" using tiles_bounds(1) [OF P(1)] by auto
  obtain rx2 where "receive_all1 rx1 (frag P r (tiles P - 1)) = finalize rx2" "closing P r rx2"
      "fx_attempts rx2 = fx_attempts rx1" "\<forall>k. got rx2 k = got rx1 k"
    using receive_all1_genuine [OF aw s t(2)] by blast
  then show "\<exists>rx' res. rx_feed rx1 (fragment_wire (frag P r (tiles P - 1))) = (rx', Inr res) \<and> repaired P r w (fx_attempts rx1) rx' res"
    using feed_fragment [OF aw s t(1)] t fin by fastforce
  have req: "rx_feed rx1 [r, push_bit 7 (final_window s)] = (let (rx, res) = receive_ack_request rx1 r in (rx, Inr res))"
    using receive_bytes_ack_request [OF P(3) final_window_of(2) [OF s], of rx1] awaiting_active [OF aw]
    by (simp add: rx_feed_def split: prod.split)
  assume h: "fx_all1 rx1 \<or> w < fin_window P"
  show "\<exists>rx' res. rx_feed rx1 [r, push_bit 7 (final_window s)] = (rx', Inr res) \<and> repaired P r w (fx_attempts rx1) rx' res"
  proof (cases "fx_all1 rx1")
    case True
    then obtain rx2 where "receive_ack_request rx1 r = finalize rx2" "closing P r rx2"
        "fx_attempts rx2 = fx_attempts rx1" "\<forall>k. got rx2 k = got rx1 k"
      using receive_ack_request_genuine(1) [OF inv P(1,2)] by blast
    then show ?thesis using req fin by fastforce
  next
    case False
    then have w0: "w = 0" "fin_window P = 1" "w < fin_window P" using h w fin_window_bounds(1) [OF P(1,2)] by linarith+
    then have "\<forall>k<63. got rx1 k" using g0 fin_window_bounds(3) [OF P(1,2)] by auto
    then have "next_window rx1 = fin_window P"
      using w0 bitmap_full_iff [of "fx_bitmaps rx1 ! 0"] window_tiles [of 63 rx1 0] inv(1) by (auto simp: next_window_def rx_inv_def)
    then obtain rx2 where 2: "receive_ack_request rx1 r =
        respond rx2 (ack_new r (of_nat (fin_window P)) (fx_bitmaps rx1 ! fin_window P) False)" "awaiting P r rx2"
        "ack_reports P rx2 (fin_window P) (fx_bitmaps rx1 ! fin_window P)" "fx_attempts rx2 = fx_attempts rx1"
      using receive_ack_request_genuine(2) [OF inv P(1,2) False] by auto
    then show ?thesis using req respond_repair [OF 2(2,3)] att w0(3) unfolding repaired_def by fastforce
  qed
qed
lemma repair_round_step:
  assumes s: "sender_of P r s" "fs_status s = SsActive" "unat (fs_attempts s) < 4"
    and a: "asks_repair P r rx res w" and att: "unat (fx_attempts rx) < 4"
  shows "\<exists>rx' res'. repair_round s rx res = Some (s\<lparr>fs_attempts := fs_attempts s + 1\<rparr>, rx', res') \<and>
    repaired P r w (fx_attempts rx) rx' res'"
proof -
  obtain b where b: "rr_response res = Some (RespAck (ack_new r (of_nat w) b False))" "ack_reports P rx w b" and aw: "awaiting P r rx"
    using a by (auto simp: asks_repair_def)
  have P: "P \<noteq> []" "length P \<le> MAX_PACKET_SIZE" and w: "w \<le> fin_window P" and inv: "rx_inv P r rx"
    using s b aw by (auto simp: sender_of_def ack_reports_def awaiting_def)
  let ?a = "ack_new r (of_nat w) b False" and ?m = "missing_of s w b" and ?s = "s\<lparr>fs_attempts := fs_attempts s + 1\<rparr>"
  note h = handle_ack_repair [OF s b(2) inv]
  have s': "sender_of P r ?s" "fs_status ?s = SsActive" using s by (simp_all add: sender_of_upd)
  have msgs: "drain 65 ?s (SoRetransmit (of_nat w) ?m 0 (\<not> (w = fin_window P \<and> bit ?m 0))) =
      map (\<lambda>i. fragment_wire (frag P r i)) (missing_tiles P w ?m) @
      [if w = fin_window P \<and> bit ?m 0 then fragment_wire (frag P r (tiles P - 1)) else [r, push_bit 7 (final_window ?s)]]"
    using drain_repair [OF s' w missing_assigned_only [OF s(1) w], of 0 65] repair_messages_split [OF P w missing_assigned_only [OF s(1) w]]
    by auto
  obtain rx1 rs where 1: "srun rx_feed (map (\<lambda>i. fragment_wire (frag P r i)) (missing_tiles P w ?m)) rx = (rx1, rs)" "awaiting P r rx1"
      "fx_all1 rx1 = fx_all1 rx" "fx_attempts rx1 = fx_attempts rx" "\<forall>k<126. got rx1 k \<longleftrightarrow> got rx k \<or> k \<in> set (missing_tiles P w ?m)"
    using feed_regulars [OF aw s(1), of "missing_tiles P w ?m"] by (auto simp: missing_tiles_def)
  note wr = window_repaired [OF inv s(1) b(2) 1(5)]
  have all1: "fx_all1 rx1 \<or> w < fin_window P" if "\<not> (w = fin_window P \<and> bit ?m 0)"
  proof (cases "w = fin_window P")
    case True
    then have "bit b 0" using that bit_missing_of [OF s(1) w, of 0 b] by (auto simp: pos_tile_def split: if_splits)
    then show ?thesis using b(2) True 1(3) unfolding ack_reports_def by blast
  qed (use w in simp)
  have att1: "unat (fx_attempts rx1) < 4" using att 1(4) by simp
  have "\<exists>rx' res'. rx_feed rx1 (fragment_wire (frag P r (tiles P - 1))) = (rx', Inr res') \<and> repaired P r w (fx_attempts rx1) rx' res'"
    by (rule last_message(1) [OF 1(2) att1 s'(1) w]) (erule (1) wr(2), erule (2) wr(1))
  moreover have "fx_all1 rx1 \<or> w < fin_window P \<Longrightarrow>
      \<exists>rx' res'. rx_feed rx1 [r, push_bit 7 (final_window ?s)] = (rx', Inr res') \<and> repaired P r w (fx_attempts rx1) rx' res'"
    by (rule last_message(2) [OF 1(2) att1 s'(1) w]) (erule (1) wr(2), erule (2) wr(1))
  ultimately have "\<exists>rx' res'. rx_feed rx1 (if w = fin_window P \<and> bit ?m 0 then fragment_wire (frag P r (tiles P - 1)) else [r, push_bit 7 (final_window ?s)]) =
      (rx', Inr res') \<and> repaired P r w (fx_attempts rx1) rx' res'"
    using all1 by presburger
  then obtain rx' res' where last: "rx_feed rx1 (if w = fin_window P \<and> bit ?m 0 then fragment_wire (frag P r (tiles P - 1)) else [r, push_bit 7 (final_window ?s)]) =
      (rx', Inr res')" "repaired P r w (fx_attempts rx) rx' res'" using 1(4) by auto
  have wr: "receiver_response_write_to (RespAck ?a) (replicate 10 0) = Inr (splice (replicate 10 0) 0 (ack_wire ?a), length (ack_wire ?a))"
    using ack_write_to_valid [OF h(1)] ack_wire_length(1) [OF h(1)] by (simp add: receiver_response_write_to_def)
  have "repair_round s rx res = Some (?s, rx', res')"
    unfolding repair_round_def answer_def b(1) option.case wr sum.case prod.case take_splice_0 h(2) msgs srun_append 1(1)
    using last(1) by simp
  then show ?thesis using last(2) by blast
qed

lemma feed_response:
  assumes inv: "rx_inv P r rx" and s: "sender_of P r s" and g: "genuine s data" and f: "rx_feed rx data = (rx', Inr res)"
    and resp: "rr_response res = Some (RespAck a)" "rr_packet_len res = None"
  shows "\<exists>w. asks_repair P r rx' res w"
proof -
  have P: "P \<noteq> []" "length P \<le> MAX_PACKET_SIZE" "check_rule r = Inr ()" using s by (auto simp: sender_of_def)
  note ac = rx_inv_active [OF inv]
  have fin: "\<exists>w. asks_repair P r (fst (finalize rx1)) (snd (finalize rx1)) w"
    if "closing P r rx1" "rr_response (snd (finalize rx1)) = Some (RespAck a)" "rr_packet_len (snd (finalize rx1)) = None" for rx1
    using that finalize_outcome [OF that(1)] finalize_exhausted(4) [OF that(1)]
    by (cases "unat (fx_attempts rx1) < 4") (auto simp: closes_def delivers_def)
  from s g show ?thesis
  proof (cases rule: genuine_cases)
    case (frag i)
    let ?rx = "(active_rx rx)\<lparr>fx_rule_id := Some r\<rparr>"
    have inv': "rx_inv P r ?rx" "\<not> fx_done ?rx" using bind_rule_genuine(2) ac by auto
    have aw: "awaiting P r ?rx" using inv' by (simp add: awaiting_def)
    note ok = frag_ok [OF s frag(1)]
    have e: "(rx', res) = (if i + 1 = tiles P then receive_all1 ?rx (frag P r i) else receive_regular ?rx (frag P r i))"
      using f frag(2) receive_bytes_fragment [OF ok, of rx] receive_inner_genuine [of P r "active_rx rx" i] ac ok frag_fcn(2) [OF frag(1), of r]
      by (auto simp: rx_feed_def split: prod.splits)
    show ?thesis
    proof (cases "i + 1 = tiles P")
      case True
      then obtain rx1 where "(rx', res) = finalize rx1" "closing P r rx1" using e receive_all1_genuine [OF aw s True] by auto
      then show ?thesis using fin [of rx1] resp by (metis fst_conv snd_conv)
    next
      case False
      then have "res = rr_default" using e receive_regular_genuine [OF inv' s, of i] frag(1) by auto
      then show ?thesis using resp by (simp add: rr_default_def)
    qed
  next
    case (request w)
    have e: "receive_ack_request (active_rx rx) r = (rx', res)"
      using f request receive_bytes_ack_request [OF P(3) request(1), of rx] by (auto simp: rx_feed_def split: prod.splits)
    show ?thesis
    proof (cases "fx_all1 (active_rx rx)")
      case True
      then obtain rx1 where "(rx', res) = finalize rx1" "closing P r rx1"
        using e receive_ack_request_genuine(1) [of P r "active_rx rx"] ac P by auto
      then show ?thesis using fin [of rx1] resp by (metis fst_conv snd_conv)
    next
      case False
      let ?w = "next_window (active_rx rx)"
      obtain rx1 b where 1: "(rx', res) = respond rx1 (ack_new r (of_nat ?w) b False)" "awaiting P r rx1" "ack_reports P rx1 ?w b"
        using e receive_ack_request_genuine(2) [of P r "active_rx rx"] ac P False by metis
      have "unat (fx_attempts rx1) < 4"
        using 1(1) resp by (auto simp: respond_result receiver_abort_def rr_default_def split: if_splits)
      then show ?thesis using respond_repair [OF 1(2,3)] 1(1) by auto
    qed
  next
    case sender_abort
    then show ?thesis using f resp receive_bytes_abort [OF P(3), of rx] by (auto simp: rx_feed_def rr_default_def)
  qed
qed

lemma delivered_answer:
  assumes s: "sender_of P r s" "fs_status s = SsActive" and d: "delivers P r rx res"
  shows "answer s res = Some (s\<lparr>fs_status := SsSucceeded, fs_retransmit_at_ms := None\<rparr>, SoSuccess)"
proof -
  have P: "P \<noteq> []" "length P \<le> MAX_PACKET_SIZE" "check_rule r = Inr ()" "fs_rule_id s = r" using s by (auto simp: sender_of_def)
  let ?a = "ack_new r (of_nat (fin_window P)) 0 True"
  note fw = final_window_of [OF s(1)]
  have a: "ack_rule_id ?a = r" "ack_window ?a = final_window s" "ack_bitmap ?a = 0" "ack_complete ?a" by (simp_all add: ack_new_def fw)
  have ok: "ack_ok ?a" using P(3) fw(2) a by (simp add: ack_ok_def)
  have l: "length (ack_wire ?a) = 2" using ack_wire_header(4) [OF ok] a by simp
  then have ne: "ack_wire ?a \<noteq> []" "ack_wire ?a \<noteq> [r, 0xff, 0xff]" by auto
  then have hd: "hd (ack_wire ?a) = r" using ack_wire_header(1) [OF ok] a(1) by (simp add: hd_conv_nth)
  have wr: "receiver_response_write_to (RespAck ?a) (replicate 10 0) = Inr (splice (replicate 10 0) 0 (ack_wire ?a), length (ack_wire ?a))"
    using ack_write_to_valid [OF ok] l by (simp add: receiver_response_write_to_def)
  have f: "ack_from_bytes (ack_wire ?a) = Inr ?a" using ok by (simp add: ack_from_bytes_iff)
  have "handle_ack_bytes_inner s (ack_wire ?a) = Inr (s\<lparr>fs_status := SsSucceeded, fs_retransmit_at_ms := None\<rparr>, SoSuccess)"
    unfolding handle_ack_bytes_inner_def P(4) control_bytes_ok(2) [OF P(3)] using s(2) ne hd f a P(4)
    by (simp add: handle_ack_inner_def)
  then show ?thesis
    using d unfolding answer_def delivers_def by (simp add: wr take_splice_0 del: take_append)
qed

section \<open>The protocol's properties\<close>

text \<open>
  C13. Reassembly is sound whatever the radio does: fed any sequence of messages the sender
  writes (its fragments in any order, repeated or lost, ACK requests, its abort), a receiver
  whose limit admits the packet rejects none of them as malformed, and the packet it holds at
  any time is the sender's packet, or a strictly shorter one with the same integrity check.
\<close>

theorem schc_reassembly_sound:
  assumes "sender_new P r lim = Inr s" and "receiver_with_limit st lim' = Inr rx" and "length P \<le> lim'"
    and "\<forall>d\<in>set ds. genuine s d" and "srun rx_feed ds rx = (rx', rs)"
  shows "(\<forall>x\<in>set rs. \<not> isl x) \<and>
    (\<forall>Q. receiver_packet rx' = Some Q \<longrightarrow> Q = P \<or> length Q < length P \<and> compute_mic Q = compute_mic P)"
proof -
  have "rx_inv P r rx'" "\<forall>x\<in>set rs. \<not> isl x"
    using history_inv [OF receiver_starts(1) [OF assms(2,3)] _ assms(4), of r] sender_new_of [OF assms(1)] assms(5) by auto
  then show ?thesis
    by (auto simp: receiver_packet_def rx_inv_def faithful_def)
qed

lemma srun_last:
  "srun step ds s = (s', rs) \<Longrightarrow> rs \<noteq> [] \<Longrightarrow>
     \<exists>ds0 d s0. ds = ds0 @ [d] \<and> s0 = fst (srun step ds0 s) \<and> step s0 d = (s', last rs)"
proof (induction ds arbitrary: s rs)
  case (Cons d ds)
  obtain s1 r1 where 1: "step s d = (s1, r1)" by (cases "step s d")
  obtain rs' where 2: "srun step ds s1 = (s', rs')" "rs = r1 # rs'" using Cons.prems 1 by (auto split: prod.splits)
  show ?case
  proof (cases rs')
    case Nil
    then have "ds = []" using 2(1) by (cases ds) (auto split: prod.splits)
    then show ?thesis using 1 2 Nil by (intro exI [of _ "[]"]) auto
  next
    case (Cons x xs)
    then obtain ds0 d0 where "ds = ds0 @ [d0]" "step (fst (srun step ds0 s1)) d0 = (s', last rs')"
      using Cons.IH [OF 2(1)] by auto
    then show ?thesis using 1 2 Cons by (intro exI [of _ "d # ds0"]) (auto split: prod.splits)
  qed
qed simp

text \<open>What can reach an active sender: acknowledgement bytes from the radio and its retransmission timer.\<close>

datatype sender_event = EvAckBytes bytes | EvTimeout

definition sender_step :: "fragment_sender \<Rightarrow> sender_event \<Rightarrow> fragment_sender \<times> sender_output" where
  "sender_step s e =
     (case (case e of EvAckBytes data \<Rightarrow> handle_ack_bytes_inner s data | EvTimeout \<Rightarrow> timeout_inner s) of
        Inl _ \<Rightarrow> (s, SoNone) | Inr r \<Rightarrow> r)"

definition transmits :: "sender_output \<Rightarrow> bool" where
  "transmits output = (case output of SoRetransmit _ _ _ _ \<Rightarrow> True | SoAckRequest _ \<Rightarrow> True | _ \<Rightarrow> False)"

definition budget_ok :: "nat \<Rightarrow> nat \<Rightarrow> fragment_sender \<Rightarrow> bool" where
  "budget_ok t k s \<longleftrightarrow> fs_status s \<noteq> SsReady \<and> k \<le> 3 \<and>
     (fs_status s = SsActive \<longrightarrow> unat (fs_attempts s) = 1 + k \<and> t \<le> k)"

lemma handle_ack_inner_step:
  "fs_status s = SsActive \<Longrightarrow> handle_ack_inner s a = (s', output) \<Longrightarrow>
     s' = s \<and> \<not> transmits output \<or> fs_status s' \<in> {SsSucceeded, SsAborted} \<and> \<not> transmits output \<or>
     unat (fs_attempts s) < 4 \<and> s' = s\<lparr>fs_attempts := fs_attempts s + 1\<rparr> \<and> transmits output"
  unfolding handle_ack_inner_def abort_output_def transmits_def MAX_ACK_REQUESTS_def Let_def
  by (auto split: if_splits)

lemma ack_bytes_cases:
  assumes "sender_step s (EvAckBytes data) = (s', output)"
  shows "s' = s \<and> output = SoNone \<or> s' = s\<lparr>fs_status := SsAborted, fs_retransmit_at_ms := None\<rparr> \<and> output = SoNone \<or>
    (\<exists>a. handle_ack_inner s a = (s', output))"
proof -
  have "(case handle_ack_bytes_inner s data of Inl _ \<Rightarrow> (s, SoNone) | Inr r \<Rightarrow> r) = (s', output)"
    using assms by (simp add: sender_step_def)
  then show ?thesis
    unfolding handle_ack_bytes_inner_def
    by (cases "control_bytes (CtlReceiverAbort (fs_rule_id s))"; cases "ack_from_bytes data";
        cases "ack_from_bytes_for data (Some (assigned_bitmap_inner s (ack_window (projr (ack_from_bytes data)))))")
       (auto split: if_splits)
qed

lemma sender_step_cases:
  assumes "fs_status s = SsActive" and "sender_step s e = (s', output)"
  shows "s' = s \<and> \<not> transmits output \<and> e \<noteq> EvTimeout \<or> fs_status s' \<in> {SsSucceeded, SsAborted} \<and> \<not> transmits output \<or>
     unat (fs_attempts s) < 4 \<and> s' = s\<lparr>fs_attempts := fs_attempts s + 1\<rparr> \<and> transmits output"
proof (cases e)
  case EvTimeout
  then show ?thesis
    using assms unfolding sender_step_def timeout_inner_def abort_output_def transmits_def MAX_ACK_REQUESTS_def
    by (auto split: if_splits)
next
  case (EvAckBytes data)
  then show ?thesis
    using ack_bytes_cases [of s data s' "output"] handle_ack_inner_step [OF assms(1)] assms(2) by (auto simp: transmits_def)
qed

lemma sender_step_ends:
  assumes "fs_status s = SsActive" and "sender_step s e = (s', output)"
  shows "fs_payload s' = fs_payload s \<and> fs_rule_id s' = fs_rule_id s \<and> fs_count s' = fs_count s \<and> fs_mic s' = fs_mic s"
proof (cases e)
  case EvTimeout
  then show ?thesis
    using assms unfolding sender_step_def timeout_inner_def abort_output_def by (auto split: if_splits)
next
  case (EvAckBytes data)
  have "fs_payload s' = fs_payload s \<and> fs_rule_id s' = fs_rule_id s \<and> fs_count s' = fs_count s \<and> fs_mic s' = fs_mic s"
    if "handle_ack_inner s a = (s', output)" for a
    using that by (auto simp: handle_ack_inner_def abort_output_def Let_def split: if_splits)
  then show ?thesis using ack_bytes_cases [of s data s' "output"] assms(2) EvAckBytes by auto
qed

lemma sender_step_done:
  "fs_status s \<noteq> SsActive \<Longrightarrow> sender_step s e = (s, SoNone)"
  unfolding sender_step_def handle_ack_bytes_inner_def timeout_inner_def by (simp split: sender_event.split)

text \<open>No event changes what the sender transmits.\<close>

lemma sender_step_same:
  assumes "sender_step s e = (s', output)"
  shows "fs_payload s' = fs_payload s \<and> fs_rule_id s' = fs_rule_id s \<and> fs_count s' = fs_count s \<and> fs_mic s' = fs_mic s"
proof (cases "fs_status s = SsActive")
  case True
  then show ?thesis using assms by (rule sender_step_ends)
next
  case False
  then show ?thesis using sender_step_done [OF False, of e] assms by simp
qed

lemma budget_step:
  assumes b: "budget_ok t k s" and st: "sender_step s e = (s', output)"
  shows "budget_ok (t + (if e = EvTimeout then 1 else 0)) (k + (if transmits output then 1 else 0)) s'"
proof (cases "fs_status s = SsActive")
  case False
  then show ?thesis using sender_step_done [OF False, of e] st b by (auto simp: budget_ok_def transmits_def)
next
  case True
  then show ?thesis
    using sender_step_cases [OF True st] b unfolding budget_ok_def by (auto simp: unat_word_ariths)
qed

lemma budget_run:
  "budget_ok t k s \<Longrightarrow> srun sender_step es s = (s', outs) \<Longrightarrow>
     budget_ok (t + length (filter (\<lambda>e. e = EvTimeout) es)) (k + length (filter transmits outs)) s'"
proof (induction es arbitrary: t k s outs)
  case (Cons e es)
  obtain s1 o1 where 1: "sender_step s e = (s1, o1)" by (cases "sender_step s e")
  obtain os where 2: "srun sender_step es s1 = (s', os)" "outs = o1 # os" using Cons.prems 1 by (auto split: prod.splits)
  show ?case using Cons.IH [OF budget_step [OF Cons.prems(1) 1] 2(1)] 2(2) by (auto split: if_splits)
qed simp

lemma sender_run_of:
  "sender_of P r s \<Longrightarrow> srun sender_step es s = (s', outs) \<Longrightarrow> sender_of P r s'"
proof (induction es arbitrary: s outs)
  case (Cons e es)
  obtain s1 o1 where 1: "sender_step s e = (s1, o1)" by (cases "sender_step s e")
  have "sender_of P r s1" using sender_step_same [OF 1] Cons.prems(1) by (simp add: sender_of_def)
  then show ?case using Cons.IH Cons.prems(2) 1 by (auto split: prod.splits)
qed simp

text \<open>
  C14. Lost tiles are repaired. Let the receiver have seen any genuine messages, the last of which
  it answered with an acknowledgement that asks for tiles, and let the sender, after any
  acknowledgements and timeouts of its own, still be active, with at most two attempts used at
  either end of the four each is allowed. Then at most two loss-free rounds (acknowledgement,
  retransmission of what it reports missing, ACK request) give the receiver the sender's packet,
  or a strictly shorter one with the same integrity check, and the sender takes the closing
  acknowledgement as success.
\<close>

theorem schc_repair_completes:
  assumes "sender_new P r lim = Inr s0" and "start_inner s0 = Inr sa"
    and "srun sender_step ses sa = (s, outs)" and "fs_status s = SsActive" and "unat (fs_attempts s) \<le> 2"
    and "receiver_with_limit st lim' = Inr rx0" and "length P \<le> lim'"
    and "\<forall>d\<in>set ds. genuine sa d" and "srun rx_feed ds rx0 = (rx, rs)" and "rs \<noteq> []" and "last rs = Inr res"
    and "rr_response res = Some (RespAck a)" and "rr_packet_len res = None" and "unat (fx_attempts rx) \<le> 2"
  shows "\<exists>s1 rx1 res1 Q. repair_round s rx res = Some (s1, rx1, res1) \<and>
    (Q = P \<or> length Q < length P \<and> compute_mic Q = compute_mic P) \<and>
    (receiver_packet rx1 = Some Q \<and> map_option snd (answer s1 res1) = Some SoSuccess \<or>
     (\<exists>s2 rx2 res2. repair_round s1 rx1 res1 = Some (s2, rx2, res2) \<and>
        receiver_packet rx2 = Some Q \<and> map_option snd (answer s2 res2) = Some SoSuccess))"
proof -
  have sa: "sender_of P r sa"
    using sender_new_of [OF assms(1)] assms(2) by (auto simp: start_inner_def sender_of_def split: if_splits)
  have s: "sender_of P r s" "fs_status s = SsActive" "unat (fs_attempts s) \<le> 2"
    using sender_run_of [OF sa assms(3)] assms(4,5) by simp_all
  obtain ds0 d where d: "ds = ds0 @ [d]" "rx_feed (fst (srun rx_feed ds0 rx0)) d = (rx, Inr res)"
    using srun_last [OF assms(9,10)] assms(11) by auto
  have "rx_inv P r (fst (srun rx_feed ds0 rx0))"
    using history_inv [OF receiver_starts(1) [OF assms(6,7)] sa, of ds0] assms(8) d by simp
  then obtain w where w: "asks_repair P r rx res w"
    using feed_response [OF _ sa _ d(2) assms(12,13)] assms(8) d(1) by auto
  have fd: "\<exists>Q. receiver_packet y = Some Q \<and> (Q = P \<or> length Q < length P \<and> compute_mic Q = compute_mic P)" if "delivers P r y z" for y z
    using that by (auto simp: delivers_def rx_inv_def faithful_def receiver_packet_def)
  let ?s1 = "s\<lparr>fs_attempts := fs_attempts s + 1\<rparr>"
  obtain rx1 res1 where 1: "repair_round s rx res = Some (?s1, rx1, res1)" "repaired P r w (fx_attempts rx) rx1 res1"
    using repair_round_step [OF s(1,2) _ w] s(3) assms(14) by auto
  have s1: "sender_of P r ?s1" "fs_status ?s1 = SsActive" "unat (fs_attempts ?s1) < 4"
    using s by (simp_all add: sender_of_upd unat_word_ariths)
  from 1(2) consider "delivers P r rx1 res1" | "asks_repair P r rx1 res1 (fin_window P)" "fx_attempts rx1 = fx_attempts rx + 1"
    unfolding repaired_def by blast
  then show ?thesis
  proof cases
    case 1
    then show ?thesis using fd delivered_answer [OF s1(1,2)] \<open>repair_round s rx res = _\<close> by fastforce
  next
    case 2
    have "unat (fx_attempts rx + 1) < 4" using assms(14) by (simp add: unat_word_ariths)
    then obtain rx2 res2 where 3: "repair_round ?s1 rx1 res1 = Some (?s1\<lparr>fs_attempts := fs_attempts ?s1 + 1\<rparr>, rx2, res2)"
        "repaired P r (fin_window P) (fx_attempts rx1) rx2 res2"
      using repair_round_step [OF s1 2(1)] 2(2) by auto
    then have "delivers P r rx2 res2" by (auto simp: repaired_def)
    then show ?thesis
      using fd delivered_answer [of P r "?s1\<lparr>fs_attempts := fs_attempts ?s1 + 1\<rparr>"] s1 1(1) 3(1) by (fastforce simp: sender_of_upd)
  qed
qed

text \<open>
  C15. A sending session always ends: whatever acknowledgement bytes arrive and whenever the
  timer fires, a started sender transmits again at most three times, and once its timer has
  fired four times it has succeeded or aborted.
\<close>

theorem schc_sender_terminates:
  assumes "start_inner s0 = Inr s" and "srun sender_step es s = (s', outs)"
  shows "length (filter transmits outs) \<le> 3 \<and>
    (length (filter (\<lambda>e. e = EvTimeout) es) \<ge> 4 \<longrightarrow> fs_status s' = SsSucceeded \<or> fs_status s' = SsAborted)"
proof -
  have "budget_ok 0 0 s" using assms(1) by (auto simp: start_inner_def budget_ok_def split: if_splits)
  then have b: "budget_ok (length (filter (\<lambda>e. e = EvTimeout) es)) (length (filter transmits outs)) s'"
    using budget_run [OF _ assms(2), of 0 0] by simp
  then show ?thesis by (cases "fs_status s'") (auto simp: budget_ok_def)
qed
section \<open>A small session\<close>

definition toy_sender :: fragment_sender where
  "toy_sender = \<lparr>fs_payload = [1, 2, 3], fs_rule_id = 0x78, fs_count = 1, fs_mic = compute_mic [1, 2, 3],
     fs_attempts = 1, fs_status = SsActive, fs_retransmit_at_ms = None\<rparr>"

definition toy_receiver :: fragment_receiver where
  "toy_receiver = \<lparr>fx_storage = replicate 16 0, fx_limit = 16, fx_rule_id = None, fx_bitmaps = [0, 0],
     fx_all1 = False, fx_all1_window = 0, fx_all1_mic = replicate 4 0, fx_final_tile = replicate 179 0,
     fx_final_len = 0, fx_attempts = 0, fx_done = False, fx_packet_len = None\<rparr>"

lemma toy_sender_new:
  "sender_new [1, 2, 3] 0x78 100 = Inr (toy_sender\<lparr>fs_status := SsReady, fs_attempts := 0\<rparr>)"
  "start_inner (toy_sender\<lparr>fs_status := SsReady, fs_attempts := 0\<rparr>) = Inr toy_sender"
  unfolding sender_new_def toy_sender_def start_inner_def
  by (simp_all add: check_rule_def RULE_ID_A_TO_B_def MAX_PACKET_SIZE_def div_ceil_def tile_size)

lemma toy_receiver_new: "receiver_with_limit (replicate 16 0) 16 = Inr toy_receiver"
  unfolding receiver_with_limit_def receiver_new_def toy_receiver_def
  by (simp add: MAX_PACKET_SIZE_def MIC_LENGTH_def tile_size)

lemma toy_request:
  "genuine (toy_sender\<lparr>fs_status := st, fs_attempts := n\<rparr>) [0x78, 0]"
  unfolding genuine_def using control_bytes_ok(3) [of "0x78" 0]
  by (auto simp: toy_sender_def check_rule_def RULE_ID_A_TO_B_def intro!: exI [of _ 0])

lemma toy_answer:
  "rx_feed toy_receiver [0x78, 0] =
    (toy_receiver\<lparr>fx_rule_id := Some 0x78, fx_attempts := 1\<rparr>, Inr (rr_default\<lparr>rr_response := Some (RespAck (ack_new 0x78 0 0 False))\<rparr>))"
  using receive_bytes_ack_request [of "0x78" 0 toy_receiver]
  by (simp add: rx_feed_def check_rule_def RULE_ID_A_TO_B_def receive_ack_request_def bind_rule_def active_rx_def
      toy_receiver_def respond_result rr_default_def BITMAP_MASK_def WINDOW_SIZE_def)

lemma genuine_frag:
  assumes "sender_of P r s" and "i < tiles P" shows "genuine s (fragment_wire (frag P r i))"
proof -
  note ok = frag_ok [OF assms]
  have "fragment_write_to (frag P r i) (replicate MAX_FRAGMENT_WIRE_SIZE 0) =
      Inr (splice (replicate MAX_FRAGMENT_WIRE_SIZE 0) 0 (fragment_wire (frag P r i)), length (fragment_wire (frag P r i)))"
    using fragment_wire_fits [OF ok] by (simp add: fragment_write_to_valid [OF ok])
  moreover have "take (length (fragment_wire (frag P r i))) (splice (replicate MAX_FRAGMENT_WIRE_SIZE 0) 0 (fragment_wire (frag P r i))) =
      fragment_wire (frag P r i)" by (rule take_splice_0)
  ultimately show ?thesis unfolding genuine_def using get_fragment_frag [OF assms(1), of i] assms(2) by metis
qed

lemma toy_tiles: "tiles [1, 2, 3 :: u8] = 1" "fin_window [1, 2, 3] = 0"
  by (simp_all add: tiles_def fin_window_def div_ceil_def tile_size)

lemma toy_delivered:
  "\<exists>rx' res. rx_feed (toy_receiver\<lparr>fx_rule_id := Some 0x78, fx_attempts := 1\<rparr>) (fragment_wire (frag [1, 2, 3] 0x78 0)) = (rx', Inr res) \<and>
     receiver_packet rx' = Some [1, 2, 3]"
proof -
  let ?rx = "toy_receiver\<lparr>fx_rule_id := Some 0x78, fx_attempts := 1\<rparr>" and ?P = "[1, 2, 3]"
  have s: "sender_of ?P 0x78 (toy_sender\<lparr>fs_status := SsReady, fs_attempts := 0\<rparr>)" using sender_new_of [OF toy_sender_new(1)] by blast
  have "rx_inv ?P 0x78 toy_receiver" using receiver_starts(1) [OF toy_receiver_new] by simp
  then have "rx_inv ?P 0x78 ?rx" using feed_genuine [OF _ s toy_request] toy_answer by force
  then have "awaiting ?P 0x78 ?rx" by (simp add: awaiting_def toy_receiver_def)
  then show ?thesis using last_message(1) [OF _ _ s, of ?rx 0] toy_tiles by (auto simp: repaired_def)
qed

theorem schc_reassembly_sound_witness:
  "\<exists>rx' rs. srun rx_feed [[0x78, 0], fragment_wire (frag [1, 2, 3] 0x78 0)] toy_receiver = (rx', rs) \<and> (\<forall>x\<in>set rs. \<not> isl x) \<and>
     (\<exists>Q. receiver_packet rx' = Some Q \<and> (Q = [1, 2, 3] \<or> length Q < length [1, 2, 3 :: u8] \<and> compute_mic Q = compute_mic [1, 2, 3]))"
proof -
  let ?ds = "[[0x78, 0], fragment_wire (frag [1, 2, 3] 0x78 0)]"
  have g: "\<forall>d\<in>set ?ds. genuine (toy_sender\<lparr>fs_status := SsReady, fs_attempts := 0\<rparr>) d"
    using toy_request genuine_frag [of _ _ _ 0] sender_new_of [OF toy_sender_new(1)] toy_tiles by simp
  obtain rx' rs where r: "srun rx_feed ?ds toy_receiver = (rx', rs)" "receiver_packet rx' = Some [1, 2, 3]"
    using toy_answer toy_delivered by auto
  have l: "length [1, 2, 3 :: u8] \<le> 16" by simp
  note sound = schc_reassembly_sound [OF toy_sender_new(1) toy_receiver_new l g r(1)]
  show ?thesis using r sound by blast
qed

theorem schc_repair_completes_witness:
  "\<exists>s s1 rx1 res1 Q. srun sender_step [EvTimeout] toy_sender = (s, [SoAckRequest False]) \<and>
    repair_round s (toy_receiver\<lparr>fx_rule_id := Some 0x78, fx_attempts := 1\<rparr>)
       (rr_default\<lparr>rr_response := Some (RespAck (ack_new 0x78 0 0 False))\<rparr>) = Some (s1, rx1, res1) \<and>
    (Q = [1, 2, 3] \<or> length Q < length [1, 2, 3 :: u8] \<and> compute_mic Q = compute_mic [1, 2, 3]) \<and>
    (receiver_packet rx1 = Some Q \<and> map_option snd (answer s1 res1) = Some SoSuccess \<or>
     (\<exists>s2 rx2 res2. repair_round s1 rx1 res1 = Some (s2, rx2, res2) \<and>
        receiver_packet rx2 = Some Q \<and> map_option snd (answer s2 res2) = Some SoSuccess))"
proof -
  let ?s = "toy_sender\<lparr>fs_attempts := 2\<rparr>"
  have run: "srun sender_step [EvTimeout] toy_sender = (?s, [SoAckRequest False])"
    by (simp add: sender_step_def timeout_inner_def toy_sender_def MAX_ACK_REQUESTS_def)
  have act: "fs_status ?s = SsActive" "unat (fs_attempts ?s) \<le> 2" by (simp_all add: toy_sender_def)
  have len: "length [1, 2, 3 :: u8] \<le> 16" by simp
  have gen: "\<forall>d\<in>set [[0x78, 0]]. genuine toy_sender d" using toy_request [of 1 SsActive] by (simp add: toy_sender_def)
  have feed: "srun rx_feed [[0x78, 0]] toy_receiver = (toy_receiver\<lparr>fx_rule_id := Some 0x78, fx_attempts := 1\<rparr>,
      [Inr (rr_default\<lparr>rr_response := Some (RespAck (ack_new 0x78 0 0 False))\<rparr>)])"
    using toy_answer by simp
  show ?thesis
    using schc_repair_completes [OF toy_sender_new run act toy_receiver_new len gen feed] run
    by (simp add: rr_default_def)
qed

theorem schc_sender_terminates_witness:
  "\<exists>s' outs. srun sender_step [EvTimeout, EvAckBytes [1], EvTimeout, EvTimeout, EvTimeout] toy_sender = (s', outs) \<and>
     length (filter transmits outs) \<le> 3 \<and> (fs_status s' = SsSucceeded \<or> fs_status s' = SsAborted)"
proof -
  obtain s' outs where "srun sender_step [EvTimeout, EvAckBytes [1], EvTimeout, EvTimeout, EvTimeout] toy_sender = (s', outs)"
    by fastforce
  then show ?thesis using schc_sender_terminates [OF toy_sender_new(2)] by fastforce
qed

end
