(* ===== verification/Slip.thy ===== *)
theory Slip
  imports LichenPrelude
begin

text \<open>
  RFC 1055 SLIP framing of the serial link (\<open>lichen-kiss/src/slip.rs\<close>): escaping into a caller's
  buffer, and the two-pass decoder that measures a frame before it writes anything. The decoder
  is shown to invert the encoder on exactly the well-formed frames, and each of its errors is
  characterised by the frames that cause it.
\<close>

definition END :: u8 where "END = 0xC0"
definition ESC :: u8 where "ESC = 0xDB"
definition ESC_END :: u8 where "ESC_END = 0xDC"
definition ESC_ESC :: u8 where "ESC_ESC = 0xDD"

datatype slip_error =
    SlipLengthOverflow
  | SlipBufferTooSmall nat
  | SlipFrameTooShort
  | SlipMissingStart
  | SlipMissingEnd
  | SlipUnexpectedEnd
  | SlipTruncatedEscape
  | SlipInvalidEscape u8

definition encoded_len :: "bytes \<Rightarrow> slip_error + nat" where
  "encoded_len data =
     (let escaped_bytes = length (filter (\<lambda>byte. byte = END \<or> byte = ESC) data) in
      case Option.bind (usize_checked_add (length data) escaped_bytes)
             (\<lambda>len. usize_checked_add len 2) of
        None \<Rightarrow> Inl SlipLengthOverflow
      | Some len \<Rightarrow> Inr len)"

text \<open>
  One round of the escaping loop, on the buffer and the write position. An index outside the
  buffer panics: \<open>None\<close>, here and in the functions below.
\<close>

definition slip_put :: "bytes \<times> nat \<Rightarrow> u8 \<Rightarrow> (bytes \<times> nat) option" where
  "slip_put s byte =
     (case s of (out, pos) \<Rightarrow>
        if byte = END then
          (if pos + 1 < length out then Some (out[pos := ESC, pos + 1 := ESC_END], pos + 2) else None)
        else if byte = ESC then
          (if pos + 1 < length out then Some (out[pos := ESC, pos + 1 := ESC_ESC], pos + 2) else None)
        else if pos < length out then Some (out[pos := byte], pos + 1) else None)"

definition slip_encode :: "bytes \<Rightarrow> bytes \<Rightarrow> (slip_error + (bytes \<times> nat)) option" where
  "slip_encode data out =
     (case encoded_len data of
        Inl e \<Rightarrow> Some (Inl e)
      | Inr needed \<Rightarrow>
          if length out < needed then Some (Inl (SlipBufferTooSmall needed))
          else if length out = 0 then None
          else Option.bind (orun slip_put data (out[0 := END], 1)) (\<lambda>(out, pos).
            if pos < length out \<and> pos + 1 = needed then Some (Inr (out[pos := END], needed)) else None))"

text \<open>The measuring loop, on what is left of the payload and the length so far.\<close>

fun decoded_loop :: "bytes \<Rightarrow> nat \<Rightarrow> slip_error + nat" where
  "decoded_loop [] len = Inr len"
| "decoded_loop (byte # rest) len =
     (if byte = END then Inl SlipUnexpectedEnd
      else if byte = ESC then
        (case rest of
           [] \<Rightarrow> Inl SlipTruncatedEscape
         | escaped # rest \<Rightarrow>
             if escaped \<noteq> ESC_END \<and> escaped \<noteq> ESC_ESC then Inl (SlipInvalidEscape escaped)
             else decoded_loop rest (len + 1))
      else decoded_loop rest (len + 1))"

definition decoded_len :: "bytes \<Rightarrow> slip_error + nat" where
  "decoded_len payload = decoded_loop payload 0"

text \<open>The writing loop; it runs on a payload the measuring loop has accepted.\<close>

fun slip_write :: "bytes \<Rightarrow> bytes \<times> nat \<Rightarrow> (bytes \<times> nat) option" where
  "slip_write [] s = Some s"
| "slip_write (byte # rest) (out, pos) =
     (if byte = ESC then
        (case rest of
           [] \<Rightarrow> None
         | escaped # rest \<Rightarrow>
             if pos < length out
             then slip_write rest (out[pos := (if escaped = ESC_END then END else ESC)], pos + 1)
             else None)
      else if pos < length out then slip_write rest (out[pos := byte], pos + 1)
      else None)"

definition slip_decode :: "bytes \<Rightarrow> bytes \<Rightarrow> (slip_error + (bytes \<times> nat)) option" where
  "slip_decode frame out =
     (if length frame < 2 then Some (Inl SlipFrameTooShort)
      else if frame ! 0 \<noteq> END then Some (Inl SlipMissingStart)
      else if frame ! (length frame - 1) \<noteq> END then Some (Inl SlipMissingEnd)
      else
        let payload = slice 1 (length frame - 1) frame in
        case decoded_len payload of
          Inl e \<Rightarrow> Some (Inl e)
        | Inr needed \<Rightarrow>
            if length out < needed then Some (Inl (SlipBufferTooSmall needed))
            else Option.bind (slip_write payload (out, 0)) (\<lambda>(out, pos).
              if pos = needed then Some (Inr (out, needed)) else None))"

section \<open>The escaped text\<close>

text \<open>The specification: every delimiter and escape byte is replaced by its two-byte escape.\<close>

definition esc_byte :: "u8 \<Rightarrow> bytes" where
  "esc_byte b = (if b = END then [ESC, ESC_END] else if b = ESC then [ESC, ESC_ESC] else [b])"

definition escape :: "bytes \<Rightarrow> bytes" where
  "escape data = concat (map esc_byte data)"

definition slip_wire :: "bytes \<Rightarrow> bytes" where
  "slip_wire data = END # escape data @ [END]"

lemmas slip_bytes = END_def ESC_def ESC_END_def ESC_ESC_def

lemma slip_bytes_distinct [simp]:
  "END \<noteq> ESC" "ESC \<noteq> END" "ESC_END \<noteq> ESC_ESC" "ESC_ESC \<noteq> ESC_END"
  by (simp_all add: slip_bytes)

lemma escape_simps [simp]:
  "escape [] = []" "escape (b # bs) = esc_byte b @ escape bs" "escape (as @ bs) = escape as @ escape bs"
  by (simp_all add: escape_def)

lemma length_escape:
  "length (escape data) = length data + length (filter (\<lambda>byte. byte = END \<or> byte = ESC) data)"
  by (induction data) (auto simp: esc_byte_def)

lemma encoded_len_iff:
  "encoded_len data = (if length (slip_wire data) < 2 ^ 64 then Inr (length (slip_wire data)) else Inl SlipLengthOverflow)"
  by (auto simp: encoded_len_def Let_def slip_wire_def length_escape usize_checked_add_def split: bind_split)

lemma slip_put_esc:
  assumes "pos + length (esc_byte b) \<le> length out"
  shows "slip_put (out, pos) b = Some (splice out pos (esc_byte b), pos + length (esc_byte b))"
proof -
  have "out[pos := x] = splice out pos [x]" if "pos < length out" for x pos and out :: bytes
    using that by (simp add: splice_def upd_conv_take_nth_drop)
  then show ?thesis
    using assms by (cases "b = END"; cases "b = ESC"; simp add: slip_put_def esc_byte_def splice_def)
qed

lemma orun_slip_put:
  "pre = length wr \<Longrightarrow> pre + length (escape data) \<le> length out \<Longrightarrow>
   orun slip_put data (splice out 0 wr, pre) = Some (splice out 0 (wr @ escape data), pre + length (escape data))"
proof (induction data arbitrary: wr pre)
  case (Cons b data)
  have l: "length (splice out 0 wr) = length out" using Cons.prems by simp
  have "slip_put (splice out 0 wr, pre) b = Some (splice out 0 (wr @ esc_byte b), pre + length (esc_byte b))"
    using Cons.prems l by (subst slip_put_esc) (auto simp: splice_splice)
  then show ?case using Cons.IH [of "pre + length (esc_byte b)" "wr @ esc_byte b"] Cons.prems by (simp add: add.assoc)
qed simp

lemma slip_encode_wire:
  assumes "length (slip_wire data) < 2 ^ 64"
  shows "slip_encode data out =
    Some (if length out < length (slip_wire data) then Inl (SlipBufferTooSmall (length (slip_wire data)))
     else Inr (splice out 0 (slip_wire data), length (slip_wire data)))"
proof (cases "length out < length (slip_wire data)")
  case True
  then show ?thesis using assms by (simp add: slip_encode_def encoded_len_iff)
next
  case False
  then have l: "1 + length (escape data) + 1 \<le> length out" by (simp add: slip_wire_def)
  then have "out[0 := END] = splice out 0 [END]" by (intro update_0_splice) auto
  then have f: "orun slip_put data (out[0 := END], 1) = Some (splice out 0 ([END] @ escape data), 1 + length (escape data))"
    using orun_slip_put [of 1 "[END]" data out] l by simp
  have "(splice out 0 ([END] @ escape data))[1 + length (escape data) := END] = splice out 0 (slip_wire data)"
    using l by (subst update_splice) (auto simp: slip_wire_def)
  then show ?thesis
    using False assms f l by (auto simp: slip_encode_def encoded_len_iff slip_wire_def)
qed

section \<open>Decoding\<close>

text \<open>A payload is read from the front; \<open>slip_stuck\<close> says how the rest of a payload stops the reader.\<close>

fun slip_stuck :: "bytes \<Rightarrow> slip_error option" where
  "slip_stuck [] = None"
| "slip_stuck (b # rest) =
     (if b = END then Some SlipUnexpectedEnd
      else if b = ESC \<and> rest = [] then Some SlipTruncatedEscape
      else if b = ESC \<and> hd rest \<noteq> ESC_END \<and> hd rest \<noteq> ESC_ESC then Some (SlipInvalidEscape (hd rest))
      else None)"

lemma decoded_loop_escape: "decoded_loop (escape data @ rest) n = decoded_loop rest (n + length data)"
  by (induction data arbitrary: n) (auto simp: esc_byte_def)

lemma payload_split: "\<exists>data rest. payload = escape data @ rest \<and> (rest = [] \<or> slip_stuck rest \<noteq> None)"
proof (induction payload rule: length_induct)
  case (1 payload)
  show ?case
  proof (cases "payload = [] \<or> slip_stuck payload \<noteq> None")
    case True
    then show ?thesis by (intro exI [of _ "[]"] exI [of _ payload]) auto
  next
    case False
    then obtain b rest where p: "payload = b # rest" "slip_stuck (b # rest) = None" by (cases payload) auto
    obtain c tail where c: "payload = esc_byte c @ tail" "length tail < length payload"
    proof (cases "b = ESC")
      case True
      then obtain e tail where r: "rest = e # tail" "e = ESC_END \<or> e = ESC_ESC"
        using p by (cases rest) (auto split: if_splits)
      show thesis
        by (rule that [of "if e = ESC_END then END else ESC" tail]) (use True r p in \<open>auto simp: esc_byte_def\<close>)
    next
      case nesc: False
      then show thesis
        using p by (intro that [of b rest]) (auto simp: esc_byte_def split: if_splits)
    qed
    obtain data rest' where "tail = escape data @ rest'" "rest' = [] \<or> slip_stuck rest' \<noteq> None"
      using 1 c(2) by blast
    then show ?thesis using c by (intro exI [of _ "c # data"] exI [of _ rest']) auto
  qed
qed

lemma decoded_loop_stuck: "slip_stuck rest = Some e \<Longrightarrow> decoded_loop rest n = Inl e"
  by (cases rest) (auto split: if_splits list.split)

lemma slip_write_escape:
  "pos + length data \<le> length out \<Longrightarrow> slip_write (escape data) (out, pos) = Some (splice out pos data, pos + length data)"
proof (induction data arbitrary: out pos)
  case Nil
  then show ?case by simp
next
  case (Cons b data)
  have e: "slip_write (escape (b # data)) (out, pos) = slip_write (escape data) (out[pos := b], pos + 1)"
    using Cons.prems by (auto simp: esc_byte_def)
  have "splice (out[pos := b]) (pos + 1) data = splice out pos (b # data)"
    using Cons.prems by (simp add: splice_def take_Suc_conv_app_nth nth_list_update)
  then show ?case using Cons.IH [of "pos + 1" "out[pos := b]"] Cons.prems unfolding e by simp
qed

text \<open>The whole decoder, by how the frame is built.\<close>

lemma slip_decode_payload:
  "slip_stuck rest = Some e \<Longrightarrow> slip_decode (END # escape data @ rest @ [END]) out = Some (Inl e)"
  "slip_decode (slip_wire data) out =
     Some (if length out < length data then Inl (SlipBufferTooSmall (length data))
           else Inr (splice out 0 data, length data))"
proof -
  have sl: "slice 1 (length (END # p @ [END]) - 1) (END # p @ [END]) = p" for p
    by (simp add: slice_def)
  have nth: "(END # p @ [END]) ! (length (END # p @ [END]) - 1) = END" for p
    by (simp add: nth_append)
  have red: "slip_decode (END # p @ [END]) out = (case decoded_len p of Inl e \<Rightarrow> Some (Inl e)
        | Inr needed \<Rightarrow> if length out < needed then Some (Inl (SlipBufferTooSmall needed))
            else Option.bind (slip_write p (out, 0)) (\<lambda>(out, pos). if pos = needed then Some (Inr (out, needed)) else None))" for p
    unfolding slip_decode_def sl nth Let_def by simp
  show "slip_stuck rest = Some e \<Longrightarrow> slip_decode (END # escape data @ rest @ [END]) out = Some (Inl e)"
    using red [of "escape data @ rest"] by (simp add: decoded_len_def decoded_loop_escape decoded_loop_stuck)
  have "decoded_len (escape data) = Inr (length data)"
    using decoded_loop_escape [of data "[]" 0] by (simp add: decoded_len_def)
  then show "slip_decode (slip_wire data) out =
     Some (if length out < length data then Inl (SlipBufferTooSmall (length data)) else Inr (splice out 0 data, length data))"
    unfolding slip_wire_def red by (auto simp: slip_write_escape)
qed

lemma frame_shape: "\<not> length frame < 2 \<Longrightarrow> frame ! 0 = END \<Longrightarrow> frame ! (length frame - 1) = END \<Longrightarrow> \<exists>p. frame = END # p @ [END]"
proof -
  assume a: "\<not> length frame < 2" "frame ! 0 = END" "frame ! (length frame - 1) = END"
  then obtain x y ys where f: "frame = x # y # ys" by (cases frame; cases "tl frame") auto
  then have "frame = x # butlast (y # ys) @ [last (y # ys)]" by (metis append_butlast_last_id list.distinct(1))
  moreover have "x = END" "last (y # ys) = END" using a f last_conv_nth [of "y # ys"] by (simp, simp del: last.simps)
  ultimately show ?thesis by metis
qed

text \<open>Every frame is refused at its ends, is stuck inside, or is the image of some data.\<close>

lemma slip_frame_cases:
  obtains (short) "length frame < 2"
  | (start) "\<not> length frame < 2" "frame ! 0 \<noteq> END"
  | (stop) "\<not> length frame < 2" "frame ! 0 = END" "frame ! (length frame - 1) \<noteq> END"
  | (stuck) data rest e where "frame = END # escape data @ rest @ [END]" "slip_stuck rest = Some e"
  | (wire) data where "frame = slip_wire data"
proof -
  consider "length frame < 2" | "\<not> length frame < 2" "frame ! 0 \<noteq> END"
    | "\<not> length frame < 2" "frame ! 0 = END" "frame ! (length frame - 1) \<noteq> END"
    | p where "frame = END # p @ [END]" using frame_shape [of frame] by blast
  then show thesis
  proof cases
    case (4 p)
    obtain data rest where "p = escape data @ rest" "rest = [] \<or> slip_stuck rest \<noteq> None" using payload_split by blast
    then show thesis using 4 stuck wire unfolding slip_wire_def by fastforce
  qed (use short start stop in blast)+
qed

section \<open>The codec's properties\<close>

lemma escape_head_not_stuck: "slip_stuck (escape (b # data) @ rest) = None"
  by (auto simp: esc_byte_def)

lemma esc_byte_inject: "esc_byte b @ xs = esc_byte c @ ys \<Longrightarrow> b = c \<and> xs = ys"
  by (auto simp: esc_byte_def split: if_splits)

text \<open>How a payload splits into escaped text and a stuck or empty rest is unique.\<close>

lemma payload_split_unique:
  "escape data @ rest = escape data' @ rest' \<Longrightarrow> rest = [] \<or> slip_stuck rest \<noteq> None \<Longrightarrow>
     rest' = [] \<or> slip_stuck rest' \<noteq> None \<Longrightarrow> data = data' \<and> rest = rest'"
proof (induction data arbitrary: data')
  case Nil
  then show ?case
    by (cases data') (use escape_head_not_stuck in \<open>auto simp: esc_byte_def split: if_splits\<close>)
next
  case (Cons b data)
  show ?case
  proof (cases data')
    case Nil
    then show ?thesis using Cons.prems escape_head_not_stuck [of b data rest] by (auto simp: esc_byte_def split: if_splits)
  next
    case (Cons c cs)
    then show ?thesis
      using esc_byte_inject [of b "escape data @ rest" c "escape cs @ rest'"] Cons.prems Cons.IH [of cs] by auto
  qed
qed

lemma slip_encode_full: "length (slip_wire data) < 2 ^ 64 \<Longrightarrow>
  slip_encode data (replicate k 0) = Some (Inr (frame, k)) \<longleftrightarrow> frame = slip_wire data \<and> k = length (slip_wire data)"
  by (auto simp: slip_encode_wire splice_def split: if_splits)

lemma slip_stuck_iff:
  "slip_stuck r = Some SlipUnexpectedEnd \<longleftrightarrow> (\<exists>rest. r = END # rest)"
  "slip_stuck r = Some SlipTruncatedEscape \<longleftrightarrow> r = [ESC]"
  "slip_stuck r = Some (SlipInvalidEscape b) \<longleftrightarrow> b \<notin> {ESC_END, ESC_ESC} \<and> (\<exists>rest. r = ESC # b # rest)"
  "slip_stuck r \<noteq> Some SlipFrameTooShort" "slip_stuck r \<noteq> Some SlipMissingStart"
  "slip_stuck r \<noteq> Some SlipMissingEnd" "slip_stuck r \<noteq> Some (SlipBufferTooSmall k)"
  by (cases r; cases "tl r"; auto)+

text \<open>A frame stops the decoder inside exactly when its payload has a stuck rest.\<close>

lemma slip_decode_stuck_iff:
  assumes "e \<notin> {SlipFrameTooShort, SlipMissingStart, SlipMissingEnd}" and "\<And>k. e \<noteq> SlipBufferTooSmall k"
  shows "slip_decode frame out = Some (Inl e) \<longleftrightarrow>
    (\<exists>data rest. frame = END # escape data @ rest @ [END] \<and> slip_stuck rest = Some e)"
proof
  assume "slip_decode frame out = Some (Inl e)"
  then show "\<exists>data rest. frame = END # escape data @ rest @ [END] \<and> slip_stuck rest = Some e"
  proof (cases frame rule: slip_frame_cases)
    case (stuck data rest e')
    then show ?thesis using \<open>slip_decode frame out = Some (Inl e)\<close> by (auto simp: slip_decode_payload)
  next
    case (wire data)
    then show ?thesis using \<open>slip_decode frame out = Some (Inl e)\<close> assms by (auto simp: slip_decode_payload split: if_splits)
  qed (use assms in \<open>auto simp: slip_decode_def\<close>)
qed (auto simp: slip_decode_payload)

lemma slip_framed:
  "frame = END # p @ [END] \<Longrightarrow> \<not> length frame < 2 \<and> frame ! 0 = END \<and> frame ! (length frame - 1) = END"
  by (simp add: nth_append)

lemma slip_wire_inject: "slip_wire d = slip_wire d' \<longleftrightarrow> d = d'"
  using payload_split_unique [of d "[]" d' "[]"] by (auto simp: slip_wire_def)

lemma slip_wire_not_stuck: "slip_stuck rest \<noteq> None \<Longrightarrow> END # escape data @ rest @ [END] \<noteq> slip_wire d"
  using payload_split_unique [of data rest d "[]"] by (auto simp: slip_wire_def)

lemma slip_decode_end_errors:
  "slip_decode frame out = Some (Inl SlipFrameTooShort) \<longleftrightarrow> length frame < 2"
  "slip_decode frame out = Some (Inl SlipMissingStart) \<longleftrightarrow> 2 \<le> length frame \<and> hd frame \<noteq> END"
  "slip_decode frame out = Some (Inl SlipMissingEnd) \<longleftrightarrow> 2 \<le> length frame \<and> hd frame = END \<and> last frame \<noteq> END"
  "slip_decode frame out = Some (Inl (SlipBufferTooSmall k)) \<longleftrightarrow>
     (\<exists>data. frame = slip_wire data \<and> k = length data \<and> length out < k)"
proof -
  have ends: "hd frame = frame ! 0" "last frame = frame ! (length frame - 1)" if "2 \<le> length frame"
    using that by (cases frame; simp add: hd_conv_nth last_conv_nth)+
  have "(slip_decode frame out = Some (Inl SlipFrameTooShort) \<longleftrightarrow> length frame < 2) \<and>
    (slip_decode frame out = Some (Inl SlipMissingStart) \<longleftrightarrow> 2 \<le> length frame \<and> frame ! 0 \<noteq> END) \<and>
    (slip_decode frame out = Some (Inl SlipMissingEnd) \<longleftrightarrow>
       2 \<le> length frame \<and> frame ! 0 = END \<and> frame ! (length frame - 1) \<noteq> END) \<and>
    (slip_decode frame out = Some (Inl (SlipBufferTooSmall k)) \<longleftrightarrow>
       (\<exists>data. frame = slip_wire data \<and> k = length data \<and> length out < k))"
  proof (cases frame rule: slip_frame_cases)
    case (stuck data rest e)
    have "slip_decode frame out = Some (Inl e)" using stuck by (simp add: slip_decode_payload)
    moreover have "frame \<noteq> slip_wire d" for d using stuck slip_wire_not_stuck [of rest data d] by simp
    moreover have "\<not> length frame < 2 \<and> frame ! 0 = END \<and> frame ! (length frame - 1) = END"
      using slip_framed [of frame "escape data @ rest"] stuck(1) by simp
    moreover have "e \<notin> {SlipFrameTooShort, SlipMissingStart, SlipMissingEnd, SlipBufferTooSmall k}"
      using stuck(2) slip_stuck_iff(4-7) [of rest] by auto
    ultimately show ?thesis by auto
  next
    case (wire data)
    have "slip_decode frame out = Some (if length out < length data then Inl (SlipBufferTooSmall (length data))
        else Inr (splice out 0 data, length data))" using wire by (simp add: slip_decode_payload)
    moreover have "frame = slip_wire d \<longleftrightarrow> data = d" for d using wire by (simp add: slip_wire_inject)
    moreover have "\<not> length frame < 2 \<and> frame ! 0 = END \<and> frame ! (length frame - 1) = END"
      using slip_framed [of frame "escape data"] wire by (simp add: slip_wire_def)
    ultimately show ?thesis by auto
  qed (use slip_framed [of frame] in \<open>auto simp: slip_decode_def slip_wire_def\<close>)
  then show "slip_decode frame out = Some (Inl SlipFrameTooShort) \<longleftrightarrow> length frame < 2"
    "slip_decode frame out = Some (Inl SlipMissingStart) \<longleftrightarrow> 2 \<le> length frame \<and> hd frame \<noteq> END"
    "slip_decode frame out = Some (Inl SlipMissingEnd) \<longleftrightarrow> 2 \<le> length frame \<and> hd frame = END \<and> last frame \<noteq> END"
    "slip_decode frame out = Some (Inl (SlipBufferTooSmall k)) \<longleftrightarrow>
       (\<exists>data. frame = slip_wire data \<and> k = length data \<and> length out < k)"
    using ends by auto
qed

text \<open>
  C19. The decoder inverts the encoder and accepts nothing else: a frame decodes to some data
  exactly when it is the frame \<open>encode\<close> writes for that data and the data fits the output
  buffer, whose remaining bytes are kept. The decoder never panics.
\<close>

theorem slip_decode_exact:
  assumes "length frame < 2 ^ 64"
  shows "slip_decode frame out \<noteq> None \<and>
    (slip_decode frame out = Some (Inr (out', n)) \<longleftrightarrow>
      (\<exists>data. slip_encode data (replicate (length frame) 0) = Some (Inr (frame, length frame)) \<and>
         n = length data \<and> n \<le> length out \<and> out' = data @ drop n out))"
proof -
  have enc: "slip_encode data (replicate (length frame) 0) = Some (Inr (frame, length frame)) \<longleftrightarrow> frame = slip_wire data" for data
  proof (cases "length (slip_wire data) < 2 ^ 64")
    case True
    then show ?thesis using slip_encode_full by auto
  next
    case False
    then show ?thesis using assms by (auto simp: slip_encode_def encoded_len_iff)
  qed
  show ?thesis
    unfolding enc
  proof (cases frame rule: slip_frame_cases)
    case (stuck data rest e)
    moreover from this have "frame \<noteq> slip_wire d" for d
      using slip_wire_not_stuck by simp
    ultimately show "slip_decode frame out \<noteq> None \<and> (slip_decode frame out = Some (Inr (out', n)) \<longleftrightarrow>
      (\<exists>data. frame = slip_wire data \<and> n = length data \<and> n \<le> length out \<and> out' = data @ drop n out))"
      by (simp add: slip_decode_payload)
  next
    case (wire data)
    then show "slip_decode frame out \<noteq> None \<and> (slip_decode frame out = Some (Inr (out', n)) \<longleftrightarrow>
      (\<exists>data. frame = slip_wire data \<and> n = length data \<and> n \<le> length out \<and> out' = data @ drop n out))"
      by (auto simp: slip_decode_payload splice_def slip_wire_inject)
  qed (auto simp: slip_decode_def slip_wire_def nth_append)
qed

theorem slip_decode_exact_witness:
  "slip_decode [0xC0, 0xDB, 0xDC, 7, 0xC0] [1, 2, 3] = Some (Inr ([0xC0, 7, 3], 2)) \<and>
   (\<exists>data. slip_encode data (replicate (length [0xC0, 0xDB, 0xDC, 7, 0xC0 :: u8]) 0) =
        Some (Inr ([0xC0, 0xDB, 0xDC, 7, 0xC0], length [0xC0, 0xDB, 0xDC, 7, 0xC0 :: u8])) \<and>
      2 = length data \<and> 2 \<le> length [1, 2, 3 :: u8] \<and> [0xC0, 7, 3] = data @ drop 2 [1, 2, 3])"
proof -
  have d: "slip_decode [0xC0, 0xDB, 0xDC, 7, 0xC0] [1, 2, 3] = Some (Inr ([0xC0, 7, 3], 2))" by code_simp
  have l: "length [0xC0, 0xDB, 0xDC, 7, 0xC0 :: u8] < 2 ^ 64" by simp
  show ?thesis using d slip_decode_exact [OF l, of "[1, 2, 3]" "[0xC0, 7, 3]" 2] by blast
qed

text \<open>
  C18. Every malformed frame is refused with the error that names its first defect: fewer than two
  bytes, a missing delimiter at either end, or, after a well-formed prefix, a delimiter inside the
  frame, an escape with nothing after it, or an escape of an undefined byte. A well-formed frame
  is refused exactly when its data does not fit the buffer, with the size it needs.
\<close>

theorem slip_decode_errors:
  "(slip_decode frame out = Some (Inl SlipFrameTooShort) \<longleftrightarrow> length frame < 2) \<and>
   (slip_decode frame out = Some (Inl SlipMissingStart) \<longleftrightarrow> 2 \<le> length frame \<and> hd frame \<noteq> END) \<and>
   (slip_decode frame out = Some (Inl SlipMissingEnd) \<longleftrightarrow> 2 \<le> length frame \<and> hd frame = END \<and> last frame \<noteq> END) \<and>
   (slip_decode frame out = Some (Inl SlipUnexpectedEnd) \<longleftrightarrow> (\<exists>data rest. frame = END # escape data @ END # rest @ [END])) \<and>
   (slip_decode frame out = Some (Inl SlipTruncatedEscape) \<longleftrightarrow> (\<exists>data. frame = END # escape data @ [ESC, END])) \<and>
   (slip_decode frame out = Some (Inl (SlipInvalidEscape b)) \<longleftrightarrow>
      b \<notin> {ESC_END, ESC_ESC} \<and> (\<exists>data rest. frame = END # escape data @ ESC # b # rest @ [END])) \<and>
   (slip_decode frame out = Some (Inl (SlipBufferTooSmall k)) \<longleftrightarrow>
      (\<exists>data. frame = slip_wire data \<and> k = length data \<and> length out < k))"
proof -
  have "slip_decode frame out = Some (Inl SlipUnexpectedEnd) \<longleftrightarrow> (\<exists>data rest. frame = END # escape data @ END # rest @ [END])"
    by (subst slip_decode_stuck_iff) (simp_all add: slip_stuck_iff, metis append_Cons)
  moreover have "slip_decode frame out = Some (Inl SlipTruncatedEscape) \<longleftrightarrow> (\<exists>data. frame = END # escape data @ [ESC, END])"
    by (subst slip_decode_stuck_iff) (simp_all add: slip_stuck_iff)
  moreover have "slip_decode frame out = Some (Inl (SlipInvalidEscape b)) \<longleftrightarrow>
      b \<notin> {ESC_END, ESC_ESC} \<and> (\<exists>data rest. frame = END # escape data @ ESC # b # rest @ [END])"
    by (subst slip_decode_stuck_iff) (simp_all add: slip_stuck_iff, metis append_Cons)
  ultimately show ?thesis using slip_decode_end_errors [of frame out] by blast
qed

end
