(* ===== verification/Trickle.thy ===== *)
theory Trickle
  imports LichenPrelude
begin

unbundle bit_operations_syntax

text \<open>
  The Trickle timer that paces RPL's DIO messages (\<open>lichen-rpl/src/trickle.rs\<close>). Times are u64
  milliseconds, intervals u32; the caller supplies the time and the random offset. A method that
  changes the timer returns it with its result. Failed assertions, debug assertions included, and
  \<open>unwrap\<close> of an error are \<open>None\<close>.
\<close>

section \<open>Model\<close>

definition LICHEN_TRICKLE_IMIN_MS :: u32 where "LICHEN_TRICKLE_IMIN_MS = 4000"
definition LICHEN_TRICKLE_IMAX_DOUBLINGS :: u32 where "LICHEN_TRICKLE_IMAX_DOUBLINGS = 8"
definition LICHEN_TRICKLE_IMAX_MS :: u32 where
  "LICHEN_TRICKLE_IMAX_MS = push_bit (unat LICHEN_TRICKLE_IMAX_DOUBLINGS) LICHEN_TRICKLE_IMIN_MS"
definition LICHEN_TRICKLE_K :: u32 where "LICHEN_TRICKLE_K = 10"

datatype trickle_event = TeStopped | TeTransmit u64 | TeExpire u64

datatype trickle_state = TsStopped | TsWaitingTransmit | TsWaitingExpire

definition ts_can_transition_to :: "trickle_state \<Rightarrow> trickle_state \<Rightarrow> bool" where
  "ts_can_transition_to self nxt =
     (case (self, nxt) of
        (_, TsStopped) \<Rightarrow> True
      | (TsStopped, TsWaitingTransmit) \<Rightarrow> True
      | (TsWaitingTransmit, TsWaitingTransmit) \<Rightarrow> True
      | (TsWaitingTransmit, TsWaitingExpire) \<Rightarrow> True
      | (TsWaitingExpire, TsWaitingTransmit) \<Rightarrow> True
      | _ \<Rightarrow> False)"

record invalid_trickle_transition =
  it_from :: trickle_state
  it_to :: trickle_state

record trickle_scope =
  ts_dodag_id :: bytes
  ts_version :: u8

record trickle_timer =
  tt_imin :: u32
  tt_max_interval :: u32
  tt_k :: u32
  tt_interval :: u32
  tt_counter :: u32
  tt_interval_start :: u64
  tt_transmit_time :: u64
  tt_state :: trickle_state
  tt_scope :: "trickle_scope option"
  tt_transmitted :: bool

type_synonym 'a trickle_result = "trickle_timer \<times> (invalid_trickle_transition + 'a)"

definition u32_checked_shl :: "u32 \<Rightarrow> u32 \<Rightarrow> u32 option" where
  "u32_checked_shl a n = (if n < 32 then Some (push_bit (unat n) a) else None)"

definition trickle_new :: "u32 \<Rightarrow> u32 \<Rightarrow> u32 \<Rightarrow> trickle_timer option" where
  "trickle_new imin_ms imax_doublings k =
     (if \<not> imin_ms > 0 then None
      else
        let max_interval =
          (case Option.bind (u32_checked_shl 1 imax_doublings) (checked_mul imin_ms) of
             None \<Rightarrow> - 1
           | Some m \<Rightarrow> m)
        in Some \<lparr>tt_imin = imin_ms, tt_max_interval = max_interval, tt_k = k, tt_interval = imin_ms,
             tt_counter = 0, tt_interval_start = 0, tt_transmit_time = 0, tt_state = TsStopped,
             tt_scope = None, tt_transmitted = False\<rparr>)"

definition lichen_profile :: "trickle_timer option" where
  "lichen_profile = trickle_new LICHEN_TRICKLE_IMIN_MS LICHEN_TRICKLE_IMAX_DOUBLINGS LICHEN_TRICKLE_K"

definition trickle_new_scoped :: "u32 \<Rightarrow> u32 \<Rightarrow> u32 \<Rightarrow> trickle_scope \<Rightarrow> trickle_timer option" where
  "trickle_new_scoped imin_ms imax_doublings k scope =
     map_option (\<lambda>timer. timer\<lparr>tt_scope := Some scope\<rparr>) (trickle_new imin_ms imax_doublings k)"

definition lichen_profile_scoped :: "trickle_scope \<Rightarrow> trickle_timer option" where
  "lichen_profile_scoped scope =
     trickle_new_scoped LICHEN_TRICKLE_IMIN_MS LICHEN_TRICKLE_IMAX_DOUBLINGS LICHEN_TRICKLE_K scope"

definition set_scope :: "trickle_timer \<Rightarrow> trickle_scope \<Rightarrow> trickle_timer" where
  "set_scope t scope = t\<lparr>tt_scope := Some scope\<rparr>"

definition trickle_transition_to :: "trickle_timer \<Rightarrow> trickle_state \<Rightarrow> unit trickle_result" where
  "trickle_transition_to t nxt =
     (if ts_can_transition_to (tt_state t) nxt then (t\<lparr>tt_state := nxt\<rparr>, Inr ())
      else (t, Inl \<lparr>it_from = tt_state t, it_to = nxt\<rparr>))"

definition begin_interval :: "trickle_timer \<Rightarrow> u64 \<Rightarrow> u32 \<Rightarrow> unit trickle_result" where
  "begin_interval t now rand_offset =
     (let t = t\<lparr>tt_interval_start := now, tt_counter := 0, tt_transmitted := False\<rparr> in
      if checked_add now (ucast (tt_interval t)) = None then
        trickle_transition_to (t\<lparr>tt_transmit_time := now\<rparr>) TsStopped
      else
        let half = drop_bit 1 (tt_interval t) + (tt_interval t AND 1);
            range = tt_interval t - half;
            offset = (if range > 0 then rand_offset mod range else 0)
        in trickle_transition_to (t\<lparr>tt_transmit_time := sat_add (sat_add now (ucast half)) (ucast offset)\<rparr>) TsWaitingTransmit)"

text \<open>A debug assertion that a result is no error.\<close>

definition debug_ok :: "'a trickle_result \<Rightarrow> trickle_timer option" where
  "debug_ok r = (case r of (t, Inl _) \<Rightarrow> None | (t, Inr _) \<Rightarrow> Some t)"

definition trickle_start :: "trickle_timer \<Rightarrow> u64 \<Rightarrow> u32 \<Rightarrow> trickle_timer option" where
  "trickle_start t now rand_offset =
     debug_ok (begin_interval (t\<lparr>tt_interval := tt_imin t\<rparr>) now rand_offset)"

definition interval_end :: "trickle_timer \<Rightarrow> u64" where
  "interval_end t = sat_add (tt_interval_start t) (ucast (tt_interval t))"

definition heard_consistent :: "trickle_timer \<Rightarrow> trickle_timer \<times> bool" where
  "heard_consistent t =
     (if tt_scope t \<noteq> None \<or> tt_state t = TsStopped then (t, False)
      else (t\<lparr>tt_counter := sat_add (tt_counter t) 1\<rparr>, True))"

definition heard_consistent_for :: "trickle_timer \<Rightarrow> trickle_scope \<Rightarrow> trickle_timer \<times> bool" where
  "heard_consistent_for t observed =
     (if tt_state t = TsStopped \<or> tt_scope t \<noteq> Some observed then (t, False)
      else (t\<lparr>tt_counter := sat_add (tt_counter t) 1\<rparr>, True))"

definition should_transmit :: "trickle_timer \<Rightarrow> bool" where
  "should_transmit t \<longleftrightarrow> tt_state t \<noteq> TsStopped \<and> tt_counter t < tt_k t"

definition try_fire_transmit :: "trickle_timer \<Rightarrow> bool trickle_result" where
  "try_fire_transmit t =
     (case trickle_transition_to t TsWaitingExpire of
        (t, Inl e) \<Rightarrow> (t, Inl e)
      | (t, Inr _) \<Rightarrow> let t = t\<lparr>tt_transmitted := True\<rparr> in (t, Inr (should_transmit t)))"

definition fire_transmit :: "trickle_timer \<Rightarrow> (trickle_timer \<times> bool) option" where
  "fire_transmit t =
     (case try_fire_transmit t of (t, Inl _) \<Rightarrow> None | (t, Inr b) \<Rightarrow> Some (t, b))"

definition try_expire :: "trickle_timer \<Rightarrow> u64 \<Rightarrow> u32 \<Rightarrow> unit trickle_result" where
  "try_expire t now rand_offset =
     (if tt_state t \<noteq> TsWaitingExpire then (t, Inl \<lparr>it_from = tt_state t, it_to = TsWaitingTransmit\<rparr>)
      else begin_interval (t\<lparr>tt_interval := min (sat_mul (tt_interval t) 2) (tt_max_interval t)\<rparr>) now rand_offset)"

definition trickle_expire :: "trickle_timer \<Rightarrow> u64 \<Rightarrow> u32 \<Rightarrow> trickle_timer option" where
  "trickle_expire t now rand_offset = debug_ok (try_expire t now rand_offset)"

definition try_reset :: "trickle_timer \<Rightarrow> u64 \<Rightarrow> u32 \<Rightarrow> unit trickle_result" where
  "try_reset t now rand_offset = begin_interval (t\<lparr>tt_interval := tt_imin t\<rparr>) now rand_offset"

definition trickle_reset :: "trickle_timer \<Rightarrow> u64 \<Rightarrow> u32 \<Rightarrow> trickle_timer option" where
  "trickle_reset t now rand_offset = debug_ok (try_reset t now rand_offset)"

definition next_event :: "trickle_timer \<Rightarrow> trickle_event" where
  "next_event t =
     (if tt_state t = TsStopped then TeStopped
      else if \<not> tt_transmitted t then TeTransmit (tt_transmit_time t)
      else TeExpire (interval_end t))"

text \<open>The calls a client makes on a timer, and one call.\<close>

datatype trickle_call =
    TkStart u64 u32
  | TkHeard
  | TkHeardFor trickle_scope
  | TkFire
  | TkTryFire
  | TkExpire u64 u32
  | TkTryExpire u64 u32
  | TkReset u64 u32
  | TkTryReset u64 u32
  | TkSetScope trickle_scope

fun trickle_step :: "trickle_timer \<Rightarrow> trickle_call \<Rightarrow> trickle_timer option" where
  "trickle_step t (TkStart now r) = trickle_start t now r"
| "trickle_step t TkHeard = Some (fst (heard_consistent t))"
| "trickle_step t (TkHeardFor s) = Some (fst (heard_consistent_for t s))"
| "trickle_step t TkFire = map_option fst (fire_transmit t)"
| "trickle_step t (TkExpire now r) = trickle_expire t now r"
| "trickle_step t TkTryFire = Some (fst (try_fire_transmit t))"
| "trickle_step t (TkTryExpire now r) = Some (fst (try_expire t now r))"
| "trickle_step t (TkReset now r) = trickle_reset t now r"
| "trickle_step t (TkTryReset now r) = Some (fst (try_reset t now r))"
| "trickle_step t (TkSetScope s) = Some (set_scope t s)"

section \<open>One interval\<close>

text \<open>The length of the first half of an interval, rounded up.\<close>

lemma unat_half_up: "unat (drop_bit 1 w + (w AND 1) :: u32) = (unat w + 1) div 2"
proof -
  have len32: "LENGTH(32) = 32" by simp
  have a: "unat (w AND 1) = unat w mod 2"
    by (simp add: and_one_eq unat_mod)
  have d: "unat (drop_bit 1 w) = unat w div 2" by (simp add: drop_bit_eq_div unat_div)
  have b: "unat w < 2 ^ 32" using unat_bound [of w] by simp
  have "unat w div 2 + unat w mod 2 = (unat w + 1) div 2" by presburger
  moreover have "unat w div 2 + unat w mod 2 < 2 ^ 32" using b by simp
  ultimately show ?thesis by (subst unat_add_no_overflow) (simp_all only: a d len32)
qed

text \<open>A running interval: it ends before the clock does, and its transmission time lies in its second half.\<close>

definition tk_running :: "trickle_timer \<Rightarrow> bool" where
  "tk_running t \<longleftrightarrow>
     unat (tt_interval_start t) + unat (tt_interval t) < 2 ^ 64 \<and>
     unat (tt_interval_start t) + (unat (tt_interval t) + 1) div 2 \<le> unat (tt_transmit_time t) \<and>
     unat (tt_transmit_time t) \<le> unat (tt_interval_start t) + unat (tt_interval t) \<and>
     (1 < unat (tt_interval t) \<longrightarrow> unat (tt_transmit_time t) < unat (tt_interval_start t) + unat (tt_interval t))"

definition tk_inv :: "trickle_timer \<Rightarrow> bool" where
  "tk_inv t \<longleftrightarrow>
     0 < tt_imin t \<and> tt_imin t \<le> tt_interval t \<and> tt_interval t \<le> tt_max_interval t \<and>
     (tt_transmitted t \<longleftrightarrow> tt_state t = TsWaitingExpire) \<and>
     (tt_state t = TsStopped \<or> tk_running t)"

lemma transmit_time_bounds:
  fixes now :: u64 and iv rand_offset :: u32
  defines "half \<equiv> drop_bit 1 iv + (iv AND 1)"
  defines "offset \<equiv> (if iv - half > 0 then rand_offset mod (iv - half) else 0)"
  assumes room: "unat now + unat iv < 2 ^ 64" and pos: "0 < unat iv"
  shows "unat (sat_add (sat_add now (ucast half)) (ucast offset)) = unat now + (unat iv + 1) div 2 + unat offset \<and>
    (unat iv + 1) div 2 + unat offset \<le> unat iv \<and> (1 < unat iv \<longrightarrow> (unat iv + 1) div 2 + unat offset < unat iv)"
proof -
  have h: "unat half = (unat iv + 1) div 2" unfolding half_def by (rule unat_half_up)
  then have le: "half \<le> iv" using pos by (simp add: word_le_nat_alt)
  then have r: "unat (iv - half) = unat iv - (unat iv + 1) div 2" using h by (simp add: unat_sub)
  have o: "unat offset < unat (iv - half) \<or> (unat offset = 0 \<and> unat (iv - half) = 0)"
    unfolding offset_def by (auto simp: unat_mod word_less_nat_alt)
  have b: "(unat iv + 1) div 2 + unat offset \<le> unat iv" "1 < unat iv \<longrightarrow> (unat iv + 1) div 2 + unat offset < unat iv"
    using o r by linarith+
  moreover have "unat (sat_add (sat_add now (ucast half)) (ucast offset)) = unat now + (unat iv + 1) div 2 + unat offset"
    using room b h by (simp add: unat_sat_add unat_ucast_up)
  ultimately show ?thesis by blast
qed

text \<open>What beginning an interval does.\<close>

lemma begin_interval_cases:
  fixes t :: trickle_timer and now :: u64
  assumes "0 < tt_interval t"
  defines "tm \<equiv> t\<lparr>tt_interval_start := now, tt_counter := 0, tt_transmitted := False\<rparr>"
  shows "if unat now + unat (tt_interval t) < 2 ^ 64
    then \<exists>tx. begin_interval t now r = (tm\<lparr>tt_transmit_time := tx, tt_state := TsWaitingTransmit\<rparr>, Inr ()) \<and>
           tk_running (tm\<lparr>tt_transmit_time := tx, tt_state := TsWaitingTransmit\<rparr>)
    else begin_interval t now r = (tm\<lparr>tt_transmit_time := now, tt_state := TsStopped\<rparr>, Inr ())"
proof (cases "unat now + unat (tt_interval t) < 2 ^ 64")
  case True
  have c: "ts_can_transition_to s TsWaitingTransmit" for s by (cases s) (simp_all add: ts_can_transition_to_def)
  have p: "0 < unat (tt_interval t)" using assms(1) by (simp add: word_less_nat_alt)
  have n: "checked_add now (ucast (tt_interval t)) \<noteq> None"
    using True by (simp add: checked_add_None_iff unat_ucast_up)
  show ?thesis
    using True n transmit_time_bounds [OF True p, of r]
    by (auto simp: begin_interval_def tm_def Let_def trickle_transition_to_def c tk_running_def)
next
  case False
  have c: "ts_can_transition_to s TsStopped" for s by (cases s) (simp_all add: ts_can_transition_to_def)
  show ?thesis
    using False by (simp add: begin_interval_def tm_def Let_def trickle_transition_to_def c checked_add_None_iff unat_ucast_up)
qed

lemma begin_interval_inv:
  assumes "0 < tt_imin t" "tt_imin t \<le> tt_interval t" "tt_interval t \<le> tt_max_interval t"
  shows "\<exists>t'. begin_interval t now r = (t', Inr ()) \<and> tk_inv t'"
proof -
  have "0 < tt_interval t" using assms(1,2) by (rule less_le_trans)
  from begin_interval_cases [OF this, of now r] show ?thesis
    using assms by (auto simp: tk_inv_def split: if_splits)
qed

lemma tk_doubled:
  assumes "tk_inv t"
  shows "tt_imin t \<le> min (sat_mul (tt_interval t) 2) (tt_max_interval t)"
proof -
  have "unat (tt_interval t) \<le> unat (sat_mul (tt_interval t) 2)"
    using unat_bound [of "tt_interval t"] by (simp add: unat_sat_mul)
  then show ?thesis using assms by (auto simp: tk_inv_def word_le_nat_alt min_def)
qed

lemma tk_inv_update [simp]:
  "tk_inv (t\<lparr>tt_counter := c\<rparr>) = tk_inv t" "tk_inv (t\<lparr>tt_scope := s\<rparr>) = tk_inv t"
  by (simp_all add: tk_inv_def tk_running_def)

lemma tk_restart:
  assumes "tk_inv t"
  shows "\<exists>t'. begin_interval (t\<lparr>tt_interval := tt_imin t\<rparr>) now r = (t', Inr ()) \<and> tk_inv t'"
proof -
  have "tt_imin t \<le> tt_max_interval t" using assms order_trans unfolding tk_inv_def by blast
  then show ?thesis using assms begin_interval_inv [of "t\<lparr>tt_interval := tt_imin t\<rparr>" now r] by (simp add: tk_inv_def)
qed

text \<open>
  The preconditions of the calls: \<open>fire_transmit\<close> and \<open>expire\<close> assert that the timer waits for the
  transmission and for the end of the interval; no other call asserts anything that can fail.
\<close>

definition tk_pre :: "trickle_timer \<Rightarrow> trickle_call \<Rightarrow> bool" where
  "tk_pre t c = (case c of TkFire \<Rightarrow> tt_state t = TsWaitingTransmit | TkExpire _ _ \<Rightarrow> tt_state t = TsWaitingExpire | _ \<Rightarrow> True)"

lemma try_fire_cases:
  "try_fire_transmit t =
     (if tt_state t = TsWaitingTransmit
      then (t\<lparr>tt_state := TsWaitingExpire, tt_transmitted := True\<rparr>, Inr (tt_counter t < tt_k t))
      else (t, Inl \<lparr>it_from = tt_state t, it_to = TsWaitingExpire\<rparr>))"
  by (cases "tt_state t") (simp_all add: try_fire_transmit_def trickle_transition_to_def ts_can_transition_to_def
      Let_def should_transmit_def)

lemma try_fire_inv: "tk_inv t \<Longrightarrow> tk_inv (fst (try_fire_transmit t))"
  by (auto simp: try_fire_cases tk_inv_def tk_running_def)

lemma try_expire_inv:
  assumes i: "tk_inv t" and w: "tt_state t = TsWaitingExpire"
  shows "\<exists>t'. try_expire t now r = (t', Inr ()) \<and> tk_inv t'"
  using assms tk_doubled [OF i] begin_interval_inv [of "t\<lparr>tt_interval := min (sat_mul (tt_interval t) 2) (tt_max_interval t)\<rparr>" now r]
  by (auto simp: try_expire_def tk_inv_def)

lemma trickle_step_pre: "tk_inv t \<Longrightarrow> tk_pre t e \<Longrightarrow> \<exists>t'. trickle_step t e = Some t' \<and> tk_inv t'"
proof (cases e)
  case (TkTryExpire now r)
  assume i: "tk_inv t"
  show ?thesis
  proof (cases "tt_state t = TsWaitingExpire")
    case True
    then show ?thesis using try_expire_inv [OF i True, of now r] by (auto simp: TkTryExpire)
  next
    case False
    then show ?thesis using i by (simp add: TkTryExpire try_expire_def)
  qed
next
  case (TkExpire now r)
  assume "tk_inv t" "tk_pre t e"
  then show ?thesis using try_expire_inv [of t now r] by (auto simp: TkExpire tk_pre_def trickle_expire_def debug_ok_def)
next
  case TkTryFire
  assume "tk_inv t"
  then show ?thesis using try_fire_inv by (simp add: TkTryFire)
next
  case TkFire
  assume "tk_inv t" "tk_pre t e"
  then show ?thesis using try_fire_inv [of t] by (auto simp: TkFire tk_pre_def fire_transmit_def try_fire_cases)
next
  case (TkStart now r)
  assume "tk_inv t"
  then show ?thesis using tk_restart [of t now r] by (auto simp: TkStart trickle_start_def debug_ok_def)
next
  case (TkReset now r)
  assume "tk_inv t"
  then show ?thesis using tk_restart [of t now r] by (auto simp: TkReset trickle_reset_def try_reset_def debug_ok_def)
next
  case (TkTryReset now r)
  assume "tk_inv t"
  then show ?thesis using tk_restart [of t now r] by (auto simp: TkTryReset try_reset_def)
qed (simp_all add: heard_consistent_def heard_consistent_for_def set_scope_def)

lemma trickle_step_stuck: "\<not> tk_pre t e \<Longrightarrow> trickle_step t e = None"
  by (cases e) (auto simp: tk_pre_def fire_transmit_def try_fire_cases trickle_expire_def try_expire_def debug_ok_def)

lemma begin_interval_config:
  "tt_imin (fst (begin_interval t now r)) = tt_imin t \<and> tt_max_interval (fst (begin_interval t now r)) = tt_max_interval t"
  by (simp add: begin_interval_def trickle_transition_to_def Let_def)

lemma debug_ok_Some: "debug_ok x = Some t \<Longrightarrow> t = fst x"
  by (auto simp: debug_ok_def split: prod.splits sum.splits)

lemma trickle_step_config:
  "trickle_step t e = Some t' \<Longrightarrow> tt_imin t' = tt_imin t \<and> tt_max_interval t' = tt_max_interval t"
  by (cases e) (auto simp: trickle_start_def trickle_reset_def try_reset_def trickle_expire_def try_expire_def
      begin_interval_config heard_consistent_def heard_consistent_for_def set_scope_def fire_transmit_def try_fire_cases
      dest!: debug_ok_Some split: if_splits)

interpretation tk_machine: guarded_machine trickle_step "\<lambda>t. tk_inv t \<and> tt_imin t = lo \<and> tt_max_interval t = hi" tk_pre for lo hi
proof
  fix s e
  assume "tk_inv s \<and> tt_imin s = lo \<and> tt_max_interval s = hi" "tk_pre s e"
  then show "\<exists>s'. trickle_step s e = Some s' \<and> tk_inv s' \<and> tt_imin s' = lo \<and> tt_max_interval s' = hi"
    using trickle_step_pre trickle_step_config by metis
qed (rule trickle_step_stuck)

section \<open>Properties\<close>

lemma trickle_max_interval:
  assumes "trickle_new imin d k = Some t"
  shows "unat (tt_max_interval t) = min (unat imin * 2 ^ unat d) (2 ^ 32 - 1)"
proof (cases "d < 32")
  case True
  then have d: "unat d < 32" by (simp add: word_less_nat_alt)
  then have "(2::nat) ^ unat d < 2 ^ 32" by (intro power_strict_increasing) auto
  then have p: "unat (2 ^ unat d :: u32) = 2 ^ unat d"
    using unat_of_nat [of "2 ^ unat d", where 'a = 32] by simp
  show ?thesis
    using assms True unfolding trickle_new_def u32_checked_shl_def checked_mul_def
    by (auto simp: p Let_def unat_word_ariths unat_max_word split: if_splits)
next
  case False
  then have "32 \<le> unat d" by (simp add: word_less_nat_alt not_less)
  then have "(2::nat) ^ 32 \<le> 2 ^ unat d" by (intro power_increasing) auto
  moreover have "1 \<le> unat imin" using assms by (auto simp: trickle_new_def word_less_nat_alt split: if_splits)
  ultimately have "2 ^ 32 \<le> unat imin * 2 ^ unat d" using mult_le_mono [of 1 "unat imin" "2 ^ 32" "2 ^ unat d"] by simp
  then show ?thesis
    using assms False by (auto simp: trickle_new_def u32_checked_shl_def Let_def unat_max_word split: if_splits)
qed

lemma trickle_new_fields:
  "trickle_new imin d k = Some t \<Longrightarrow> 0 < imin \<and> tt_imin t = imin \<and> tt_interval t = imin \<and> tt_k t = k \<and>
     tt_state t = TsStopped \<and> tt_scope t = None \<and> \<not> tt_transmitted t"
  by (auto simp: trickle_new_def Let_def split: if_splits)

lemma trickle_new_inv:
  assumes "trickle_new imin d k = Some t"
  shows "tk_inv t"
proof -
  have "unat imin \<le> unat imin * 2 ^ unat d" "unat imin \<le> 2 ^ 32 - 1" using unat_bound [of imin] by simp_all
  then have "imin \<le> tt_max_interval t"
    unfolding word_le_nat_alt trickle_max_interval [OF assms] by simp
  then show ?thesis using trickle_new_fields [OF assms] by (simp add: tk_inv_def)
qed

text \<open>
  One full interval of a node that hears \<open>m\<close> consistent messages before its transmission time and
  calls \<open>expire\<close> at \<open>now\<close>: whether it transmits, and the timer in the next interval.
\<close>

definition trickle_round :: "trickle_timer \<Rightarrow> nat \<times> u64 \<times> u32 \<Rightarrow> (trickle_timer \<times> bool) option" where
  "trickle_round t x =
     (case x of (m, now, r) \<Rightarrow>
        Option.bind (fire_transmit (((\<lambda>t. fst (heard_consistent t)) ^^ m) t)) (\<lambda>(t, b).
        map_option (\<lambda>t. (t, b)) (trickle_expire t now r)))"

primrec trickle_rounds :: "(nat \<times> u64 \<times> u32) list \<Rightarrow> trickle_timer \<Rightarrow> (trickle_timer \<times> bool list) option" where
  "trickle_rounds [] t = Some (t, [])"
| "trickle_rounds (x # xs) t =
     Option.bind (trickle_round t x) (\<lambda>(t, b). map_option (\<lambda>(t, bs). (t, b # bs)) (trickle_rounds xs t))"

lemma heard_often:
  assumes "tt_scope t = None" "tt_state t \<noteq> TsStopped"
  shows "\<exists>c. ((\<lambda>t. fst (heard_consistent t)) ^^ m) t = t\<lparr>tt_counter := c\<rparr> \<and>
    unat c = min (2 ^ 32 - 1) (unat (tt_counter t) + m)"
proof (induction m)
  case 0
  show ?case using unat_bound [of "tt_counter t"] by (intro exI [of _ "tt_counter t"]) simp
next
  case (Suc m)
  then obtain c where c: "((\<lambda>t. fst (heard_consistent t)) ^^ m) t = t\<lparr>tt_counter := c\<rparr>"
    "unat c = min (2 ^ 32 - 1) (unat (tt_counter t) + m)" by blast
  show ?case
    by (intro exI [of _ "sat_add c 1"]) (use c assms in \<open>auto simp: heard_consistent_def unat_sat_add\<close>)
qed

text \<open>A timer at the start of an interval of an unscoped node.\<close>

definition tk_fresh :: "trickle_timer \<Rightarrow> bool" where
  "tk_fresh t \<longleftrightarrow> tk_inv t \<and> tt_state t = TsWaitingTransmit \<and> tt_scope t = None \<and> tt_counter t = 0"

lemma begin_interval_fresh:
  assumes "0 < tt_imin t" "tt_imin t \<le> tt_interval t" "tt_interval t \<le> tt_max_interval t" "tt_scope t = None"
    and "unat now + unat (tt_interval t) < 2 ^ 64"
  shows "\<exists>t'. begin_interval t now r = (t', Inr ()) \<and> tk_fresh t' \<and> tt_imin t' = tt_imin t \<and> tt_k t' = tt_k t \<and>
    tt_max_interval t' = tt_max_interval t \<and> tt_interval t' = tt_interval t"
proof -
  have "0 < tt_interval t" using assms(1,2) by (rule less_le_trans)
  from begin_interval_cases [OF this, of now r] show ?thesis
    using assms by (auto simp: tk_fresh_def tk_inv_def)
qed

lemma trickle_round_fresh:
  assumes f: "tk_fresh t" and room: "unat now + unat (tt_max_interval t) < 2 ^ 64"
  shows "\<exists>t'. trickle_round t (m, now, r) = Some (t', m < unat (tt_k t)) \<and> tk_fresh t' \<and> tt_imin t' = tt_imin t \<and>
    tt_k t' = tt_k t \<and> tt_max_interval t' = tt_max_interval t \<and>
    unat (tt_interval t') = min (2 * unat (tt_interval t)) (unat (tt_max_interval t))"
proof -
  let ?i = "min (sat_mul (tt_interval t) 2) (tt_max_interval t)"
  obtain c where c: "((\<lambda>t. fst (heard_consistent t)) ^^ m) t = t\<lparr>tt_counter := c\<rparr>" "unat c = min (2 ^ 32 - 1) m"
    using heard_often [of t m] f by (auto simp: tk_fresh_def)
  have "c < tt_k t \<longleftrightarrow> m < unat (tt_k t)"
    using c(2) unat_bound [of "tt_k t"] by (auto simp: word_less_nat_alt)
  then have fire: "fire_transmit (t\<lparr>tt_counter := c\<rparr>) =
      Some (t\<lparr>tt_counter := c, tt_state := TsWaitingExpire, tt_transmitted := True\<rparr>, m < unat (tt_k t))"
    using f by (simp add: fire_transmit_def try_fire_cases tk_fresh_def)
  have i: "unat ?i = min (2 * unat (tt_interval t)) (unat (tt_max_interval t))"
    using unat_bound [of "tt_max_interval t"] by (auto simp: min_def word_le_nat_alt unat_sat_mul)
  then have "unat now + unat ?i < 2 ^ 64" using room by linarith
  then obtain t' where t': "begin_interval (t\<lparr>tt_counter := c, tt_state := TsWaitingExpire, tt_transmitted := True, tt_interval := ?i\<rparr>) now r = (t', Inr ())"
    "tk_fresh t'" "tt_imin t' = tt_imin t" "tt_k t' = tt_k t" "tt_max_interval t' = tt_max_interval t" "tt_interval t' = ?i"
    using begin_interval_fresh [of "t\<lparr>tt_counter := c, tt_state := TsWaitingExpire, tt_transmitted := True, tt_interval := ?i\<rparr>" now r]
      f tk_doubled [of t] by (auto simp: tk_fresh_def tk_inv_def)
  then have "trickle_round t (m, now, r) = Some (t', m < unat (tt_k t))"
    using c(1) fire by (simp add: trickle_round_def trickle_expire_def try_expire_def debug_ok_def)
  then show ?thesis using t' i by auto
qed

lemma min_double: "min (min (2 * a) b * 2 ^ n) b = min (a * (2 * 2 ^ n)) (b :: nat)"
proof (cases "2 * a \<le> b")
  case False
  have "b \<le> b * 2 ^ n" "2 * a \<le> 2 * a * 2 ^ n" by simp_all
  moreover have "a * (2 * 2 ^ n) = 2 * a * 2 ^ n" by simp
  ultimately show ?thesis using False by linarith
qed (simp add: min_def ac_simps)

lemma trickle_rounds_fresh:
  assumes "tk_fresh t" and "list_all (\<lambda>(m, now, r). unat now + unat (tt_max_interval t) < 2 ^ 64) rs"
  shows "\<exists>t'. trickle_rounds rs t = Some (t', map (\<lambda>(m, _). m < unat (tt_k t)) rs) \<and> tk_fresh t' \<and>
    unat (tt_interval t') = min (unat (tt_interval t) * 2 ^ length rs) (unat (tt_max_interval t))"
  using assms
proof (induction rs arbitrary: t)
  case Nil
  then show ?case by (auto simp: tk_fresh_def tk_inv_def word_le_nat_alt)
next
  case (Cons x rs)
  obtain m now r where x: "x = (m, now, r)" by (cases x)
  obtain t1 where t1: "trickle_round t x = Some (t1, m < unat (tt_k t))" "tk_fresh t1" "tt_k t1 = tt_k t"
      "tt_max_interval t1 = tt_max_interval t"
      "unat (tt_interval t1) = min (2 * unat (tt_interval t)) (unat (tt_max_interval t))"
    using trickle_round_fresh [of t now m r] Cons.prems x by auto
  obtain t' where t': "trickle_rounds rs t1 = Some (t', map (\<lambda>(m, _). m < unat (tt_k t)) rs)" "tk_fresh t'"
      "unat (tt_interval t') = min (unat (tt_interval t1) * 2 ^ length rs) (unat (tt_max_interval t))"
    using Cons.IH [of t1] Cons.prems t1 by auto
  show ?case using t1(1) t' x t1(5) by (simp add: min_double)
qed

lemma tk_running_end:
  assumes "tk_running t"
  shows "unat (interval_end t) = unat (tt_interval_start t) + unat (tt_interval t) \<and>
    unat (tt_interval_start t) + (unat (tt_interval t) + 1) div 2 \<le> unat (tt_transmit_time t) \<and>
    tt_transmit_time t \<le> interval_end t \<and> (1 < tt_interval t \<longrightarrow> tt_transmit_time t < interval_end t)"
proof -
  have "unat (interval_end t) = unat (tt_interval_start t) + unat (tt_interval t)"
    using assms by (simp add: interval_end_def unat_sat_add unat_ucast_up tk_running_def)
  then show ?thesis using assms by (simp add: tk_running_def word_le_nat_alt word_less_nat_alt)
qed

lemma tk_pre_iff:
  "\<not> tk_pre t c \<longleftrightarrow> c = TkFire \<and> tt_state t \<noteq> TsWaitingTransmit \<or> (\<exists>now r. c = TkExpire now r) \<and> tt_state t \<noteq> TsWaitingExpire"
  by (cases c) (auto simp: tk_pre_def)

text \<open>
  C20. The timer's assertions and timing, over any calls on a new timer. With debug assertions
  active, a history fails exactly when it calls \<open>fire_transmit\<close> while the timer does not wait for
  its transmission, or \<open>expire\<close> while it does not wait for the end of the interval. After every
  other history, the interval is between Imin and the maximum, the transmission is reported as
  made exactly while waiting for the end of the interval, and a running interval ends before the
  clock overflows and has its transmission time in its second half.
\<close>

theorem trickle_timing:
  assumes "trickle_new imin d k = Some t0"
  shows "(orun trickle_step es t0 = None \<longleftrightarrow>
      (\<exists>es1 c es2 t. es = es1 @ c # es2 \<and> orun trickle_step es1 t0 = Some t \<and>
         (c = TkFire \<and> tt_state t \<noteq> TsWaitingTransmit \<or> (\<exists>now r. c = TkExpire now r) \<and> tt_state t \<noteq> TsWaitingExpire))) \<and>
    (\<forall>t. orun trickle_step es t0 = Some t \<longrightarrow>
      imin \<le> tt_interval t \<and> unat (tt_interval t) \<le> min (unat imin * 2 ^ unat d) (2 ^ 32 - 1) \<and>
      (tt_transmitted t \<longleftrightarrow> tt_state t = TsWaitingExpire) \<and>
      (tt_state t \<noteq> TsStopped \<longrightarrow>
         unat (interval_end t) = unat (tt_interval_start t) + unat (tt_interval t) \<and>
         unat (tt_interval_start t) + (unat (tt_interval t) + 1) div 2 \<le> unat (tt_transmit_time t) \<and>
         tt_transmit_time t \<le> interval_end t \<and> (1 < tt_interval t \<longrightarrow> tt_transmit_time t < interval_end t)))"
proof (intro conjI allI impI)
  have start: "tk_inv t0 \<and> tt_imin t0 = imin \<and> tt_max_interval t0 = tt_max_interval t0"
    using trickle_new_inv [OF assms] trickle_new_fields [OF assms] by blast
  show "orun trickle_step es t0 = None \<longleftrightarrow> (\<exists>es1 c es2 t. es = es1 @ c # es2 \<and> orun trickle_step es1 t0 = Some t \<and>
         (c = TkFire \<and> tt_state t \<noteq> TsWaitingTransmit \<or> (\<exists>now r. c = TkExpire now r) \<and> tt_state t \<noteq> TsWaitingExpire))"
    using tk_machine.run_fails_iff [OF start, of es] unfolding tk_pre_iff .
  fix t assume "orun trickle_step es t0 = Some t"
  then have i: "tk_inv t" and lo: "tt_imin t = imin" and hi: "tt_max_interval t = tt_max_interval t0"
    using tk_machine.run_inv [OF start] by blast+
  show "imin \<le> tt_interval t" "unat (tt_interval t) \<le> min (unat imin * 2 ^ unat d) (2 ^ 32 - 1)"
    using i lo hi unfolding trickle_max_interval [OF assms, symmetric] tk_inv_def word_le_nat_alt by simp_all
  show "tt_transmitted t \<longleftrightarrow> tt_state t = TsWaitingExpire" using i by (simp add: tk_inv_def)
  assume "tt_state t \<noteq> TsStopped"
  then have run: "tk_running t" using i by (simp add: tk_inv_def)
  show "unat (interval_end t) = unat (tt_interval_start t) + unat (tt_interval t)"
    "unat (tt_interval_start t) + (unat (tt_interval t) + 1) div 2 \<le> unat (tt_transmit_time t)"
    "tt_transmit_time t \<le> interval_end t" "1 < tt_interval t \<Longrightarrow> tt_transmit_time t < interval_end t"
    using tk_running_end [OF run] by blast+
qed

theorem trickle_timing_witness:
  "\<exists>t0 t. trickle_new 4000 8 10 = Some t0 \<and> orun trickle_step [TkStart 1000 7, TkFire, TkExpire 5000 99] t0 = Some t \<and>
    4000 \<le> tt_interval t \<and> orun trickle_step [TkStart 1000 7, TkExpire 5000 99] t0 = None"
proof -
  let ?t0 = "\<lparr>tt_imin = 4000, tt_max_interval = 1024000, tt_k = 10, tt_interval = 4000, tt_counter = 0, tt_interval_start = 0,
     tt_transmit_time = 0, tt_state = TsStopped, tt_scope = None, tt_transmitted = False\<rparr>"
  have t0: "trickle_new 4000 8 10 = Some ?t0" by code_simp
  have "orun trickle_step [TkStart 1000 7, TkFire, TkExpire 5000 99] ?t0 \<noteq> None" by code_simp
  then obtain t where t: "orun trickle_step [TkStart 1000 7, TkFire, TkExpire 5000 99] ?t0 = Some t" by blast
  have "orun trickle_step [TkStart 1000 7, TkExpire 5000 99] ?t0 = None" by code_simp
  then show ?thesis
    using trickle_timing [OF t0, of "[TkStart 1000 7, TkFire, TkExpire 5000 99]"] t t0 by blast
qed

text \<open>
  C21. The timer backs off exponentially and is suppressed by redundancy: a new timer that is
  started and then run through any number of intervals, within the range of the clock, transmits in
  exactly those intervals in which it heard fewer than \<open>k\<close> consistent messages before its
  transmission time, and its interval has doubled once per interval up to the maximum.
\<close>

theorem trickle_backoff:
  assumes "trickle_new imin d k = Some t0" and "unat now + unat imin < 2 ^ 64"
    and "list_all (\<lambda>(m, now, r). unat now + unat (tt_max_interval t0) < 2 ^ 64) rs"
  shows "\<exists>t t'. trickle_start t0 now r = Some t \<and>
    trickle_rounds rs t = Some (t', map (\<lambda>(m, _). m < unat k) rs) \<and>
    unat (tt_interval t') = min (unat imin * 2 ^ length rs) (min (unat imin * 2 ^ unat d) (2 ^ 32 - 1)) \<and>
    next_event t' = TeTransmit (tt_transmit_time t')"
proof -
  note n = trickle_new_fields [OF assms(1)] trickle_new_inv [OF assms(1)]
  obtain t where t: "begin_interval (t0\<lparr>tt_interval := tt_imin t0\<rparr>) now r = (t, Inr ())" "tk_fresh t" "tt_k t = k"
      "tt_max_interval t = tt_max_interval t0" "tt_interval t = imin"
    using begin_interval_fresh [of "t0\<lparr>tt_interval := tt_imin t0\<rparr>" now r] n assms(2) by (auto simp: tk_inv_def)
  obtain t' where "trickle_rounds rs t = Some (t', map (\<lambda>(m, _). m < unat k) rs)" "tk_fresh t'"
      "unat (tt_interval t') = min (unat imin * 2 ^ length rs) (unat (tt_max_interval t0))"
    using trickle_rounds_fresh [of t rs] t assms(3) by auto
  moreover from this have "next_event t' = TeTransmit (tt_transmit_time t')"
    by (simp add: tk_fresh_def tk_inv_def next_event_def)
  moreover have "trickle_start t0 now r = Some t" using t by (simp add: trickle_start_def debug_ok_def)
  ultimately show ?thesis unfolding trickle_max_interval [OF assms(1)] by blast
qed

theorem trickle_backoff_witness:
  "\<exists>t0 t t'. trickle_new 4000 1 2 = Some t0 \<and> trickle_start t0 100 7 = Some t \<and>
    trickle_rounds [(0, 4100, 5), (2, 12100, 6)] t = Some (t', [True, False]) \<and> unat (tt_interval t') = 8000"
proof -
  have "trickle_new 4000 1 2 \<noteq> None" by (simp add: trickle_new_def Let_def)
  then obtain t0 where t0: "trickle_new 4000 1 2 = Some t0" by auto
  have m: "unat (tt_max_interval t0) = 8000" using trickle_max_interval [OF t0] by simp
  show ?thesis using trickle_backoff [OF t0, of 100 "[(0, 4100, 5), (2, 12100, 6)]" 7] m t0 by (auto simp: m)
qed

end
