(* ===== verification/Forward_Buffer.thy ===== *)
theory Forward_Buffer
  imports LichenPrelude "HOL-Library.Product_Lexorder" "HOL-Library.Sublist"
begin

text \<open>
  The forwarding buffer of a relay (\<open>lichen-node/src/forward_buffer.rs\<close>): packets of other nodes,
  at most two per source. A mutating method returns the buffer with its result. The rejection
  counter is a 64-bit \<open>usize\<close> that wraps, as without overflow checks; with them the call that would
  wrap it panics.
\<close>

section \<open>Model\<close>

definition MAX_FORWARDING_SOURCES :: nat where "MAX_FORWARDING_SOURCES = 8"
definition MAX_PACKETS_PER_SOURCE :: nat where "MAX_PACKETS_PER_SOURCE = 2"

datatype forward_error = FeQueueFull | FeNotFound

record forward_entry =
  fe_packet :: bytes
  fe_source_iid :: bytes
  fe_queued_at_ms :: u32
  fe_deadline_ms :: "u32 option"
  fe_priority :: u8

definition fe_is_expired :: "forward_entry \<Rightarrow> u32 \<Rightarrow> bool" where
  "fe_is_expired e now_ms =
     (case fe_deadline_ms e of
        Some deadline \<Rightarrow> let elapsed = now_ms - deadline in elapsed > 0 \<and> elapsed < 0x80000000
      | None \<Rightarrow> False)"

record forward_buffer =
  fb_entries :: "forward_entry list"
  fb_packets_backpressure :: u64

definition fb_new :: forward_buffer where
  "fb_new = \<lparr>fb_entries = [], fb_packets_backpressure = 0\<rparr>"

definition fb_expire :: "forward_buffer \<Rightarrow> u32 \<Rightarrow> forward_buffer \<times> nat" where
  "fb_expire b now_ms =
     (let entries = filter (\<lambda>e. \<not> fe_is_expired e now_ms) (fb_entries b)
      in (b\<lparr>fb_entries := entries\<rparr>, length (fb_entries b) - length entries))"

definition count_for_source :: "forward_buffer \<Rightarrow> bytes \<Rightarrow> nat" where
  "count_for_source b source_iid = length (filter (\<lambda>e. fe_source_iid e = source_iid) (fb_entries b))"

text \<open>One round of the counting loop, on the array of sources seen and their number.\<close>

definition seen_step :: "bytes list \<times> nat \<Rightarrow> forward_entry \<Rightarrow> bytes list \<times> nat" where
  "seen_step s entry =
     (case s of (seen, n) \<Rightarrow>
        if fe_source_iid entry \<notin> set (take n seen) \<and> n < MAX_FORWARDING_SOURCES
        then (seen[n := fe_source_iid entry], n + 1)
        else (seen, n))"

definition distinct_source_count :: "forward_buffer \<Rightarrow> nat" where
  "distinct_source_count b =
     snd (foldl seen_step (replicate MAX_FORWARDING_SOURCES (replicate 8 0), 0) (fb_entries b))"

definition evict_oldest_source_packet :: "forward_buffer \<Rightarrow> forward_buffer" where
  "evict_oldest_source_packet b =
     (if fb_entries b = [] then b
      else
        let oldest_idx =
          (case min_by_key (\<lambda>(_, e). fe_queued_at_ms e) (enumerate 0 (fb_entries b)) of
             Some (i, _) \<Rightarrow> i
           | None \<Rightarrow> 0)
        in b\<lparr>fb_entries := vec_remove oldest_idx (fb_entries b)\<rparr>)"

definition fb_queue :: "forward_buffer \<Rightarrow> bytes \<Rightarrow> bytes \<Rightarrow> u32 \<Rightarrow> u32 option \<Rightarrow> u8 \<Rightarrow>
    forward_buffer \<times> (forward_error + unit)" where
  "fb_queue b packet source_iid now_ms deadline_ms priority =
     (let b = fst (fb_expire b now_ms);
          source_count = count_for_source b source_iid
      in if source_count \<ge> MAX_PACKETS_PER_SOURCE
         then (b\<lparr>fb_packets_backpressure := fb_packets_backpressure b + 1\<rparr>, Inl FeQueueFull)
         else
           let b = (if source_count = 0 \<and> distinct_source_count b \<ge> MAX_FORWARDING_SOURCES
                    then evict_oldest_source_packet b else b)
           in (b\<lparr>fb_entries := fb_entries b @ [\<lparr>fe_packet = packet, fe_source_iid = source_iid,
                 fe_queued_at_ms = now_ms, fe_deadline_ms = deadline_ms, fe_priority = priority\<rparr>]\<rparr>, Inr ()))"

definition fb_dequeue :: "forward_buffer \<Rightarrow> u32 \<Rightarrow> forward_buffer \<times> forward_entry option" where
  "fb_dequeue b now_ms =
     (let b = fst (fb_expire b now_ms) in
      if fb_entries b = [] then (b, None)
      else case min_by_key (\<lambda>(_, e). (fe_priority e, fe_queued_at_ms e)) (enumerate 0 (fb_entries b)) of
             None \<Rightarrow> (b, None)
           | Some (best_idx, _) \<Rightarrow>
               (b\<lparr>fb_entries := vec_remove best_idx (fb_entries b)\<rparr>, Some (fb_entries b ! best_idx)))"

definition dequeue_for_source :: "forward_buffer \<Rightarrow> bytes \<Rightarrow> u32 \<Rightarrow> forward_buffer \<times> forward_entry option" where
  "dequeue_for_source b source_iid now_ms =
     (let b = fst (fb_expire b now_ms) in
      case min_by_key (\<lambda>(_, e). fe_queued_at_ms e)
             (filter (\<lambda>(_, e). fe_source_iid e = source_iid) (enumerate 0 (fb_entries b))) of
        None \<Rightarrow> (b, None)
      | Some (idx, _) \<Rightarrow> (b\<lparr>fb_entries := vec_remove idx (fb_entries b)\<rparr>, Some (fb_entries b ! idx)))"

definition fb_len :: "forward_buffer \<Rightarrow> nat" where
  "fb_len b = length (fb_entries b)"

definition fb_is_empty :: "forward_buffer \<Rightarrow> bool" where
  "fb_is_empty b \<longleftrightarrow> fb_entries b = []"

definition clear_source :: "forward_buffer \<Rightarrow> bytes \<Rightarrow> forward_buffer \<times> nat" where
  "clear_source b source_iid =
     (let entries = filter (\<lambda>e. fe_source_iid e \<noteq> source_iid) (fb_entries b)
      in (b\<lparr>fb_entries := entries\<rparr>, length (fb_entries b) - length entries))"

definition fb_clear :: "forward_buffer \<Rightarrow> forward_buffer" where
  "fb_clear b = b\<lparr>fb_entries := []\<rparr>"

record forward_stats =
  fst_total_packets :: nat
  fst_distinct_sources :: nat
  fst_oldest_queued_ms :: "u32 option"
  fst_packets_backpressure :: u64

definition fb_stats :: "forward_buffer \<Rightarrow> forward_stats" where
  "fb_stats b =
     \<lparr>fst_total_packets = length (fb_entries b), fst_distinct_sources = distinct_source_count b,
      fst_oldest_queued_ms = min_by_key (\<lambda>t. t) (map fe_queued_at_ms (fb_entries b)),
      fst_packets_backpressure = fb_packets_backpressure b\<rparr>"

text \<open>The calls of a relay, and one call with its effect on the buffer and what it returns.\<close>

datatype forward_call =
    FcQueue bytes bytes u32 "u32 option" u8
  | FcDequeue u32
  | FcDequeueFor bytes u32
  | FcExpire u32
  | FcClearSource bytes
  | FcClear

datatype forward_out = FoQueued "forward_error + unit" | FoEntry "forward_entry option" | FoCount nat | FoDone

fun fb_step :: "forward_buffer \<Rightarrow> forward_call \<Rightarrow> forward_buffer \<times> forward_out" where
  "fb_step b (FcQueue p s now dl pr) = map_prod id FoQueued (fb_queue b p s now dl pr)"
| "fb_step b (FcDequeue now) = map_prod id FoEntry (fb_dequeue b now)"
| "fb_step b (FcDequeueFor s now) = map_prod id FoEntry (dequeue_for_source b s now)"
| "fb_step b (FcExpire now) = map_prod id FoCount (fb_expire b now)"
| "fb_step b (FcClearSource s) = map_prod id FoCount (clear_source b s)"
| "fb_step b FcClear = (fb_clear b, FoDone)"

section \<open>The source limit\<close>

lemma min_by_key_enumerate:
  assumes "min_by_key (\<lambda>(_, e). f e) (filter P (enumerate 0 xs)) = Some (i, e)"
  shows "i < length xs \<and> e = xs ! i \<and> P (i, e) \<and> (\<forall>j < length xs. P (j, xs ! j) \<longrightarrow> f e \<le> f (xs ! j))"
proof -
  have m: "(i, e) \<in> set (filter P (enumerate 0 xs))" using min_by_key_mem [OF assms] .
  have "f e \<le> f (xs ! j)" if "j < length xs" "P (j, xs ! j)" for j
  proof -
    have "(j, xs ! j) \<in> set (filter P (enumerate 0 xs))" using that by (simp add: in_set_enumerate_eq)
    from min_by_key_le [OF assms this] show ?thesis by simp
  qed
  then show ?thesis using m by (auto simp: in_set_enumerate_eq)
qed

lemma min_by_key_enumerate_all:
  "min_by_key (\<lambda>(_, e). f e) (enumerate 0 xs) = Some (i, e) \<Longrightarrow> i < length xs \<and> e = xs ! i \<and> (\<forall>x\<in>set xs. f e \<le> f x)"
  using min_by_key_enumerate [of f "\<lambda>_. True" xs i e] by (auto simp: in_set_conv_nth)

lemma lex_le_cases: "(a, b) \<le> (c, d) \<Longrightarrow> a < c \<or> a = c \<and> b \<le> d" for a c :: "'a::linorder" and b d :: "'b::linorder"
  by auto

definition fb_fair :: "forward_buffer \<Rightarrow> bool" where
  "fb_fair b \<longleftrightarrow> (\<forall>s. count_for_source b s \<le> MAX_PACKETS_PER_SOURCE)"

lemma count_subseq:
  "subseq (fb_entries b') (fb_entries b) \<Longrightarrow> count_for_source b' s \<le> count_for_source b s"
  unfolding count_for_source_def using subseq_filter list_emb_length by blast

lemma fb_fair_subseq: "fb_fair b \<Longrightarrow> subseq (fb_entries b') (fb_entries b) \<Longrightarrow> fb_fair b'"
  unfolding fb_fair_def using count_subseq order_trans by blast

lemma vec_remove_subseq: "subseq (vec_remove i xs) xs"
proof -
  have "subseq (drop (Suc i) xs) (drop i xs)" using suffix_drop [of 1 "drop i xs"] by (simp add: suffix_imp_subseq)
  then have "subseq (take i xs @ drop (Suc i) xs) (take i xs @ drop i xs)" by (simp only: subseq_append')
  then show ?thesis by (simp add: vec_remove_def)
qed

text \<open>Every call but \<open>queue\<close> only drops entries.\<close>

lemma fb_shrinks:
  "subseq (fb_entries (fst (fb_expire b now))) (fb_entries b)"
  "subseq (fb_entries (evict_oldest_source_packet b)) (fb_entries b)"
  "subseq (fb_entries (fst (fb_dequeue b now))) (fb_entries b)"
  "subseq (fb_entries (fst (dequeue_for_source b s now))) (fb_entries b)"
  "subseq (fb_entries (fst (clear_source b s))) (fb_entries b)"
  "subseq (fb_entries (fb_clear b)) (fb_entries b)"
proof -
  show e: "subseq (fb_entries (fst (fb_expire b now))) (fb_entries b)" by (simp add: fb_expire_def Let_def)
  note t = subseq_order.trans [OF vec_remove_subseq e]
  show "subseq (fb_entries (evict_oldest_source_packet b)) (fb_entries b)"
    by (simp add: evict_oldest_source_packet_def Let_def vec_remove_subseq)
  show "subseq (fb_entries (fst (fb_dequeue b now))) (fb_entries b)"
    using e t by (auto simp: fb_dequeue_def Let_def split: option.splits)
  show "subseq (fb_entries (fst (dequeue_for_source b s now))) (fb_entries b)"
    using e t by (auto simp: dequeue_for_source_def Let_def split: option.splits)
qed (simp_all add: clear_source_def fb_clear_def Let_def)

lemma fb_queue_fair:
  assumes "fb_fair b"
  shows "fb_fair (fst (fb_queue b p s now dl pr))"
proof -
  let ?x = "fst (fb_expire b now)"
  define y where "y = (if count_for_source ?x s = 0 \<and> MAX_FORWARDING_SOURCES \<le> distinct_source_count ?x
            then evict_oldest_source_packet ?x else ?x)"
  have x: "fb_fair ?x" using fb_fair_subseq [OF assms fb_shrinks(1)] .
  then have y: "fb_fair y" using fb_fair_subseq [OF x fb_shrinks(2)] by (simp add: y_def)
  have le: "count_for_source y s \<le> count_for_source ?x s"
    using count_subseq [OF fb_shrinks(2) [of ?x], of s] by (auto simp: y_def)
  show ?thesis
  proof (cases "MAX_PACKETS_PER_SOURCE \<le> count_for_source ?x s")
    case True
    then show ?thesis using x by (simp add: fb_queue_def Let_def fb_fair_def count_for_source_def)
  next
    case False
    then have c: "count_for_source (fst (fb_queue b p s now dl pr)) s' =
        count_for_source y s' + (if s' = s then 1 else 0)" for s'
      by (simp add: fb_queue_def Let_def count_for_source_def y_def)
    have "count_for_source y s + 1 \<le> MAX_PACKETS_PER_SOURCE" using le False by linarith
    then show ?thesis using y unfolding fb_fair_def c by simp
  qed
qed

lemma fb_step_fair: "fb_fair b \<Longrightarrow> fb_fair (fst (fb_step b c))"
  by (cases c) (auto intro: fb_queue_fair fb_fair_subseq fb_shrinks)

text \<open>The calls that the source limit rejected.\<close>

definition rejected :: "forward_out \<Rightarrow> bool" where
  "rejected r \<longleftrightarrow> r = FoQueued (Inl FeQueueFull)"

lemma evict_backpressure [simp]: "fb_packets_backpressure (evict_oldest_source_packet b) = fb_packets_backpressure b"
  by (simp add: evict_oldest_source_packet_def Let_def)

lemma fb_step_rejected:
  "fb_packets_backpressure (fst (fb_step b c)) = fb_packets_backpressure b + (if rejected (snd (fb_step b c)) then 1 else 0)"
  by (cases c) (auto simp: fb_queue_def fb_dequeue_def dequeue_for_source_def fb_expire_def clear_source_def fb_clear_def
      rejected_def Let_def split: option.splits)

lemma fb_run:
  "fb_fair b \<Longrightarrow> srun fb_step cs b = (b', outs) \<Longrightarrow>
     fb_fair b' \<and> fb_packets_backpressure b' = fb_packets_backpressure b + of_nat (length (filter rejected outs))"
proof (induction cs arbitrary: b outs)
  case (Cons c cs)
  obtain outs' where "srun fb_step cs (fst (fb_step b c)) = (b', outs')" "outs = snd (fb_step b c) # outs'"
    using Cons.prems by (auto simp: Let_def split: prod.splits)
  then show ?case using Cons.IH [OF fb_step_fair [OF Cons.prems(1)]] fb_step_rejected [of b c] by auto
qed simp

text \<open>
  C32. The source limit holds over every history: whatever is queued, dequeued, expired or cleared,
  no source ever has more than two packets in the buffer, and the backpressure statistic is the
  number of calls that the limit rejected, modulo the 64 bits of its counter.
\<close>

theorem forward_source_limit:
  assumes "srun fb_step cs fb_new = (b, outs)"
  shows "count_for_source b s \<le> 2 \<and> unat (fst_packets_backpressure (fb_stats b)) = length (filter rejected outs) mod 2 ^ 64"
proof -
  have "fb_fair fb_new" by (simp add: fb_fair_def fb_new_def count_for_source_def)
  then show ?thesis
    using fb_run [OF _ assms] by (simp add: fb_fair_def MAX_PACKETS_PER_SOURCE_def fb_stats_def fb_new_def unat_of_nat)
qed

theorem forward_source_limit_witness:
  "\<exists>b. srun fb_step [FcQueue [1] [9] 0 None 1, FcQueue [2] [9] 0 None 1, FcQueue [3] [9] 0 None 1] fb_new =
       (b, [FoQueued (Inr ()), FoQueued (Inr ()), FoQueued (Inl FeQueueFull)]) \<and>
     count_for_source b [9] \<le> 2 \<and> unat (fst_packets_backpressure (fb_stats b)) = 1"
proof -
  let ?cs = "[FcQueue [1] [9] 0 None 1, FcQueue [2] [9] 0 None 1, FcQueue [3] [9] 0 None 1]"
  have "snd (srun fb_step ?cs fb_new) = [FoQueued (Inr ()), FoQueued (Inr ()), FoQueued (Inl FeQueueFull)]" by code_simp
  then obtain b where b: "srun fb_step ?cs fb_new = (b, [FoQueued (Inr ()), FoQueued (Inr ()), FoQueued (Inl FeQueueFull)])"
    by (metis prod.collapse)
  show ?thesis using forward_source_limit [OF b, of "[9]"] b by (auto simp: rejected_def)
qed


section \<open>The size of the buffer\<close>

text \<open>The number of distinct sources is counted exactly up to the size of the array.\<close>

definition seen_ok :: "bytes list \<times> nat \<Rightarrow> bytes set \<Rightarrow> bool" where
  "seen_ok s S \<longleftrightarrow> (case s of (seen, n) \<Rightarrow>
     length seen = 8 \<and> finite S \<and> n = min 8 (card S) \<and> (n < 8 \<longrightarrow> set (take n seen) = S))"

lemma seen_step_ok:
  assumes "seen_ok (seen, n) S"
  shows "seen_ok (seen_step (seen, n) e) (insert (fe_source_iid e) S)"
proof -
  define x where "x = fe_source_iid e"
  have ok: "length seen = 8" "finite S" "n = min 8 (card S)" "n < 8 \<Longrightarrow> set (take n seen) = S"
    using assms unfolding seen_ok_def prod.case by blast+
  consider "n < 8" "x \<in> S" | "n < 8" "x \<notin> S" | "\<not> n < 8" by blast
  then have "seen_ok (seen_step (seen, n) e) (insert x S)"
  proof cases
    case 1
    then have "seen_step (seen, n) e = (seen, n)" "insert x S = S" using ok(4) by (auto simp: seen_step_def x_def)
    then show ?thesis using assms by simp
  next
    case 2
    then have "seen_step (seen, n) e = (seen[n := x], n + 1)"
      using ok(4) by (simp add: seen_step_def x_def MAX_FORWARDING_SOURCES_def)
    moreover have "set (take (n + 1) (seen[n := x])) = insert x S"
      using 2 ok(1,4) by (simp add: take_Suc_conv_app_nth)
    moreover have "n + 1 = min 8 (card (insert x S))" using 2 ok(2,3) by simp
    ultimately show ?thesis using ok(1,2) unfolding seen_ok_def by (simp only: prod.case length_list_update finite_insert simp_thms)
  next
    case 3
    have "card S \<le> card (insert x S)" using ok(2) by (intro card_mono) auto
    moreover have "n = 8" "8 \<le> card S" using 3 ok(3) by linarith+
    ultimately show ?thesis using ok(1,2) by (simp add: seen_ok_def seen_step_def MAX_FORWARDING_SOURCES_def)
  qed
  then show ?thesis by (simp only: x_def)
qed

lemma foldl_seen_ok: "seen_ok s S \<Longrightarrow> seen_ok (foldl seen_step s es) (S \<union> fe_source_iid ` set es)"
proof (induction es arbitrary: s S)
  case (Cons e es)
  obtain seen n where "s = (seen, n)" by (cases s)
  then show ?case using Cons.IH [OF seen_step_ok [of seen n S e]] Cons.prems by simp
qed simp

lemma distinct_source_count_eq:
  "distinct_source_count b = min 8 (card (fe_source_iid ` set (fb_entries b)))"
proof -
  have "seen_ok (replicate MAX_FORWARDING_SOURCES (replicate 8 0), 0) {}"
    by (simp add: seen_ok_def MAX_FORWARDING_SOURCES_def)
  from foldl_seen_ok [OF this, of "fb_entries b"] show ?thesis
    by (auto simp: seen_ok_def distinct_source_count_def split: prod.splits)
qed

text \<open>Sources that each queue two packets at time 0, without a deadline.\<close>

definition plain_entry :: "bytes \<Rightarrow> forward_entry" where
  "plain_entry s = \<lparr>fe_packet = [], fe_source_iid = s, fe_queued_at_ms = 0, fe_deadline_ms = None, fe_priority = 0\<rparr>"

definition plain_call :: "bytes \<Rightarrow> forward_call" where
  "plain_call s = FcQueue [] s 0 None 0"

definition two_each :: "(bytes \<Rightarrow> 'a) \<Rightarrow> bytes list \<Rightarrow> 'a list" where
  "two_each f ss = concat (map (\<lambda>s. [f s, f s]) ss)"

lemma two_each_simps [simp]:
  "two_each f [] = []" "two_each f (s # ss) = f s # f s # two_each f ss" "two_each f (xs @ ys) = two_each f xs @ two_each f ys"
  by (simp_all add: two_each_def)

lemma length_two_each [simp]: "length (two_each f ss) = 2 * length ss"
  by (induction ss) auto

lemma set_two_each [simp]: "set (two_each f ss) = f ` set ss"
  by (induction ss) auto

lemma drop_two_each: "drop (2 * k) (two_each f ss) = two_each f (drop k ss)"
  by (induction ss arbitrary: k) (auto simp: drop_Cons split: nat.splits)

lemma min_by_key_plain:
  "set es \<subseteq> range plain_entry \<Longrightarrow> min_by_key (\<lambda>(_, e). fe_queued_at_ms e) ((i, plain_entry s) # enumerate j es) = Some (i, plain_entry s)"
  by (auto simp: plain_entry_def split: option.split)

text \<open>A new source queues its two packets: with eight sources in the buffer, one packet gives way.\<close>

lemma two_calls:
  assumes E: "fb_entries b = E" "set E \<subseteq> range plain_entry" and s: "s \<notin> fe_source_iid ` set E"
  shows "fb_entries (fst (srun fb_step [plain_call s, plain_call s] b)) =
    (if 8 \<le> card (fe_source_iid ` set E) then tl E else E) @ [plain_entry s, plain_entry s]"
proof -
  have live: "fst (fb_expire c 0) = c" if "set (fb_entries c) \<subseteq> range plain_entry" for c
  proof -
    have "filter (\<lambda>e. \<not> fe_is_expired e 0) (fb_entries c) = fb_entries c"
      using that by (auto simp: filter_id_conv fe_is_expired_def plain_entry_def)
    then show ?thesis by (simp add: fb_expire_def Let_def)
  qed
  define E1 where "E1 = (if 8 \<le> card (fe_source_iid ` set E) then tl E else E)"
  have sub: "set E1 \<subseteq> set E" unfolding E1_def by (cases E) auto
  have ev: "fb_entries (evict_oldest_source_packet b) = tl E" if ne: "E \<noteq> []"
  proof -
    obtain x es where x: "E = plain_entry x # es" "set es \<subseteq> range plain_entry" using ne E(2) by (cases E) auto
    then have "min_by_key (\<lambda>(_, e). fe_queued_at_ms e) (enumerate 0 E) = Some (0, plain_entry x)"
      using min_by_key_plain [OF x(2), of 0 x 1] by simp
    then show ?thesis using x E(1) by (simp add: evict_oldest_source_packet_def)
  qed
  have c0: "count_for_source b s = 0" using s E by (auto simp: count_for_source_def filter_empty_conv)
  let ?b1 = "fst (fb_queue b [] s 0 None 0)"
  have ne: "E \<noteq> []" if "8 \<le> card (fe_source_iid ` set E)" using that by auto
  have b1: "fb_entries ?b1 = E1 @ [plain_entry s]"
    using live [of b] E c0 ev ne
    by (auto simp: fb_queue_def Let_def MAX_PACKETS_PER_SOURCE_def MAX_FORWARDING_SOURCES_def distinct_source_count_eq
        plain_entry_def E1_def)
  have c1: "count_for_source ?b1 s = 1"
    using b1 s sub by (auto simp: count_for_source_def filter_empty_conv plain_entry_def)
  have "set (fb_entries ?b1) \<subseteq> range plain_entry" using b1 sub E by auto
  then have "fb_entries (fst (fb_queue ?b1 [] s 0 None 0)) = E1 @ [plain_entry s, plain_entry s]"
    using live [of ?b1] c1 b1 by (simp add: fb_queue_def [of ?b1] Let_def MAX_PACKETS_PER_SOURCE_def plain_entry_def)
  then show ?thesis by (simp add: plain_call_def E1_def Let_def case_prod_beta)
qed

lemma two_each_entries:
  "distinct ss \<Longrightarrow> fb_entries (fst (srun fb_step (two_each plain_call ss) fb_new)) =
     drop (length ss - 8) (two_each plain_entry ss)"
proof (induction ss rule: rev_induct)
  case (snoc s ss)
  let ?b = "fst (srun fb_step (two_each plain_call ss) fb_new)"
  let ?E = "drop (length ss - 8) (two_each plain_entry ss)"
  have E: "fb_entries ?b = ?E" using snoc by simp
  have src: "fe_source_iid (plain_entry x) = x" for x by (simp add: plain_entry_def)
  have sub: "set ?E \<subseteq> plain_entry ` set ss" using set_drop_subset [of "length ss - 8" "two_each plain_entry ss"] by simp
  then have "set ?E \<subseteq> range plain_entry" and im: "fe_source_iid ` set ?E \<subseteq> set ss" using src by auto
  moreover have "s \<notin> fe_source_iid ` set ?E" using snoc.prems im by auto
  ultimately have run: "fb_entries (fst (srun fb_step (two_each plain_call (ss @ [s])) fb_new)) =
      (if 8 \<le> card (fe_source_iid ` set ?E) then tl ?E else ?E) @ [plain_entry s, plain_entry s]"
    using two_calls [OF E, of s] by (auto simp: srun_append Let_def case_prod_beta)
  show ?case
  proof (cases "8 \<le> length ss")
    case True
    have "set (drop (2 * (length ss - 8)) (two_each plain_entry ss)) \<subseteq> set ?E" by (intro set_drop_subset_set_drop) simp
    from image_mono [OF this, of fe_source_iid]
    have "set (drop (length ss - 8) ss) \<subseteq> fe_source_iid ` set ?E" unfolding drop_two_each set_two_each image_image src by simp
    moreover have "card (set (drop (length ss - 8) ss)) = 8" using True snoc.prems by (simp add: distinct_card)
    ultimately have "8 \<le> card (fe_source_iid ` set ?E)" by (metis card_mono finite_imageI finite_set)
    moreover have "length ss - 7 = Suc (length ss - 8)" using True by simp
    ultimately show ?thesis using run True by (simp add: drop_Suc tl_drop)
  next
    case False
    have "card (fe_source_iid ` set ?E) \<le> length ss" using card_mono [OF _ im] card_length [of ss] by simp
    then show ?thesis using run False by simp
  qed
qed (simp add: fb_new_def)

text \<open>
  C34. The buffer has no bound on its total size: when distinct sources, at least eight of them,
  each queue two packets, the buffer ends up with eight packets more than there are sources. A
  ninth source already takes it past the documented sixteen.
\<close>

theorem forward_buffer_unbounded:
  assumes "distinct ss" and "8 \<le> length ss"
  shows "fb_len (fst (srun fb_step (two_each plain_call ss) fb_new)) = length ss + 8"
  using two_each_entries [OF assms(1)] assms(2) by (simp add: fb_len_def)

theorem forward_buffer_unbounded_witness:
  "fb_len (fst (srun fb_step (two_each plain_call (map (\<lambda>i. replicate 7 0 @ [i]) [1, 2, 3, 4, 5, 6, 7, 8, 9])) fb_new)) = 17"
  using forward_buffer_unbounded [of "map (\<lambda>i. replicate 7 0 @ [i]) [1, 2, 3, 4, 5, 6, 7, 8, 9]"] by simp

end
