(* ===== verification/Spec2Isabelle.thy ===== *)
theory Spec2Isabelle
  imports Trust_State Link_Relay Airtime Tx_Queue Hybrid_Router Schc_Repair Slip Trickle Forward_Buffer
begin

text \<open>
  A verification library for LICHEN, an IPv6 mesh stack for LoRa radios written in Rust. All file
  names below are relative to \<open>src/rust/\<close>.

  \<^bold>\<open>The program.\<close> A node signs every link frame and accepts frames only from peers it tracks
  (\<open>lichen-link\<close>). IPv6 packets that do not fit a frame are fragmented (\<open>lichen-schc\<close>). A
  received packet is routed by gradient, by position or by an on-demand LOADng discovery
  (\<open>lichen-node\<close>, \<open>lichen-core/src/loadng.rs\<close>); a relayed one waits in the forwarding buffer. What
  is sent passes the transmit queue, CSMA and the duty-cycle budget (\<open>lichen-core\<close>). RPL paces its
  messages with a Trickle timer, and a host is attached over SLIP.

  \<^bold>\<open>Conventions.\<close> A struct is a record, an enum a datatype, an \<open>n\<close>-bit integer an \<open>n\<close>-bit word, a
  byte slice a list of bytes, \<open>usize\<close> a natural number, a \<open>HashMap\<close> an association list. A method
  takes the state and returns it with its result; an error is \<open>Inl\<close>, a panic \<open>None\<close>. Code outside
  the repository is a parameter: the hash functions and Schnorr signatures are fields of a record
  of operations, the containers of the crate heapless are the operations of \<open>Heapless\<close> with their
  documented laws as hypotheses, and the f32 geometry of routing is a record of functions.

  \<^bold>\<open>The theories and the code they model.\<close>

  \<^item> \<open>LichenPrelude\<close>: saturating and checked arithmetic, byte buffers, hash maps, and the contracts
    that the components share. \<open>wire_codec\<close> is interpreted by the codecs of link frames, LOADng
    messages, SCHC fragments and acknowledgements; \<open>safe_machine\<close> by the transmit queue and the
    hybrid router; \<open>guarded_machine\<close>, whose calls have preconditions, by the Trickle timer; \<open>forward_simulation\<close> by the gradient table.
  \<^item> \<open>Serial_Numbers\<close>: RFC 1982 comparison (\<open>lichen-core/src/seqnum.rs\<close>, \<open>lichen-link/src/seqnum.rs\<close>,
    \<open>lichen-node/src/gradient.rs\<close>), and where the three comparisons of the code agree.
  \<^item> \<open>Link_Frame\<close>: the frame codec and the signed message (\<open>lichen-link/src/frame.rs\<close>,
    \<open>schnorr.rs\<close>). Parsing accepts exactly the images of valid frames; the signed message
    determines the fields.
  \<^item> \<open>Replay_Window\<close>: the 32-slot window and the per-peer tracker (\<open>lichen-link/src/replay.rs\<close>),
    which refines a history of accepted numbers.
  \<^item> \<open>Addressing\<close>: addresses and the two derivations from keys (\<open>lichen-core/src/addr.rs\<close>,
    \<open>short_addr.rs\<close>, \<open>lichen-ipv6/src/lib.rs\<close>).
  \<^item> \<open>Receipt_Evidence\<close>: generations, revocation cells, receipt clock and identities
    (\<open>lichen-link/src/evidence.rs\<close>, \<open>identity.rs\<close>).
  \<^item> \<open>Link_Layer\<close>, \<open>Link_Security\<close>, \<open>Link_History\<close>, \<open>Trust_State\<close>: \<open>lichen-link/src/link_layer.rs\<close>,
    its invariant, and what holds over histories of calls: no replay, revocation, authenticity,
    delivery, bounded tables, and trust records that survive a restart.
  \<^item> \<open>Link_Relay\<close>: \<open>lichen-link/src/relay.rs\<close>. A relay receives as any other node does, so the
    theorems on receptions cover it, and emits only what it has verified.
  \<^item> \<open>Airtime\<close>, \<open>Heapless\<close>, \<open>Duty_Cycle\<close>, \<open>Tx_Queue\<close>: \<open>lichen-core/src/airtime.rs\<close>, \<open>duty_cycle.rs\<close>,
    \<open>tx_queue.rs\<close>. The airtime is the Semtech formula. Admission and the congestion level are
    characterised over histories of all public calls, the unconditional \<open>record_tx\<close> included; the
    budget holds in every hour when recording goes through \<open>try_record_tx\<close>. The queue serves by
    priority and age with exact statistics; CSMA backs off within its bounds.
  \<^item> \<open>Loadng\<close>: messages and typed discovery (\<open>lichen-core/src/loadng.rs\<close>).
  \<^item> \<open>Gradient_Table\<close>, \<open>Hybrid_Router\<close>: \<open>lichen-node/src/gradient.rs\<close>, \<open>hybrid.rs\<close>. The table refines
    a least-recently-used map; each routing decision is made exactly for its reason; a discovery ends with a route
    or gives up; the tables stay bounded.
  \<^item> \<open>Forward_Buffer\<close>: \<open>lichen-node/src/forward_buffer.rs\<close>. The limit per source holds, the best
    packet is served first, and the total size has no bound.
  \<^item> \<open>Schc_Codec\<close>, \<open>Schc_Session\<close>, \<open>Schc_Reassembly\<close>, \<open>Schc_Repair\<close>: the ACK-on-Error fragmentation of
    \<open>lichen-schc/src/fragment.rs\<close>: codec, sessions, the receiver's invariant over histories, and
    repair rounds. Acknowledgements are canonical, a reassembled packet is the sender's unless the
    integrity check collides, at most two loss-free rounds complete a transfer, and the sender stops.
  \<^item> \<open>Trickle\<close>: \<open>lichen-rpl/src/trickle.rs\<close>. Intervals, transmission times and suppression.
  \<^item> \<open>Slip\<close>: \<open>lichen-kiss/src/slip.rs\<close>. The decoder inverts the encoder and each error is
    characterised.

  \<^bold>\<open>Bounds and fuel.\<close> Loops over a slice are structural recursions. The loops that pop
  a heap (\<open>Tx_Queue\<close>) or a deque (\<open>evict_loop\<close> of \<open>Duty_Cycle\<close>) take the number of stored items as
  fuel; every turn removes one, and lemmas show that this fuel gives the full result. \<open>drain\<close> of
  \<open>Schc_Repair\<close> collects the messages of one retransmission with fuel 65: a window has 63 tiles, a
  request may follow them, and the last call answers that nothing is left. Everything over histories is stated for lists of calls of any length.

  \<^bold>\<open>Not modelled.\<close> SCHC header compression, the per-peer policy around the fragmentation sessions,
  CoAP, OSCORE, SenML, RPL messages and DODAG state, the gateway, and the node's runtime: protocol
  code that this library does not reach yet. The command-line and terminal clients, the hardware
  abstraction and the firmware are input and output around the protocol crates. \<open>Display\<close>
  implementations and accessors that return a field are left out throughout.
\<close>

end
